(* ===== verification/GC_Prelude.thy ===== *)
theory GC_Prelude
  imports Main "HOL-Library.Word"
begin

text \<open>
  Shared vocabulary of the development: the machine integers of the Rust code, the
  arithmetic operators the code uses on them (saturating and ceiling operations), the
  block updates a memory or a bitmap undergoes, and the bit-level facts about tagged words.
\<close>

unbundle bit_operations_syntax

section \<open>Collections of facts\<close>

named_theorems bitmap_simps \<open>what a bitmap test reads after a bitmap update\<close>
named_theorems heap_frame \<open>components of the heap an operation leaves alone\<close>

section \<open>Machine integers\<close>

text \<open>
  \<open>usize\<close> is 64 bits wide on every supported target. Indices and counts that are bounded
  by the reservation (far below \<open>2 ^ 64\<close>) are \<open>nat\<close>; everything the code packs, masks,
  truncates or saturates keeps its width.
\<close>

type_synonym u8 = "8 word"
type_synonym u16 = "16 word"
type_synonym u32 = "32 word"
type_synonym u64 = "64 word"
type_synonym i64 = "64 word"

text \<open>\<open>saturating_add\<close> and \<open>saturating_sub\<close> of the unsigned types.\<close>

definition saturating_add :: "'a::len word \<Rightarrow> 'a word \<Rightarrow> 'a word" where
  "saturating_add a b = (if unat a + unat b < 2 ^ LENGTH('a) then a + b else - 1)"

definition saturating_sub :: "'a::len word \<Rightarrow> 'a word \<Rightarrow> 'a word" where
  "saturating_sub a b = (if b \<le> a then a - b else 0)"

text \<open>\<open>div_ceil\<close> of \<open>usize\<close>.\<close>

definition div_ceil :: "nat \<Rightarrow> nat \<Rightarrow> nat" where
  "div_ceil a b = (a div b) + (if a mod b = 0 then 0 else 1)"

lemma unat_saturating_add:
  "unat (saturating_add a b) = min (unat a + unat b) (2 ^ LENGTH('a) - 1)"
  for a b :: "'a::len word"
proof (cases "unat a + unat b < 2 ^ LENGTH('a)")
  case True
  then show ?thesis by (simp add: saturating_add_def unat_word_ariths)
next
  case False
  moreover have "unat (- 1 :: 'a word) = 2 ^ LENGTH('a) - 1"
    by (simp add: unat_eq_nat_uint uint_word_arith_bintrs(7) unsigned_minus_1_eq_mask mask_eq_exp_minus_1 nat_diff_distrib nat_power_eq)
  ultimately show ?thesis by (simp add: saturating_add_def)
qed

lemma unat_saturating_sub: "unat (saturating_sub a b) = unat a - unat b"
  by (auto simp: saturating_sub_def unat_sub word_le_nat_alt)

lemma div_ceil_bounds:
  assumes "0 < b"
  shows "a \<le> div_ceil a b * b" "div_ceil a b * b < a + b"
proof -
  define q r where "q = a div b" and "r = a mod b"
  have a: "a = q * b + r" and r: "r < b"
    using assms by (simp_all add: q_def r_def)
  have "div_ceil a b = q + (if r = 0 then 0 else 1)"
    by (simp add: div_ceil_def q_def r_def)
  then show "a \<le> div_ceil a b * b" "div_ceil a b * b < a + b"
    using a r by (simp_all add: algebra_simps)
qed

section \<open>Block updates\<close>

text \<open>
  \<open>fill_range m lo n v\<close> is \<open>m\<close> with the \<open>n\<close> cells from \<open>lo\<close> on set to \<open>v\<close>: what
  \<open>write_bytes\<close> or a counted store loop does. \<open>copy_range\<close> is \<open>copy_nonoverlapping\<close>.
\<close>

definition fill_range :: "(nat \<Rightarrow> 'a) \<Rightarrow> nat \<Rightarrow> nat \<Rightarrow> 'a \<Rightarrow> (nat \<Rightarrow> 'a)" where
  "fill_range m lo n v = (\<lambda>i. if lo \<le> i \<and> i < lo + n then v else m i)"

definition copy_range :: "(nat \<Rightarrow> 'a) \<Rightarrow> nat \<Rightarrow> nat \<Rightarrow> nat \<Rightarrow> (nat \<Rightarrow> 'a)" where
  "copy_range m src dst n = (\<lambda>i. if dst \<le> i \<and> i < dst + n then m (src + (i - dst)) else m i)"

lemma fill_range_in [simp]: "lo \<le> i \<Longrightarrow> i < lo + n \<Longrightarrow> fill_range m lo n v i = v"
  by (simp add: fill_range_def)

lemma fill_range_out: "i < lo \<or> lo + n \<le> i \<Longrightarrow> fill_range m lo n v i = m i"
  by (auto simp: fill_range_def)

lemma fill_range_0 [simp]: "fill_range m lo 0 v = m"
  by (rule ext) (auto simp: fill_range_def)

lemma copy_range_in: "k < n \<Longrightarrow> copy_range m src dst n (dst + k) = m (src + k)"
  by (simp add: copy_range_def)

lemma copy_range_out: "i < dst \<or> dst + n \<le> i \<Longrightarrow> copy_range m src dst n i = m i"
  by (auto simp: copy_range_def)

section \<open>Tagged words\<close>

text \<open>
  A tagged word is an aligned address with a small tag in its low bits. The facts below
  hold for every mask; the layouts use them at 3 and 2 tag bits.
\<close>

lemma or_tag_and_mask:
  fixes p t m :: "'a::len word"
  assumes "p AND m = 0" and "t AND m = t"
  shows "(p OR t) AND m = t"
  using assms by (simp add: bit.conj_disj_distrib2)

lemma or_tag_and_not_mask:
  fixes p t m :: "'a::len word"
  assumes "p AND m = 0" and "t AND m = t"
  shows "(p OR t) AND NOT m = p"
proof (rule bit_word_eqI)
  fix n
  have "bit (p AND m) n = bit (0 :: 'a word) n" using assms(1) by simp
  then have "\<not> (bit p n \<and> bit m n)" by (simp add: bit_simps)
  moreover have "bit t n \<Longrightarrow> bit m n" using assms(2) by (metis bit_and_iff)
  ultimately show "n < LENGTH('a) \<Longrightarrow> bit ((p OR t) AND NOT m) n = bit p n"
    by (auto simp: bit_simps)
qed

lemma and_not_mask_and_mask [simp]: "(p AND NOT m) AND m = 0" for p m :: "'a::len word"
  by (rule bit_word_eqI) (auto simp: bit_simps)

lemma and_mask_idem [simp]: "(t AND m) AND m = t AND m" for t m :: "'a::len word"
  by (simp add: and.assoc)

lemma or_tag_split: "(p AND NOT m) OR (p AND m) = p" for p m :: "'a::len word"
  by (rule bit_word_eqI) (auto simp: bit_simps)

lemma bit_shift_one: "bit (push_bit b (1 :: 'a::len word)) n \<longleftrightarrow> n = b \<and> b < LENGTH('a)"
  by (auto simp: bit_simps)

lemma bit_two_power: "bit (2 ^ b :: 'a::len word) n \<longleftrightarrow> n = b \<and> b < LENGTH('a)"
  using bit_shift_one [of b n, where 'a = 'a] by simp

lemma seven_eq_mask: "(7 :: u64) = mask 3" and three_eq_mask: "(3 :: u64) = mask 2"
  by (simp_all add: mask_eq_exp_minus_1)

text \<open>Testing one bit through a shifted one.\<close>

lemma and_push_bit_one: "w AND push_bit i 1 \<noteq> 0 \<longleftrightarrow> bit w i" for w :: "'a::len word"
proof -
  have b: "bit (w AND push_bit i 1) n \<longleftrightarrow> n = i \<and> bit w i" for n
    by (auto simp: bit_simps dest: bit_imp_le_length)
  show ?thesis
  proof (cases "bit w i")
    case True
    then have "bit (w AND push_bit i 1) i" by (simp only: b)
    then have "w AND push_bit i 1 \<noteq> 0" by (intro notI) (simp only: semiring_bits_class.bit_0_eq bot_fun_def bot_bool_def)
    then show ?thesis using True by simp
  next
    case False
    then have "w AND push_bit i 1 = 0" by (intro bit_word_eqI) (simp only: b, simp)
    then show ?thesis using False by simp
  qed
qed

text \<open>Alignment by arithmetic instead of bits.\<close>

lemma and7_eq_0_iff: "p AND 7 = 0 \<longleftrightarrow> unat p mod 8 = 0" for p :: u64
proof -
  have "p AND 7 = take_bit 3 p"
    by (simp add: take_bit_eq_mask mask_eq_exp_minus_1)
  moreover have "unat (take_bit 3 p) = unat p mod 8"
    by (simp only: unsigned_take_bit_eq) (simp add: take_bit_eq_mod)
  ultimately show ?thesis by (metis unat_0 unat_eq_zero)
qed

lemma and3_eq_0_iff: "p AND 3 = 0 \<longleftrightarrow> unat p mod 4 = 0" for p :: u64
proof -
  have "p AND 3 = take_bit 2 p"
    by (simp add: take_bit_eq_mask mask_eq_exp_minus_1)
  moreover have "unat (take_bit 2 p) = unat p mod 4"
    by (simp only: unsigned_take_bit_eq) (simp add: take_bit_eq_mod)
  ultimately show ?thesis by (metis unat_0 unat_eq_zero)
qed

section \<open>Folding a partial step over a list\<close>

text \<open>A \<open>for\<close> loop whose body may panic (\<open>None\<close>): the first panic ends the loop.\<close>

fun fold_opt :: "('a \<Rightarrow> 's \<Rightarrow> 's option) \<Rightarrow> 'a list \<Rightarrow> 's \<Rightarrow> 's option" where
  "fold_opt f [] s = Some s"
| "fold_opt f (x # xs) s = (case f x s of None \<Rightarrow> None | Some s' \<Rightarrow> fold_opt f xs s')"

text \<open>The same with an error value instead of \<open>None\<close>, and the composition of two fallible steps.\<close>

fun fold_res :: "('a \<Rightarrow> 's \<Rightarrow> 'e + 's) \<Rightarrow> 'a list \<Rightarrow> 's \<Rightarrow> 'e + 's" where
  "fold_res f [] s = Inr s"
| "fold_res f (x # xs) s = (case f x s of Inl e \<Rightarrow> Inl e | Inr s' \<Rightarrow> fold_res f xs s')"

definition bind_res :: "'e + 'a \<Rightarrow> ('a \<Rightarrow> 'e + 'b) \<Rightarrow> 'e + 'b" where
  "bind_res r f = (case r of Inl e \<Rightarrow> Inl e | Inr x \<Rightarrow> f x)"

lemma bind_res_simps [simp]: "bind_res (Inl e) f = Inl e" "bind_res (Inr x) f = f x"
  by (simp_all add: bind_res_def)

lemma bind_res_Inr: "bind_res r f = Inr y \<longleftrightarrow> (\<exists>x. r = Inr x \<and> f x = Inr y)"
  by (cases r) auto

lemma bind_res_cong [fundef_cong]:
  "r = r' \<Longrightarrow> (\<And>x. r' = Inr x \<Longrightarrow> f x = f' x) \<Longrightarrow> bind_res r f = bind_res r' f'"
  by (cases r') (simp_all add: bind_res_def)

lemma fold_res_invariant:
  assumes "fold_res f xs s = Inr s'" and "P s"
    and "\<And>x t t'. x \<in> set xs \<Longrightarrow> P t \<Longrightarrow> f x t = Inr t' \<Longrightarrow> P t'"
  shows "P s'"
  using assms
proof (induction xs arbitrary: s)
  case (Cons x xs)
  obtain t where t: "f x s = Inr t" "fold_res f xs t = Inr s'"
    using Cons.prems(1) by (auto split: sum.splits)
  have "P t" by (rule Cons.prems(3) [OF _ Cons.prems(2) t(1)]) simp
  with t(2) show ?case
  proof (rule Cons.IH)
    show "P v" if "y \<in> set xs" "P u" "f y u = Inr v" for y u v
      by (rule Cons.prems(3) [OF _ that(2,3)]) (use that(1) in simp)
  qed
qed simp

lemma fold_opt_append:
  "fold_opt f (xs @ ys) s = (case fold_opt f xs s of None \<Rightarrow> None | Some s' \<Rightarrow> fold_opt f ys s')"
  by (induction xs arbitrary: s) (auto split: option.splits)

lemma fold_opt_invariant:
  assumes "fold_opt f xs s = Some s'" and "P s"
    and "\<And>x t t'. x \<in> set xs \<Longrightarrow> P t \<Longrightarrow> f x t = Some t' \<Longrightarrow> P t'"
  shows "P s'"
  using assms
proof (induction xs arbitrary: s)
  case (Cons x xs)
  from Cons.prems(1) obtain t where t: "f x s = Some t" "fold_opt f xs t = Some s'"
    by (auto split: option.splits)
  show ?case
    by (rule Cons.IH [OF t(2)]) (use Cons.prems t in auto)
qed simp

end
