(* ===== verification/Bitmaps.thy ===== *)
theory Bitmaps
  imports GC_Prelude
begin

text \<open>
  The packed bitmaps of the page heap, at the level of the 64-bit words the code shifts and
  masks: the one-bit-per-cell maps (\<open>mark_bits\<close>, \<open>committed_bits\<close> in \<^verbatim>\<open>space.rs\<close>) and the
  two-bits-per-cell start map of \<^verbatim>\<open>alloc.rs\<close>. A \<open>Vec<u64>\<close> of fixed length is a function
  from word indices. The interface locale says what clients use: a bitmap is a set of cells,
  setting inserts one cell, clearing a page removes exactly that page's cells.
\<close>

definition PAGE_SIZE_BYTES :: nat where "PAGE_SIZE_BYTES = 64 * 1024"
definition PAGE_SIZE_CELLS :: nat where "PAGE_SIZE_CELLS = PAGE_SIZE_BYTES div 8"

lemma PAGE_SIZE_CELLS_num: "PAGE_SIZE_CELLS = 8192"
  by (simp add: PAGE_SIZE_CELLS_def PAGE_SIZE_BYTES_def)

definition CELLS_PER_STARTS_WORD :: nat where "CELLS_PER_STARTS_WORD = 32"
definition STARTS_PAIR_HEADER :: u64 where "STARTS_PAIR_HEADER = 1"
definition STARTS_PAIR_CONS :: u64 where "STARTS_PAIR_CONS = 3"
definition STARTS_WORDS_PER_PAGE :: nat where
  "STARTS_WORDS_PER_PAGE = PAGE_SIZE_CELLS div CELLS_PER_STARTS_WORD"

type_synonym bitmap = "nat \<Rightarrow> u64"

section \<open>The interface\<close>

locale cell_bitmap =
  fixes test :: "bitmap \<Rightarrow> nat \<Rightarrow> bool"
    and insert_bit :: "bitmap \<Rightarrow> nat \<Rightarrow> bitmap"
    and clear_page :: "bitmap \<Rightarrow> nat \<Rightarrow> bitmap"
  assumes test_insert: "test (insert_bit b i) j \<longleftrightarrow> j = i \<or> test b j"
    and test_clear: "test (clear_page b p) j \<longleftrightarrow> test b j \<and> j div PAGE_SIZE_CELLS \<noteq> p"
    and test_empty: "\<not> test (\<lambda>_. 0) j"
begin

lemma test_insert_list:
  "test (fold (\<lambda>i b. insert_bit b i) is b) j \<longleftrightarrow> j \<in> set is \<or> test b j"
  by (induction "is" arbitrary: b) (auto simp: test_insert)

lemma test_clear_list:
  "test (fold (\<lambda>p b. clear_page b p) ps b) j \<longleftrightarrow> test b j \<and> j div PAGE_SIZE_CELLS \<notin> set ps"
  by (induction ps arbitrary: b) (auto simp: test_clear)

lemma insert_idem: "test b i \<Longrightarrow> test (insert_bit b i) j \<longleftrightarrow> test b j"
  by (auto simp: test_insert)

end

section \<open>One bit per cell\<close>

definition bit1_test :: "bitmap \<Rightarrow> nat \<Rightarrow> bool" where
  "bit1_test bits i =
     (let w = i div 64; b = i mod 64 in drop_bit b (bits w) AND 1 \<noteq> 0)"

definition bit1_set :: "bitmap \<Rightarrow> nat \<Rightarrow> bitmap" where
  "bit1_set bits i =
     (let w = i div 64; b = i mod 64 in bits(w := bits w OR push_bit b 1))"

definition bit1_unset :: "bitmap \<Rightarrow> nat \<Rightarrow> bitmap" where
  "bit1_unset bits i =
     (let w = i div 64; b = i mod 64 in bits(w := bits w AND NOT (push_bit b 1)))"

text \<open>\<open>clear_mark_bits_for_page\<close>: the page's 128 words.\<close>

definition bit1_clear_page :: "bitmap \<Rightarrow> nat \<Rightarrow> bitmap" where
  "bit1_clear_page bits page_idx =
     (let first_word = page_idx * PAGE_SIZE_CELLS div 64; words_per_page = PAGE_SIZE_CELLS div 64
      in fill_range bits first_word words_per_page 0)"

lemma drop_and_1: "drop_bit b w AND 1 \<noteq> 0 \<longleftrightarrow> bit w b" for w :: "'a::len word"
  using and_push_bit_one [of "drop_bit b w" 0] by (simp add: bit_simps)

lemma bit1_test_bit: "bit1_test bits i \<longleftrightarrow> bit (bits (i div 64)) (i mod 64)"
  unfolding bit1_test_def Let_def drop_and_1 ..

lemma div_mod_64_eq: "j = i \<longleftrightarrow> j div 64 = i div 64 \<and> j mod 64 = i mod 64" for i j :: nat
  by (metis div_mult_mod_eq)

lemma bit1_test_set [bitmap_simps]: "bit1_test (bit1_set bits i) j \<longleftrightarrow> j = i \<or> bit1_test bits j"
  unfolding div_mod_64_eq [of j i]
  by (cases "j div 64 = i div 64") (auto simp: bit1_test_bit bit1_set_def Let_def bit_or_iff bit_two_power)

lemma bit1_test_unset [bitmap_simps]: "bit1_test (bit1_unset bits i) j \<longleftrightarrow> j \<noteq> i \<and> bit1_test bits j"
  unfolding div_mod_64_eq [of j i]
  by (cases "j div 64 = i div 64")
    (auto simp: bit1_test_bit bit1_unset_def Let_def bit_and_iff bit_not_iff bit_two_power)

lemma page_word_range:
  "p * 128 \<le> c div 64 \<and> c div 64 < p * 128 + 128 \<longleftrightarrow> c div 8192 = p" for c p :: nat
proof -
  have "c div 8192 = c div 64 div 128" by (simp add: div_mult2_eq [symmetric])
  moreover have "p * 128 \<le> q \<and> q < p * 128 + 128 \<longleftrightarrow> q div 128 = p" for q :: nat
    by (auto simp: div_nat_eqI)
  ultimately show ?thesis by metis
qed

lemma bit1_test_clear_page [bitmap_simps]:
  "bit1_test (bit1_clear_page bits p) j \<longleftrightarrow> bit1_test bits j \<and> j div PAGE_SIZE_CELLS \<noteq> p"
proof -
  have "bit1_clear_page bits p = fill_range bits (p * 128) 128 0"
    by (simp add: bit1_clear_page_def PAGE_SIZE_CELLS_num Let_def mult.commute)
  then show ?thesis
    using page_word_range [of p j]
    by (auto simp: bit1_test_bit fill_range_def PAGE_SIZE_CELLS_num)
qed

interpretation mark_map: cell_bitmap bit1_test bit1_set bit1_clear_page
  by unfold_locales (simp_all only: bitmap_simps, simp add: bit1_test_bit)

section \<open>Start bits: two bits per cell\<close>

definition set_start_bit_at :: "bitmap \<Rightarrow> nat \<Rightarrow> bitmap" where
  "set_start_bit_at bits idx =
     (let w = idx div CELLS_PER_STARTS_WORD; b = (idx mod CELLS_PER_STARTS_WORD) * 2
      in bits(w := bits w OR push_bit b STARTS_PAIR_HEADER))"

definition set_cons_start_bit_at :: "bitmap \<Rightarrow> nat \<Rightarrow> bitmap" where
  "set_cons_start_bit_at bits idx =
     (let w = idx div CELLS_PER_STARTS_WORD; b = (idx mod CELLS_PER_STARTS_WORD) * 2
      in bits(w := bits w OR push_bit b STARTS_PAIR_CONS))"

definition is_start_at :: "bitmap \<Rightarrow> nat \<Rightarrow> bool" where
  "is_start_at bits idx =
     (let w = idx div CELLS_PER_STARTS_WORD; b = (idx mod CELLS_PER_STARTS_WORD) * 2
      in drop_bit b (bits w) AND 1 \<noteq> 0)"

definition is_cons_start_at :: "bitmap \<Rightarrow> nat \<Rightarrow> bool" where
  "is_cons_start_at bits idx =
     (let w = idx div CELLS_PER_STARTS_WORD; b = (idx mod CELLS_PER_STARTS_WORD) * 2;
          pair = drop_bit b (bits w) AND 3
      in pair = STARTS_PAIR_CONS)"

definition clear_page_start_bits :: "bitmap \<Rightarrow> nat \<Rightarrow> bitmap" where
  "clear_page_start_bits bits page_idx =
     (let first_word = page_idx * STARTS_WORDS_PER_PAGE
      in fill_range bits first_word STARTS_WORDS_PER_PAGE 0)"

text \<open>The two bits of a cell, the second of which only a cons start sets.\<close>

definition start_lo :: "bitmap \<Rightarrow> nat \<Rightarrow> bool" where
  "start_lo bits i \<longleftrightarrow> bit (bits (i div 32)) (2 * (i mod 32))"

definition start_hi :: "bitmap \<Rightarrow> nat \<Rightarrow> bool" where
  "start_hi bits i \<longleftrightarrow> bit (bits (i div 32)) (2 * (i mod 32) + 1)"

lemma is_start_lo: "is_start_at bits i \<longleftrightarrow> start_lo bits i"
  unfolding is_start_at_def start_lo_def Let_def CELLS_PER_STARTS_WORD_def drop_and_1
  by (simp only: mult.commute)

lemma and_3_eq_3: "drop_bit b w AND 3 = 3 \<longleftrightarrow> bit w b \<and> bit w (b + 1)" for w :: u64
proof -
  have n: "bit (drop_bit b w AND 3) n \<longleftrightarrow> n < 2 \<and> bit w (b + n)" for n
    unfolding three_eq_mask by (auto simp: bit_and_iff bit_drop_bit_eq bit_mask_iff)
  have m: "bit (3 :: u64) n \<longleftrightarrow> n < 2" for n
    unfolding three_eq_mask by (auto simp: bit_mask_iff)
  show ?thesis
  proof
    assume "drop_bit b w AND 3 = 3"
    then have "bit (drop_bit b w AND 3) n = bit (3 :: u64) n" for n by (simp only:)
    from this [of 0] this [of 1] show "bit w b \<and> bit w (b + 1)"
      unfolding n m by simp
  next
    assume "bit w b \<and> bit w (b + 1)"
    then have "n < 2 \<Longrightarrow> bit w (b + n)" for n by (auto simp: less_2_cases_iff)
    then show "drop_bit b w AND 3 = 3"
      by (intro bit_word_eqI) (auto simp only: n m)
  qed
qed

lemma is_cons_start_bits: "is_cons_start_at bits i \<longleftrightarrow> start_lo bits i \<and> start_hi bits i"
  by (simp add: is_cons_start_at_def start_lo_def start_hi_def Let_def CELLS_PER_STARTS_WORD_def
      STARTS_PAIR_CONS_def and_3_eq_3 mult.commute)

lemma cons_start_is_start: "is_cons_start_at bits i \<Longrightarrow> is_start_at bits i"
  by (simp add: is_cons_start_bits is_start_lo)

lemma div_mod_32_eq: "j = i \<longleftrightarrow> j div 32 = i div 32 \<and> j mod 32 = i mod 32" for i j :: nat
  by (metis div_mult_mod_eq)

text \<open>Or-ing a pair into the word of a cell, read back at any cell.\<close>

lemma or_bit_in_word:
  fixes bits :: bitmap
  assumes "c < 2"
  shows "bit ((bits(i div 32 := bits (i div 32) OR 2 ^ (2 * (i mod 32) + c))) (j div 32))
      (2 * (j mod 32) + d)
    \<longleftrightarrow> (j div 32 = i div 32 \<and> 2 * (j mod 32) + d = 2 * (i mod 32) + c) \<or> bit (bits (j div 32)) (2 * (j mod 32) + d)"
proof -
  have "2 * (i mod 32) + c < 64" using assms mod_less_divisor [of 32 i] by linarith
  then show ?thesis
    by (cases "j div 32 = i div 32") (simp_all add: bit_or_iff bit_two_power, blast)
qed

lemma set_header_word:
  "set_start_bit_at bits i = bits(i div 32 := bits (i div 32) OR 2 ^ (2 * (i mod 32) + 0))"
  by (simp add: set_start_bit_at_def Let_def CELLS_PER_STARTS_WORD_def STARTS_PAIR_HEADER_def
      mult.commute)

lemma push_bit_three: "push_bit n 3 = 2 ^ n OR (2 ^ (n + 1) :: u64)"
proof -
  have "(3 :: u64) = 1 OR 2" by simp
  then have "push_bit n 3 = push_bit n (1 OR 2 :: u64)" by (simp only:)
  also have "\<dots> = push_bit n 1 OR push_bit n 2" by (simp only: push_bit_or)
  finally show ?thesis by (simp add: push_bit_eq_mult mult.commute)
qed

lemma set_cons_word:
  "set_cons_start_bit_at bits i =
     (let b = bits(i div 32 := bits (i div 32) OR 2 ^ (2 * (i mod 32) + 0))
      in b(i div 32 := b (i div 32) OR 2 ^ (2 * (i mod 32) + 1)))"
  by (simp add: set_cons_start_bit_at_def Let_def CELLS_PER_STARTS_WORD_def STARTS_PAIR_CONS_def
      mult.commute push_bit_three or.assoc)

lemma pair_positions:
  "2 * a + 0 = 2 * b + 0 \<longleftrightarrow> a = b" "2 * a + 1 = 2 * b + 1 \<longleftrightarrow> a = b"
  "2 * a + 1 \<noteq> 2 * b + 0" "2 * a + 0 \<noteq> 2 * b + 1" for a b :: nat
  by presburger+

lemma less_two: "0 < (2 :: nat)" "1 < (2 :: nat)"
  by simp_all

lemma start_lo_hi:
  "start_lo bits i \<longleftrightarrow> bit (bits (i div 32)) (2 * (i mod 32) + 0)"
  "start_hi bits i \<longleftrightarrow> bit (bits (i div 32)) (2 * (i mod 32) + 1)"
  by (simp_all add: start_lo_def start_hi_def)

lemma start_bits_set_header:
  "start_lo (set_start_bit_at bits i) j \<longleftrightarrow> j = i \<or> start_lo bits j"
  "start_hi (set_start_bit_at bits i) j \<longleftrightarrow> start_hi bits j"
  unfolding start_lo_hi set_header_word div_mod_32_eq [of j i]
  by (simp_all only: or_bit_in_word pair_positions less_two simp_thms)

lemma start_bits_set_cons:
  "start_lo (set_cons_start_bit_at bits i) j \<longleftrightarrow> j = i \<or> start_lo bits j"
  "start_hi (set_cons_start_bit_at bits i) j \<longleftrightarrow> j = i \<or> start_hi bits j"
  unfolding start_lo_hi set_cons_word Let_def div_mod_32_eq [of j i]
  by (simp_all only: or_bit_in_word pair_positions less_two simp_thms)

lemma start_word_range:
  "p * 256 \<le> c div 32 \<and> c div 32 < p * 256 + 256 \<longleftrightarrow> c div 8192 = p" for c p :: nat
proof -
  have "c div 8192 = c div 32 div 256" by (simp add: div_mult2_eq [symmetric])
  moreover have "p * 256 \<le> q \<and> q < p * 256 + 256 \<longleftrightarrow> q div 256 = p" for q :: nat
    by (auto simp: div_nat_eqI)
  ultimately show ?thesis by metis
qed

lemma start_bits_clear_page:
  "start_lo (clear_page_start_bits bits p) j \<longleftrightarrow> start_lo bits j \<and> j div 8192 \<noteq> p"
  "start_hi (clear_page_start_bits bits p) j \<longleftrightarrow> start_hi bits j \<and> j div 8192 \<noteq> p"
proof -
  have "clear_page_start_bits bits p = fill_range bits (p * 256) 256 0"
    by (simp add: clear_page_start_bits_def STARTS_WORDS_PER_PAGE_def PAGE_SIZE_CELLS_num
        CELLS_PER_STARTS_WORD_def Let_def)
  then show "start_lo (clear_page_start_bits bits p) j \<longleftrightarrow> start_lo bits j \<and> j div 8192 \<noteq> p"
    "start_hi (clear_page_start_bits bits p) j \<longleftrightarrow> start_hi bits j \<and> j div 8192 \<noteq> p"
    using start_word_range [of p j]
    by (auto simp: start_lo_def start_hi_def fill_range_def)
qed

lemma is_start_set [bitmap_simps]:
  "is_start_at (set_start_bit_at bits i) j \<longleftrightarrow> j = i \<or> is_start_at bits j"
  "is_start_at (set_cons_start_bit_at bits i) j \<longleftrightarrow> j = i \<or> is_start_at bits j"
  "is_start_at (clear_page_start_bits bits p) j
     \<longleftrightarrow> is_start_at bits j \<and> j div PAGE_SIZE_CELLS \<noteq> p"
  by (simp_all add: is_start_lo start_bits_set_header start_bits_set_cons start_bits_clear_page
      PAGE_SIZE_CELLS_num)

lemma is_cons_start_set [bitmap_simps]:
  "is_cons_start_at (set_cons_start_bit_at bits i) j \<longleftrightarrow> j = i \<or> is_cons_start_at bits j"
  "is_cons_start_at (clear_page_start_bits bits p) j
     \<longleftrightarrow> is_cons_start_at bits j \<and> j div PAGE_SIZE_CELLS \<noteq> p"
  by (auto simp: is_cons_start_bits start_bits_set_cons start_bits_clear_page PAGE_SIZE_CELLS_num)

lemma is_cons_start_set_header [bitmap_simps]:
  "is_cons_start_at (set_start_bit_at bits i) j
     \<longleftrightarrow> is_cons_start_at bits j \<or> (j = i \<and> start_hi bits i)"
  by (auto simp: is_cons_start_bits start_bits_set_header)

lemma start_empty [bitmap_simps]:
  "\<not> start_lo (\<lambda>_. 0) j" "\<not> start_hi (\<lambda>_. 0) j" "\<not> is_start_at (\<lambda>_. 0) j" "\<not> is_cons_start_at (\<lambda>_. 0) j"
  by (simp_all add: start_lo_def start_hi_def is_start_lo is_cons_start_bits)

interpretation start_map: cell_bitmap is_start_at set_start_bit_at clear_page_start_bits
  by unfold_locales (simp_all add: bitmap_simps)

interpretation cons_map: cell_bitmap is_cons_start_at set_cons_start_bit_at clear_page_start_bits
  by unfold_locales (simp_all add: bitmap_simps)

text \<open>
  The second bit of a pair is only set together with the first: the invariant of the packed
  representation, under which a pair is one of three.
\<close>

definition tidy :: "bitmap \<Rightarrow> bool" where
  "tidy bits \<longleftrightarrow> (\<forall>c. start_hi bits c \<longrightarrow> start_lo bits c)"

lemma tidy_intros [intro]:
  "tidy b \<Longrightarrow> tidy (set_start_bit_at b c)" "tidy b \<Longrightarrow> tidy (set_cons_start_bit_at b c)"
  "tidy b \<Longrightarrow> tidy (clear_page_start_bits b p)" "tidy (\<lambda>_. 0)"
  by (simp_all add: tidy_def start_bits_set_header start_bits_set_cons start_bits_clear_page start_empty)

datatype start_kind = No_Start | Header_Start | Cons_Start

definition start_kind_at :: "bitmap \<Rightarrow> nat \<Rightarrow> start_kind" where
  "start_kind_at bits i =
     (if is_cons_start_at bits i then Cons_Start else if is_start_at bits i then Header_Start else No_Start)"

lemma start_kind_bits:
  "start_kind_at bits i = (if \<not> start_lo bits i then No_Start else if start_hi bits i then Cons_Start else Header_Start)"
  by (simp add: start_kind_at_def is_cons_start_bits is_start_lo)

lemma tidy_start_kind: "tidy bits \<Longrightarrow> start_hi bits i \<longleftrightarrow> start_kind_at bits i = Cons_Start"
  by (auto simp: tidy_def start_kind_bits)

lemma set_cons_kind: "start_kind_at (set_cons_start_bit_at bits i) = (start_kind_at bits)(i := Cons_Start)"
  by (rule ext) (simp add: start_kind_bits start_bits_set_cons)

lemma set_header_kind:
  "tidy bits \<Longrightarrow> start_kind_at (set_start_bit_at bits i) =
     (start_kind_at bits)(i := if start_kind_at bits i = Cons_Start then Cons_Start else Header_Start)"
  using tidy_start_kind [of bits i] by (intro ext) (simp add: start_kind_bits start_bits_set_header)

lemma clear_page_kind:
  "start_kind_at (clear_page_start_bits bits p) =
     (\<lambda>j. if j div PAGE_SIZE_CELLS = p then No_Start else start_kind_at bits j)"
  by (rule ext) (simp add: start_kind_bits start_bits_clear_page PAGE_SIZE_CELLS_num)

lemma start_kind_tests:
  "is_start_at bits j = (start_kind_at bits j \<noteq> No_Start)"
  "is_cons_start_at bits j = (start_kind_at bits j = Cons_Start)"
  by (auto simp: start_kind_at_def dest: cons_start_is_start)

text \<open>
  C40. The start bitmap refines a map from cells to \<open>No_Start\<close>, \<open>Header_Start\<close>, \<open>Cons_Start\<close>. On a
  bitmap whose pairs are well-formed the two tests read that map; marking a cell as a cons start
  updates the map at that cell and nowhere else; marking it as a header start does so too, except
  that a cons start stays one (the bits are or-ed in); clearing a page erases the starts of that
  page's 8192 cells and of no other cell; and all three keep the pairs well-formed.
\<close>

theorem start_bitmap_is_a_map:
  assumes "tidy bits"
  shows "start_kind_at (set_cons_start_bit_at bits i) = (start_kind_at bits)(i := Cons_Start) \<and>
    start_kind_at (set_start_bit_at bits i) =
      (start_kind_at bits)(i := if start_kind_at bits i = Cons_Start then Cons_Start else Header_Start) \<and>
    start_kind_at (clear_page_start_bits bits p) =
      (\<lambda>j. if j div PAGE_SIZE_CELLS = p then No_Start else start_kind_at bits j) \<and>
    is_start_at bits j = (start_kind_at bits j \<noteq> No_Start) \<and>
    is_cons_start_at bits j = (start_kind_at bits j = Cons_Start) \<and>
    tidy (set_cons_start_bit_at bits i) \<and> tidy (set_start_bit_at bits i) \<and> tidy (clear_page_start_bits bits p)"
  using set_cons_kind [of bits i] set_header_kind [OF assms, of i] clear_page_kind [of bits p]
    start_kind_tests [of bits j] assms by (auto intro: tidy_intros)

theorem start_bitmap_is_a_map_witness:
  "(let bits = set_cons_start_bit_at (\<lambda>_. 0) 6 in
     start_kind_at (set_start_bit_at bits 5) 5 = Header_Start \<and>
     start_kind_at (set_start_bit_at bits 5) 6 = Cons_Start \<and> start_kind_at (set_start_bit_at bits 5) 7 = No_Start \<and>
     start_kind_at (set_start_bit_at bits 6) 6 = Cons_Start)"
proof -
  have t: "tidy (set_cons_start_bit_at (\<lambda>_. 0) 6)" by blast
  have z: "start_kind_at (\<lambda>_. 0) j = No_Start" for j by (simp add: start_kind_bits start_empty)
  have "start_kind_at (set_start_bit_at (set_cons_start_bit_at (\<lambda>_. 0) 6) i) =
      (start_kind_at (set_cons_start_bit_at (\<lambda>_. 0) 6))
        (i := if start_kind_at (set_cons_start_bit_at (\<lambda>_. 0) 6) i = Cons_Start then Cons_Start else Header_Start)" for i
    using start_bitmap_is_a_map [OF t, of i 0 0] by (elim conjE)
  then show ?thesis unfolding Let_def by (simp add: set_cons_kind z)
qed

end
