(* ===== verification/Page_Desc.thy ===== *)
theory Page_Desc
  imports GC_Prelude
begin

text \<open>
  The per-page metadata of \<^verbatim>\<open>page_heap/page_desc.rs\<close>: generations, page kinds and the
  descriptor record with its fields at their widths, with every constructor and accessor.
\<close>

section \<open>Generations and kinds\<close>

datatype generation = Gen_Free | G0 | G1 | Tenured

fun generation_code :: "generation \<Rightarrow> u8" where
  "generation_code Gen_Free = 0"
| "generation_code G0 = 1"
| "generation_code G1 = 2"
| "generation_code Tenured = 3"

definition generation_from_u8 :: "u8 \<Rightarrow> generation option" where
  "generation_from_u8 b =
     (if b = 0 then Some Gen_Free
      else if b = 1 then Some G0
      else if b = 2 then Some G1
      else if b = 3 then Some Tenured
      else None)"

fun promoted :: "generation \<Rightarrow> generation" where
  "promoted Gen_Free = Gen_Free"
| "promoted G0 = G1"
| "promoted G1 = Tenured"
| "promoted Tenured = Tenured"

fun generation_name :: "generation \<Rightarrow> string" where
  "generation_name Gen_Free = ''free''"
| "generation_name G0 = ''g0''"
| "generation_name G1 = ''g1''"
| "generation_name Tenured = ''tenured''"

datatype page_kind = Kind_Free | Kind_Cons | Kind_Boxed | Kind_Large

fun page_kind_code :: "page_kind \<Rightarrow> u8" where
  "page_kind_code Kind_Free = 0"
| "page_kind_code Kind_Cons = 1"
| "page_kind_code Kind_Boxed = 2"
| "page_kind_code Kind_Large = 3"

definition page_kind_from_u8 :: "u8 \<Rightarrow> page_kind option" where
  "page_kind_from_u8 b =
     (if b = 0 then Some Kind_Free
      else if b = 1 then Some Kind_Cons
      else if b = 2 then Some Kind_Boxed
      else if b = 3 then Some Kind_Large
      else None)"

fun page_kind_name :: "page_kind \<Rightarrow> string" where
  "page_kind_name Kind_Free = ''free''"
| "page_kind_name Kind_Cons = ''cons''"
| "page_kind_name Kind_Boxed = ''boxed''"
| "page_kind_name Kind_Large = ''large''"

section \<open>Descriptors\<close>

record page_desc =
  scan_start_offset :: u32
  words_used :: u16
  pgen :: generation
  kind :: page_kind
  pin_byte :: u8
  age :: u8
  n_span :: u16
  zeroed :: bool

definition desc_FREE :: page_desc where
  "desc_FREE = \<lparr>scan_start_offset = 0, words_used = 0, pgen = Gen_Free, kind = Kind_Free,
     pin_byte = 0, age = 0, n_span = 0, zeroed = False\<rparr>"

definition desc_fresh :: "generation \<Rightarrow> page_kind \<Rightarrow> page_desc" where
  "desc_fresh g k = \<lparr>scan_start_offset = 0, words_used = 0, pgen = g, kind = k,
     pin_byte = 0, age = 0,
     n_span = (case k of Kind_Cons \<Rightarrow> 1 | Kind_Boxed \<Rightarrow> 1 | _ \<Rightarrow> 0), zeroed = False\<rparr>"

definition desc_release :: "page_desc \<Rightarrow> page_desc" where
  "desc_release d = desc_FREE"

definition desc_release_zeroed :: "page_desc \<Rightarrow> page_desc" where
  "desc_release_zeroed d = desc_FREE\<lparr>zeroed := True\<rparr>"

definition has_pins :: "page_desc \<Rightarrow> bool" where
  "has_pins d \<longleftrightarrow> pin_byte d \<noteq> 0"

definition set_pin :: "page_desc \<Rightarrow> nat \<Rightarrow> page_desc" where
  "set_pin d slot = d\<lparr>pin_byte := pin_byte d OR push_bit slot 1\<rparr>"

definition clear_pins :: "page_desc \<Rightarrow> page_desc" where
  "clear_pins d = d\<lparr>pin_byte := 0\<rparr>"

definition is_pinned :: "page_desc \<Rightarrow> nat \<Rightarrow> bool" where
  "is_pinned d slot \<longleftrightarrow> pin_byte d AND push_bit slot 1 \<noteq> 0"

definition is_large_head :: "page_desc \<Rightarrow> bool" where
  "is_large_head d \<longleftrightarrow> kind d = Kind_Large \<and> 1 \<le> n_span d"

definition is_large_cont :: "page_desc \<Rightarrow> bool" where
  "is_large_cont d \<longleftrightarrow> kind d = Kind_Large \<and> n_span d = 0"

lemma desc_fresh_sel [simp]:
  "pgen (desc_fresh g k) = g" "kind (desc_fresh g k) = k" "words_used (desc_fresh g k) = 0"
  "pin_byte (desc_fresh g k) = 0" "zeroed (desc_fresh g k) = False"
  by (simp_all add: desc_fresh_def)

lemma desc_FREE_sel [simp]:
  "pgen desc_FREE = Gen_Free" "kind desc_FREE = Kind_Free" "words_used desc_FREE = 0"
  "pin_byte desc_FREE = 0" "zeroed desc_FREE = False" "n_span desc_FREE = 0"
  by (simp_all add: desc_FREE_def)

lemma desc_release_sel [simp]:
  "pgen (desc_release d) = Gen_Free" "pgen (desc_release_zeroed d) = Gen_Free"
  "kind (desc_release d) = Kind_Free" "kind (desc_release_zeroed d) = Kind_Free"
  "words_used (desc_release d) = 0" "words_used (desc_release_zeroed d) = 0"
  "pin_byte (desc_release d) = 0" "pin_byte (desc_release_zeroed d) = 0"
  by (simp_all add: desc_release_def desc_release_zeroed_def)

lemma set_pin_sel [simp]:
  "pgen (set_pin d s) = pgen d" "kind (set_pin d s) = kind d" "words_used (set_pin d s) = words_used d"
  "n_span (set_pin d s) = n_span d" "zeroed (set_pin d s) = zeroed d"
  by (simp_all add: set_pin_def)

lemma clear_pins_sel [simp]:
  "pgen (clear_pins d) = pgen d" "kind (clear_pins d) = kind d"
  "words_used (clear_pins d) = words_used d" "n_span (clear_pins d) = n_span d"
  "zeroed (clear_pins d) = zeroed d" "pin_byte (clear_pins d) = 0"
  by (simp_all add: clear_pins_def)

section \<open>Pin slots\<close>

lemma is_pinned_bit: "is_pinned d s \<longleftrightarrow> bit (pin_byte d) s"
  by (simp only: is_pinned_def and_push_bit_one)

lemma is_pinned_set_pin [bitmap_simps]:
  "is_pinned (set_pin d s) t \<longleftrightarrow> is_pinned d t \<or> (t = s \<and> s < 8)"
  by (auto simp: is_pinned_bit set_pin_def bit_simps)

lemma is_pinned_clear_pins [bitmap_simps]: "\<not> is_pinned (clear_pins d) s"
  by (simp add: is_pinned_bit clear_pins_def)

lemma is_pinned_fresh [bitmap_simps]: "\<not> is_pinned (desc_fresh g k) s"
  by (simp add: is_pinned_bit)

lemma has_pins_iff: "has_pins d \<longleftrightarrow> (\<exists>s < 8. is_pinned d s)"
proof
  assume "has_pins d"
  then have "\<not> (\<forall>s < 8. bit (pin_byte d) s = bit (0 :: u8) s)"
    using bit_word_eqI [of "pin_byte d" 0] by (auto simp: has_pins_def)
  then show "\<exists>s < 8. is_pinned d s" by (auto simp: is_pinned_bit)
next
  assume "\<exists>s < 8. is_pinned d s"
  then show "has_pins d" by (auto simp: is_pinned_bit has_pins_def)
qed

lemma has_pins_set_pin [bitmap_simps]: "s < 8 \<Longrightarrow> has_pins (set_pin d s)"
  by (auto simp: has_pins_iff is_pinned_set_pin)

text \<open>
  The generation and kind bytes of the page table decode to what was stored, every other
  byte is reported as corruption, and promotion is monotone and stops at \<open>Tenured\<close>.
\<close>

theorem page_table_bytes:
  "generation_from_u8 (generation_code g) = Some g \<and>
   page_kind_from_u8 (page_kind_code k) = Some k \<and>
   (generation_from_u8 b = None \<longleftrightarrow> 3 < b) \<and> (page_kind_from_u8 b = None \<longleftrightarrow> 3 < b) \<and>
   generation_code g \<le> generation_code (promoted g) \<and>
   (promoted g = g \<longleftrightarrow> g = Gen_Free \<or> g = Tenured) \<and>
   promoted (promoted (promoted g)) = promoted (promoted g)"
proof -
  have "b \<in> {0, 1, 2, 3} \<longleftrightarrow> \<not> 3 < b"
  proof
    assume "\<not> 3 < b"
    then have "unat b \<in> {0, 1, 2, 3}" by (auto simp: word_less_nat_alt)
    then have "word_of_nat (unat b) \<in> (word_of_nat ` {0, 1, 2, 3} :: u8 set)" by blast
    then show "b \<in> {0, 1, 2, 3}" by simp
  qed auto
  then show ?thesis
    by (cases g; cases k) (auto simp: generation_from_u8_def page_kind_from_u8_def)
qed

end
