(* ===== verification/Tagged_Word.thy ===== *)
theory Tagged_Word
  imports GC_Prelude
begin

text \<open>
  The 64-bit tagged value of \<^verbatim>\<open>crates/newgc-core/src/word.rs\<close>: three tag bits,
  61-bit fixnums, immediates with a five-bit sub-tag, tagged pointers and forwarding
  markers. Every constructor and accessor is translated at width 64; the lemmas are the
  round trips between them and the disjointness of the encodings. \<open>debug_assert!\<close> is not
  compiled into a release build, so the constructors are the release ones and the asserted
  conditions are hypotheses of the round trips.
\<close>

section \<open>Tags\<close>

definition TAG_BITS :: nat where "TAG_BITS = 3"
definition TAG_MASK :: u64 where "TAG_MASK = 7"
definition PAYLOAD_MASK :: u64 where "PAYLOAD_MASK = NOT TAG_MASK"
definition FIXNUM_MIN :: int where "FIXNUM_MIN = - (2 ^ 60)"
definition FIXNUM_MAX :: int where "FIXNUM_MAX = 2 ^ 60 - 1"

datatype tag = Tag_Fixnum | Tag_Cons | Tag_Symbol | Tag_Vector | Tag_Function
  | Tag_String | Tag_Immediate | Tag_Forward

text \<open>The discriminant of a tag (\<open>tag as u64\<close>).\<close>

fun tag_code :: "tag \<Rightarrow> u64" where
  "tag_code Tag_Fixnum = 0"
| "tag_code Tag_Cons = 1"
| "tag_code Tag_Symbol = 2"
| "tag_code Tag_Vector = 3"
| "tag_code Tag_Function = 4"
| "tag_code Tag_String = 5"
| "tag_code Tag_Immediate = 6"
| "tag_code Tag_Forward = 7"

definition tag_from_bits :: "u64 \<Rightarrow> tag" where
  "tag_from_bits bits =
     (let b = bits AND TAG_MASK in
      if b = 0 then Tag_Fixnum
      else if b = 1 then Tag_Cons
      else if b = 2 then Tag_Symbol
      else if b = 3 then Tag_Vector
      else if b = 4 then Tag_Function
      else if b = 5 then Tag_String
      else if b = 6 then Tag_Immediate
      else Tag_Forward)"

text \<open>\<open>tag_from_bits\<close> has an \<open>unreachable!()\<close> arm: three masked bits are below 8.\<close>

lemma tag_code_mask [simp]: "tag_code t AND TAG_MASK = tag_code t"
  by (cases t) (simp_all add: TAG_MASK_def)

lemma and7_cases:
  "b AND 7 \<in> {0, 1, 2, 3, 4, 5, 6, 7}" for b :: u64
proof -
  have "unat (b AND 7) \<le> unat (7 :: u64)"
    by (rule word_le_nat_alt [THEN iffD1]) (rule word_and_le1)
  then have "unat (b AND 7) \<in> {0, 1, 2, 3, 4, 5, 6, 7}" by auto
  then have "word_of_nat (unat (b AND 7)) \<in> (word_of_nat ` {0, 1, 2, 3, 4, 5, 6, 7} :: u64 set)"
    by blast
  then show ?thesis by simp
qed

lemma tag_code_from_bits: "tag_code (tag_from_bits b) = b AND TAG_MASK"
  using and7_cases [of b] by (auto simp: tag_from_bits_def TAG_MASK_def Let_def)

lemma tag_code_inj: "tag_code s = tag_code t \<longleftrightarrow> s = t"
  by (cases s; cases t) simp_all

lemma tag_from_bits_eq_iff: "tag_from_bits b = t \<longleftrightarrow> b AND TAG_MASK = tag_code t"
  by (metis tag_code_from_bits tag_code_inj)

lemma tag_from_bits_code [simp]: "tag_from_bits (tag_code t) = t"
  by (simp add: tag_from_bits_eq_iff)

lemma tag_from_bits_or:
  "p AND TAG_MASK = 0 \<Longrightarrow> tag_from_bits (p OR tag_code t) = t"
  by (simp add: tag_from_bits_eq_iff or_tag_and_mask)

lemma payload_or_tag:
  "p AND TAG_MASK = 0 \<Longrightarrow> (p OR tag_code t) AND PAYLOAD_MASK = p"
  unfolding PAYLOAD_MASK_def by (rule or_tag_and_not_mask) simp_all

lemma payload_aligned [simp]: "(w AND PAYLOAD_MASK) AND TAG_MASK = 0"
  by (simp add: PAYLOAD_MASK_def)

section \<open>Immediates\<close>

definition SUBTAG_BITS :: nat where "SUBTAG_BITS = 5"
definition SUBTAG_T :: u64 where "SUBTAG_T = 0"
definition SUBTAG_CHAR :: u64 where "SUBTAG_CHAR = 1"
definition SUBTAG_UNBOUND :: u64 where "SUBTAG_UNBOUND = 2"
definition SUBTAG_NIL :: u64 where "SUBTAG_NIL = 3"

definition immediate :: "u64 \<Rightarrow> u64 \<Rightarrow> u64" where
  "immediate subtag payload =
     (push_bit (TAG_BITS + SUBTAG_BITS) payload OR push_bit TAG_BITS subtag)
       OR tag_code Tag_Immediate"

definition word_NIL :: u64 where "word_NIL = immediate SUBTAG_NIL 0"
definition word_T :: u64 where "word_T = immediate SUBTAG_T 0"
definition word_UNBOUND :: u64 where "word_UNBOUND = immediate SUBTAG_UNBOUND 0"

text \<open>\<open>Word::char\<close>: a \<open>char\<close> is a Unicode scalar value, given by its code point.\<close>

definition is_unicode_scalar :: "u32 \<Rightarrow> bool" where
  "is_unicode_scalar c \<longleftrightarrow> unat c < 0xD800 \<or> (0xE000 \<le> unat c \<and> unat c \<le> 0x10FFFF)"

definition char_from_u32 :: "u32 \<Rightarrow> u32 option" where
  "char_from_u32 c = (if is_unicode_scalar c then Some c else None)"

definition word_char :: "u32 \<Rightarrow> u64" where
  "word_char c = immediate SUBTAG_CHAR (ucast c)"

definition as_char :: "u64 \<Rightarrow> u32 option" where
  "as_char w =
     (if w AND (push_bit (TAG_BITS + SUBTAG_BITS) 1 - 1)
           = tag_code Tag_Immediate OR push_bit TAG_BITS SUBTAG_CHAR
      then char_from_u32 (ucast (drop_bit (TAG_BITS + SUBTAG_BITS) w))
      else None)"

section \<open>Fixnums\<close>

definition fixnum :: "i64 \<Rightarrow> u64" where
  "fixnum n = push_bit TAG_BITS n"

definition try_fixnum :: "i64 \<Rightarrow> u64 option" where
  "try_fixnum n =
     (if FIXNUM_MIN \<le> sint n \<and> sint n \<le> FIXNUM_MAX then Some (push_bit TAG_BITS n) else None)"

definition word_tag :: "u64 \<Rightarrow> tag" where
  "word_tag w = tag_from_bits w"

definition is_nil :: "u64 \<Rightarrow> bool" where "is_nil w \<longleftrightarrow> w = word_NIL"
definition is_t :: "u64 \<Rightarrow> bool" where "is_t w \<longleftrightarrow> w = word_T"
definition is_unbound :: "u64 \<Rightarrow> bool" where "is_unbound w \<longleftrightarrow> w = word_UNBOUND"
definition is_fixnum :: "u64 \<Rightarrow> bool" where "is_fixnum w \<longleftrightarrow> word_tag w = Tag_Fixnum"
definition is_cons :: "u64 \<Rightarrow> bool" where "is_cons w \<longleftrightarrow> word_tag w = Tag_Cons"
definition is_symbol :: "u64 \<Rightarrow> bool" where "is_symbol w \<longleftrightarrow> word_tag w = Tag_Symbol"
definition is_forward :: "u64 \<Rightarrow> bool" where "is_forward w \<longleftrightarrow> word_tag w = Tag_Forward"
definition is_immediate :: "u64 \<Rightarrow> bool" where "is_immediate w \<longleftrightarrow> word_tag w = Tag_Immediate"

definition as_fixnum :: "u64 \<Rightarrow> i64 option" where
  "as_fixnum w = (if is_fixnum w then Some (signed_drop_bit TAG_BITS w) else None)"

section \<open>Pointers and forwarding markers\<close>

definition word_from_ptr :: "u64 \<Rightarrow> tag \<Rightarrow> u64" where
  "word_from_ptr p t = p OR tag_code t"

definition word_forward :: "u64 \<Rightarrow> u64" where
  "word_forward new_addr = new_addr OR tag_code Tag_Forward"

definition as_ptr :: "u64 \<Rightarrow> tag \<Rightarrow> u64 option" where
  "as_ptr w expected = (if word_tag w = expected then Some (w AND PAYLOAD_MASK) else None)"

definition forward_target :: "u64 \<Rightarrow> u64 option" where
  "forward_target w = (if is_forward w then Some (w AND PAYLOAD_MASK) else None)"

section \<open>Round trips\<close>

lemma sint_push_bit_fixnum:
  assumes "FIXNUM_MIN \<le> sint n" "sint n \<le> FIXNUM_MAX"
  shows "sint (push_bit 3 n :: i64) = 8 * sint n"
proof -
  have "sint (push_bit 3 n :: i64) = signed_take_bit 63 (push_bit 3 (sint n))"
    by (simp add: signed_push_bit_eq)
  also have "\<dots> = push_bit 3 (sint n)"
    using assms by (intro signed_take_bit_int_eq_self) (simp_all add: FIXNUM_MIN_def FIXNUM_MAX_def push_bit_eq_mult)
  finally show ?thesis by (simp add: push_bit_eq_mult)
qed

lemma fixnum_tag [simp]: "word_tag (push_bit TAG_BITS n) = Tag_Fixnum"
proof -
  have "push_bit 3 n AND 7 = (0 :: u64)"
    unfolding seven_eq_mask by (rule bit_word_eqI) (auto simp: bit_simps)
  then show ?thesis
    by (simp add: word_tag_def tag_from_bits_eq_iff TAG_BITS_def TAG_MASK_def)
qed

lemma as_fixnum_push:
  assumes "FIXNUM_MIN \<le> sint n" "sint n \<le> FIXNUM_MAX"
  shows "as_fixnum (push_bit TAG_BITS n) = Some n"
proof -
  have "sint (signed_drop_bit 3 (push_bit 3 n) :: i64) = drop_bit 3 (8 * sint n)"
    using sint_push_bit_fixnum [OF assms] by (simp add: sint_signed_drop_bit_eq)
  also have "\<dots> = sint n" by (simp add: drop_bit_eq_div)
  finally have "signed_drop_bit 3 (push_bit 3 n) = n"
    by (simp only: signed_word_eqI)
  then show ?thesis by (simp add: as_fixnum_def is_fixnum_def) (simp add: TAG_BITS_def)
qed

lemma fixnum_push_drop:
  assumes "w AND TAG_MASK = 0"
  shows "push_bit 3 (signed_drop_bit 3 w) = w"
proof (rule bit_word_eqI)
  fix i assume i: "i < LENGTH(64)"
  have "bit (w AND mask 3) i = bit (0 :: u64) i"
    using assms by (simp add: TAG_MASK_def seven_eq_mask)
  with i show "bit (push_bit 3 (signed_drop_bit 3 w)) i = bit w i"
    by (auto simp: bit_simps)
qed

lemma as_fixnum_range:
  assumes "as_fixnum w = Some n"
  shows "FIXNUM_MIN \<le> sint n" "sint n \<le> FIXNUM_MAX"
proof -
  have n: "n = signed_drop_bit 3 w"
    using assms by (simp add: as_fixnum_def TAG_BITS_def split: if_splits)
  have "sint n = sint w div 8"
    by (simp add: n sint_signed_drop_bit_eq drop_bit_eq_div)
  moreover have "- (2 ^ 63) \<le> sint w" "sint w < 2 ^ 63"
    using sint_ge [of w] sint_lt [of w] by simp_all
  ultimately show "FIXNUM_MIN \<le> sint n" "sint n \<le> FIXNUM_MAX"
    by (simp_all add: FIXNUM_MIN_def FIXNUM_MAX_def)
qed

lemma as_fixnum_push_inverse: "as_fixnum w = Some n \<Longrightarrow> push_bit 3 n = w"
  using fixnum_push_drop [of w]
  by (auto simp: as_fixnum_def is_fixnum_def word_tag_def tag_from_bits_eq_iff TAG_BITS_def
      split: if_splits)

text \<open>
  C37. A 61-bit signed integer and a fixnum word determine each other: \<open>try_fixnum n\<close> is
  \<open>Some w\<close> exactly when \<open>as_fixnum w\<close> is \<open>Some n\<close>. So encoding loses nothing, refuses
  exactly what does not fit, and every fixnum-tagged word decodes to an encodable integer.
\<close>

theorem fixnum_bijection: "try_fixnum n = Some w \<longleftrightarrow> as_fixnum w = Some n"
proof
  assume "try_fixnum n = Some w"
  then show "as_fixnum w = Some n"
    by (auto simp: try_fixnum_def as_fixnum_push split: if_splits)
next
  assume a: "as_fixnum w = Some n"
  then show "try_fixnum n = Some w"
    using as_fixnum_range [OF a] as_fixnum_push_inverse [OF a]
    by (simp add: try_fixnum_def TAG_BITS_def)
qed

lemma as_ptr_from_ptr:
  "p AND TAG_MASK = 0 \<Longrightarrow>
   as_ptr (word_from_ptr p t) e = (if e = t then Some p else None)"
  by (auto simp: as_ptr_def word_from_ptr_def word_tag_def tag_from_bits_or payload_or_tag)

lemma forward_target_forward:
  "p AND TAG_MASK = 0 \<Longrightarrow> forward_target (word_forward p) = Some p"
  using tag_from_bits_or [of p Tag_Forward] payload_or_tag [of p Tag_Forward]
  by (simp add: forward_target_def word_forward_def is_forward_def word_tag_def)

lemma forward_target_from_ptr:
  "p AND TAG_MASK = 0 \<Longrightarrow> t \<noteq> Tag_Forward \<Longrightarrow> forward_target (word_from_ptr p t) = None"
  by (simp add: forward_target_def word_from_ptr_def is_forward_def word_tag_def tag_from_bits_or)

text \<open>
  C36. For an 8-byte aligned address the tagged pointer gives back the address under its own
  tag and under no other, and it reads as a forwarding marker exactly when it was made as
  one: a slot is never both a live pointer and a forward.
\<close>

theorem pointer_roundtrip:
  assumes "p AND TAG_MASK = 0"
  shows "as_ptr (word_from_ptr p t) e = (if e = t then Some p else None) \<and>
    forward_target (word_forward p) = Some p \<and>
    forward_target (word_from_ptr p t) = (if t = Tag_Forward then Some p else None)"
proof -
  have "word_from_ptr p Tag_Forward = word_forward p"
    by (simp add: word_from_ptr_def word_forward_def)
  with assms show ?thesis
    by (simp add: as_ptr_from_ptr forward_target_forward forward_target_from_ptr)
qed

theorem pointer_roundtrip_witness:
  "as_ptr (word_from_ptr 4096 Tag_Cons) Tag_Cons = Some 4096 \<and>
   as_ptr (word_from_ptr 4096 Tag_Cons) Tag_Vector = None \<and>
   forward_target (word_forward 4096) = Some 4096 \<and>
   forward_target (word_from_ptr 4096 Tag_Cons) = None"
proof -
  have a: "(4096 :: u64) AND TAG_MASK = 0" by (simp add: TAG_MASK_def)
  show ?thesis
    using pointer_roundtrip [OF a, of Tag_Cons Tag_Cons] pointer_roundtrip [OF a, of Tag_Cons Tag_Vector]
    by simp
qed

section \<open>Immediates are not pointers\<close>

lemma word_NIL_code: "word_NIL = 30" and word_T_code: "word_T = 6"
  and word_UNBOUND_code: "word_UNBOUND = 22"
  by (simp_all add: word_NIL_def word_T_def word_UNBOUND_def immediate_def SUBTAG_NIL_def
      SUBTAG_T_def SUBTAG_UNBOUND_def TAG_BITS_def SUBTAG_BITS_def)

lemma immediate_char_bits:
  "word_char c = push_bit 8 (ucast c) OR 14"
  by (simp add: word_char_def immediate_def SUBTAG_CHAR_def TAG_BITS_def SUBTAG_BITS_def
      or.assoc)

lemma char_mask: "word_char c AND mask 8 = 14"
proof -
  have "push_bit 8 (ucast c) AND mask 8 = (0 :: u64)"
    by (rule bit_word_eqI) (auto simp: bit_simps)
  then show ?thesis
    by (simp add: immediate_char_bits bit.conj_disj_distrib2 mask_eq_exp_minus_1)
qed

lemma char_payload: "ucast (drop_bit 8 (word_char c)) = c"
  unfolding immediate_char_bits
proof (rule bit_word_eqI)
  fix n assume "n < LENGTH(32)"
  moreover have "drop_bit 8 (14 :: u64) = 0" by simp
  ultimately show "bit (ucast (drop_bit 8 (push_bit 8 (ucast c) OR 14 :: u64)) :: u32) n = bit c n"
    by (auto simp: bit_simps drop_bit_or)
qed

text \<open>
  A character literal decodes to the same code point, for exactly the Unicode scalar
  values, and no character, \<open>nil\<close>, \<open>t\<close> or unbound marker is mistaken for another: the
  three constants are the immediates 30, 6 and 22, none of them the fixnum 0.
\<close>

theorem immediate_encodings:
  "as_char (word_char c) = (if is_unicode_scalar c then Some c else None) \<and>
   as_char word_NIL = None \<and> as_char word_T = None \<and> as_char word_UNBOUND = None \<and>
   word_NIL = 30 \<and> word_T = 6 \<and> word_UNBOUND = 22 \<and> fixnum 0 \<noteq> word_NIL"
proof -
  have ac: "as_char w = (if w AND mask 8 = 14 then char_from_u32 (ucast (drop_bit 8 w)) else None)" for w
    by (simp add: as_char_def TAG_BITS_def SUBTAG_BITS_def SUBTAG_CHAR_def mask_eq_exp_minus_1)
  have "as_char (word_char c) = (if is_unicode_scalar c then Some c else None)"
    unfolding ac char_mask by (simp add: char_payload char_from_u32_def)
  moreover have "as_char 30 = None" "as_char 6 = None" "as_char 22 = None"
    unfolding ac by (simp_all add: mask_eq_exp_minus_1)
  ultimately show ?thesis
    by (simp add: word_NIL_code word_T_code word_UNBOUND_code fixnum_def)
qed

end
