(* ===== verification/Heap_Common.thy ===== *)
theory Heap_Common
  imports GC_Prelude
begin

text \<open>
  The scaffolding of \<^verbatim>\<open>crates/newgc-core/src/heap_common.rs\<close>: the soft card table of the
  write barrier, and the one-word object header (type, length, collector bits) with its
  bit fields at their widths.
\<close>

section \<open>Card table\<close>

definition CARD_SIZE_BYTES :: nat where "CARD_SIZE_BYTES = 512"
definition CARD_SIZE_CELLS :: nat where "CARD_SIZE_CELLS = CARD_SIZE_BYTES div 8"

text \<open>
  \<open>bytes: Box<[AtomicU8]>\<close> has a fixed length and one byte per card; accesses go through
  \<open>get\<close>, so an index out of range reads as clean and writes nothing.
\<close>

record card_table =
  n_cards :: nat
  card_byte :: "nat \<Rightarrow> u8"

definition card_table_new :: "nat \<Rightarrow> card_table" where
  "card_table_new coverage_bytes =
     \<lparr>n_cards = div_ceil coverage_bytes CARD_SIZE_BYTES, card_byte = (\<lambda>_. 0)\<rparr>"

definition store_card :: "card_table \<Rightarrow> nat \<Rightarrow> u8 \<Rightarrow> card_table" where
  "store_card ct c v =
     (if c < n_cards ct then ct\<lparr>card_byte := (card_byte ct)(c := v)\<rparr> else ct)"

definition mark_offset :: "card_table \<Rightarrow> nat \<Rightarrow> card_table" where
  "mark_offset ct byte_offset = store_card ct (byte_offset div CARD_SIZE_BYTES) 1"

definition is_dirty :: "card_table \<Rightarrow> nat \<Rightarrow> bool" where
  "is_dirty ct c \<longleftrightarrow> c < n_cards ct \<and> card_byte ct c \<noteq> 0"

definition clear_card :: "card_table \<Rightarrow> nat \<Rightarrow> card_table" where
  "clear_card ct c = store_card ct c 0"

definition clear_all_cards :: "card_table \<Rightarrow> card_table" where
  "clear_all_cards ct = ct\<lparr>card_byte := fill_range (card_byte ct) 0 (n_cards ct) 0\<rparr>"

definition dirty_count :: "card_table \<Rightarrow> nat" where
  "dirty_count ct = length (filter (\<lambda>i. card_byte ct i \<noteq> 0) [0..<n_cards ct])"

lemma n_cards_store [simp]: "n_cards (store_card ct c v) = n_cards ct"
  by (simp add: store_card_def)

lemma n_cards_mark_offset [simp]: "n_cards (mark_offset ct b) = n_cards ct"
  by (simp add: mark_offset_def)

lemma n_cards_clear [simp]: "n_cards (clear_card ct c) = n_cards ct"
  by (simp add: clear_card_def)

lemma is_dirty_mark_offset [bitmap_simps]:
  "is_dirty (mark_offset ct b) c \<longleftrightarrow>
     is_dirty ct c \<or> (c = b div CARD_SIZE_BYTES \<and> c < n_cards ct)"
  by (auto simp: is_dirty_def mark_offset_def store_card_def)

lemma is_dirty_clear_card [bitmap_simps]:
  "is_dirty (clear_card ct c) d \<longleftrightarrow> is_dirty ct d \<and> d \<noteq> c"
  by (auto simp: is_dirty_def clear_card_def store_card_def)

lemma is_dirty_clear_all [bitmap_simps]: "\<not> is_dirty (clear_all_cards ct) c"
  by (simp add: is_dirty_def clear_all_cards_def)

lemma is_dirty_new [bitmap_simps]: "\<not> is_dirty (card_table_new n) c"
  by (simp add: is_dirty_def card_table_new_def)

lemma dirty_count_card: "dirty_count ct = card {c. is_dirty ct c}"
proof -
  have "set (filter (\<lambda>i. card_byte ct i \<noteq> 0) [0..<n_cards ct]) = {c. is_dirty ct c}"
    by (auto simp: is_dirty_def)
  moreover have "distinct (filter (\<lambda>i. card_byte ct i \<noteq> 0) [0..<n_cards ct])" by simp
  ultimately show ?thesis
    unfolding dirty_count_def by (metis distinct_card)
qed

text \<open>
  The write-barrier loop the collector runs over the bytes of a copied or promoted object:
  one \<open>mark_offset\<close>, then on to the first byte of the next card.
\<close>

function mark_byte_range :: "card_table \<Rightarrow> nat \<Rightarrow> nat \<Rightarrow> card_table" where
  "mark_byte_range ct byte byte_end =
     (if byte < byte_end
      then mark_byte_range (mark_offset ct byte)
             ((byte div CARD_SIZE_BYTES + 1) * CARD_SIZE_BYTES) byte_end
      else ct)"
  by pat_completeness auto
termination
proof (relation "measure (\<lambda>(ct, byte, byte_end). byte_end - byte)", simp, clarsimp)
  fix byte byte_end :: nat
  assume "byte < byte_end"
  moreover have "byte < (byte div CARD_SIZE_BYTES + 1) * CARD_SIZE_BYTES"
    by (simp add: CARD_SIZE_BYTES_def)
  ultimately show "byte_end - (CARD_SIZE_BYTES + byte div CARD_SIZE_BYTES * CARD_SIZE_BYTES) < byte_end - byte"
    by simp
qed

declare mark_byte_range.simps [simp del]

lemma n_cards_mark_byte_range [simp]: "n_cards (mark_byte_range ct b e) = n_cards ct"
proof (induction ct b e rule: mark_byte_range.induct)
  case (1 ct b e)
  then show ?case by (subst mark_byte_range.simps) simp
qed

lemma mark_byte_range_mono: "is_dirty ct c \<Longrightarrow> is_dirty (mark_byte_range ct b e) c"
proof (induction ct b e rule: mark_byte_range.induct)
  case (1 ct b e)
  then show ?case by (subst mark_byte_range.simps) (auto simp: bitmap_simps)
qed

lemma next_card_start: "x div 512 = y div 512 \<or> (y div 512 + 1) * 512 \<le> x" if "y \<le> x"
  for x y :: nat
proof (cases "x div 512 = y div 512")
  case False
  moreover have "y div 512 \<le> x div 512" using that by (rule div_le_mono)
  ultimately have "y div 512 + 1 \<le> x div 512" by simp
  then have "(y div 512 + 1) * 512 \<le> x div 512 * 512" by (rule mult_le_mono1)
  also have "\<dots> \<le> x" by simp
  finally show ?thesis by simp
qed simp

lemma is_dirty_mark_byte_range:
  assumes "b \<le> x" "x < e" "x div CARD_SIZE_BYTES < n_cards ct"
  shows "is_dirty (mark_byte_range ct b e) (x div CARD_SIZE_BYTES)"
  using assms
proof (induction ct b e rule: mark_byte_range.induct)
  case (1 ct b e)
  then have "b < e" by simp
  note unfold = mark_byte_range.simps [of ct b e]
  have here: "is_dirty (mark_byte_range ct b e) (b div CARD_SIZE_BYTES)"
    if "x div CARD_SIZE_BYTES = b div CARD_SIZE_BYTES"
    using \<open>b < e\<close> 1(4) that by (simp add: unfold mark_byte_range_mono bitmap_simps)
  show ?case
  proof (cases "x div CARD_SIZE_BYTES = b div CARD_SIZE_BYTES")
    case True
    then show ?thesis using here by simp
  next
    case False
    then have "(b div CARD_SIZE_BYTES + 1) * CARD_SIZE_BYTES \<le> x"
      using next_card_start [OF 1(2)] by (simp add: CARD_SIZE_BYTES_def)
    then show ?thesis
      using \<open>b < e\<close> 1(1,3,4) by (simp add: unfold)
  qed
qed

section \<open>Object headers\<close>

definition TYPE_SHIFT :: nat where "TYPE_SHIFT = 0"
definition TYPE_BITS :: nat where "TYPE_BITS = 5"
definition TYPE_MASK :: u64 where "TYPE_MASK = push_bit TYPE_BITS 1 - 1"
definition LEN_SHIFT :: nat where "LEN_SHIFT = TYPE_SHIFT + TYPE_BITS"
definition LEN_BITS :: nat where "LEN_BITS = 24"
definition LEN_MASK :: u64 where "LEN_MASK = push_bit LEN_BITS 1 - 1"
definition GC_SHIFT :: nat where "GC_SHIFT = LEN_SHIFT + LEN_BITS"
definition GC_BITS :: nat where "GC_BITS = 8"
definition GC_MASK :: u64 where "GC_MASK = push_bit GC_BITS 1 - 1"
definition MAX_OBJECT_CELLS :: u32 where "MAX_OBJECT_CELLS = push_bit LEN_BITS 1 - 1"

datatype heap_type = HT_Symbol | HT_Vector | HT_Function | HT_String | HT_FfiBlock
  | HT_Other | HT_Bignum | HT_Float | HT_Ratio | HT_Complex

fun heap_type_code :: "heap_type \<Rightarrow> u64" where
  "heap_type_code HT_Symbol = 0"
| "heap_type_code HT_Vector = 1"
| "heap_type_code HT_Function = 2"
| "heap_type_code HT_String = 3"
| "heap_type_code HT_FfiBlock = 4"
| "heap_type_code HT_Other = 5"
| "heap_type_code HT_Bignum = 6"
| "heap_type_code HT_Float = 7"
| "heap_type_code HT_Ratio = 8"
| "heap_type_code HT_Complex = 9"

definition heap_type_from_bits :: "u8 \<Rightarrow> heap_type option" where
  "heap_type_from_bits b =
     (if b = 0 then Some HT_Symbol
      else if b = 1 then Some HT_Vector
      else if b = 2 then Some HT_Function
      else if b = 3 then Some HT_String
      else if b = 4 then Some HT_FfiBlock
      else if b = 5 then Some HT_Other
      else if b = 6 then Some HT_Bignum
      else if b = 7 then Some HT_Float
      else if b = 8 then Some HT_Ratio
      else if b = 9 then Some HT_Complex
      else None)"

text \<open>\<open>word_field_range\<close>: the inclusive range of Word cells of an object of the type.\<close>

fun word_field_range :: "heap_type \<Rightarrow> u32 \<Rightarrow> (nat \<times> nat) option" where
  "word_field_range HT_Vector len = (if len = 0 then None else Some (1, unat len))"
| "word_field_range HT_Symbol len = (if len = 0 then None else Some (1, unat len))"
| "word_field_range HT_Ratio len = (if len = 0 then None else Some (1, unat len))"
| "word_field_range HT_Complex len = (if len = 0 then None else Some (1, unat len))"
| "word_field_range HT_Other len = (if len = 0 then None else Some (1, unat len))"
| "word_field_range HT_Function len = Some (3, 4)"
| "word_field_range HT_Bignum len = Some (1, 4)"
| "word_field_range HT_Float len = Some (1, 1)"
| "word_field_range HT_String len = None"
| "word_field_range HT_FfiBlock len = None"

definition header_new :: "heap_type \<Rightarrow> u32 \<Rightarrow> u64" where
  "header_new ty length_cells =
     push_bit TYPE_SHIFT (heap_type_code ty)
       OR push_bit LEN_SHIFT (ucast length_cells AND LEN_MASK)"

text \<open>\<open>ty()\<close> ends in \<open>expect("invalid header type")\<close>: \<open>None\<close> is the panic.\<close>

definition header_ty :: "u64 \<Rightarrow> heap_type option" where
  "header_ty h = heap_type_from_bits (ucast (drop_bit TYPE_SHIFT h AND TYPE_MASK))"

definition header_length_cells :: "u64 \<Rightarrow> u32" where
  "header_length_cells h = ucast (drop_bit LEN_SHIFT h AND LEN_MASK)"

definition header_gc_bits :: "u64 \<Rightarrow> u8" where
  "header_gc_bits h = ucast (drop_bit GC_SHIFT h AND GC_MASK)"

datatype gc_bit = GB_Mark | GB_Tenured | GB_Pinned

fun gc_bit_code :: "gc_bit \<Rightarrow> u64" where
  "gc_bit_code GB_Mark = 1"
| "gc_bit_code GB_Tenured = 2"
| "gc_bit_code GB_Pinned = 4"

definition set_gc_bit :: "u64 \<Rightarrow> gc_bit \<Rightarrow> u64" where
  "set_gc_bit h b = h OR push_bit GC_SHIFT (gc_bit_code b)"

definition clear_gc_bit :: "u64 \<Rightarrow> gc_bit \<Rightarrow> u64" where
  "clear_gc_bit h b = h AND NOT (push_bit GC_SHIFT (gc_bit_code b))"

definition has_gc_bit :: "u64 \<Rightarrow> gc_bit \<Rightarrow> bool" where
  "has_gc_bit h b \<longleftrightarrow> drop_bit GC_SHIFT h AND gc_bit_code b \<noteq> 0"

subsection \<open>The bit fields do not overlap\<close>

lemmas header_consts = TYPE_SHIFT_def TYPE_BITS_def TYPE_MASK_def LEN_SHIFT_def LEN_BITS_def
  LEN_MASK_def GC_SHIFT_def GC_BITS_def GC_MASK_def

lemma field_masks: "TYPE_MASK = mask 5" "LEN_MASK = mask 24" "GC_MASK = mask 8"
  by (simp_all add: header_consts mask_eq_exp_minus_1)

lemma heap_type_from_code:
  "heap_type_from_bits (ucast (heap_type_code ty)) = Some ty"
  by (cases ty) (simp_all add: heap_type_from_bits_def)

lemma heap_type_from_bits_eq_Some:
  "heap_type_from_bits b = Some ty \<longleftrightarrow> b = ucast (heap_type_code ty)"
  by (cases ty) (auto simp: heap_type_from_bits_def)

lemma heap_type_code_bound: "bit (heap_type_code ty) n \<Longrightarrow> n < 4"
proof -
  have "heap_type_code ty AND mask 4 = heap_type_code ty"
    by (cases ty) (simp_all add: mask_eq_exp_minus_1)
  then show "bit (heap_type_code ty) n \<Longrightarrow> n < 4"
    by (metis bit_and_iff bit_mask_iff)
qed

lemma gc_bit_code_bound: "bit (gc_bit_code b) n \<Longrightarrow> n < 3"
proof -
  have "gc_bit_code b AND mask 3 = gc_bit_code b"
    by (cases b) (simp_all add: mask_eq_exp_minus_1)
  then show "bit (gc_bit_code b) n \<Longrightarrow> n < 3"
    by (metis bit_and_iff bit_mask_iff)
qed

lemma len_bits_bound:
  assumes "unat len < 2 ^ 24" "bit len n"
  shows "n < 24"
proof -
  have "unat (take_bit 24 len) = unat len"
    using assms(1) by (simp only: unsigned_take_bit_eq) (simp add: take_bit_eq_mod)
  then have "take_bit 24 len = len" by (simp only: unsigned_word_eqI)
  then show ?thesis using assms(2) by (metis bit_take_bit_iff)
qed

lemma type_field_new:
  "drop_bit TYPE_SHIFT (header_new ty len) AND TYPE_MASK = heap_type_code ty"
  unfolding field_masks
  by (rule bit_word_eqI)
    (auto simp: header_new_def header_consts bit_simps dest: heap_type_code_bound)

lemma length_field_new:
  assumes "unat len < 2 ^ 24"
  shows "drop_bit LEN_SHIFT (header_new ty len) AND LEN_MASK = ucast len"
proof (rule bit_word_eqI)
  fix n assume "n < LENGTH(64)"
  moreover have "bit len n \<Longrightarrow> n < 24" by (rule len_bits_bound [OF assms])
  moreover have "\<not> bit (heap_type_code ty) (5 + n)" by (auto dest: heap_type_code_bound)
  ultimately show "bit (drop_bit LEN_SHIFT (header_new ty len) AND LEN_MASK) n = bit (ucast len :: u64) n"
    unfolding field_masks by (auto simp: header_new_def field_masks bit_simps) (auto simp: header_consts bit_simps)
qed

lemma gc_field_new: "unat len < 2 ^ 24 \<Longrightarrow> header_gc_bits (header_new ty len) = 0"
  unfolding header_gc_bits_def field_masks
  by (rule bit_word_eqI)
    (auto simp: header_new_def header_consts bit_simps dest: heap_type_code_bound len_bits_bound)

lemma ucast_ucast_u32: "ucast (ucast len :: u64) = len" for len :: u32
  by (rule bit_word_eqI) (auto simp: bit_simps)

lemma header_ty_new: "header_ty (header_new ty len) = Some ty"
  by (simp add: header_ty_def type_field_new heap_type_from_code)

lemma header_length_new:
  "unat len < 2 ^ 24 \<Longrightarrow> header_length_cells (header_new ty len) = len"
  by (simp add: header_length_cells_def length_field_new ucast_ucast_u32)

text \<open>Setting or clearing a collector bit changes bits 29 to 31 only.\<close>

lemma set_gc_bit_fields:
  "header_ty (set_gc_bit h b) = header_ty h"
  "header_length_cells (set_gc_bit h b) = header_length_cells h"
proof -
  have t: "drop_bit TYPE_SHIFT (set_gc_bit h b) AND mask 5 = drop_bit TYPE_SHIFT h AND mask 5"
    by (rule bit_word_eqI) (auto simp: set_gc_bit_def header_consts bit_simps)
  have l: "drop_bit LEN_SHIFT (set_gc_bit h b) AND mask 24 = drop_bit LEN_SHIFT h AND mask 24"
    by (rule bit_word_eqI) (auto simp: set_gc_bit_def header_consts bit_simps)
  show "header_ty (set_gc_bit h b) = header_ty h" by (simp add: header_ty_def field_masks t)
  show "header_length_cells (set_gc_bit h b) = header_length_cells h"
    by (simp add: header_length_cells_def field_masks l)
qed

lemma clear_gc_bit_fields:
  "header_ty (clear_gc_bit h b) = header_ty h"
  "header_length_cells (clear_gc_bit h b) = header_length_cells h"
proof -
  have t: "drop_bit TYPE_SHIFT (clear_gc_bit h b) AND mask 5 = drop_bit TYPE_SHIFT h AND mask 5"
    by (rule bit_word_eqI) (auto simp: clear_gc_bit_def header_consts bit_simps)
  have l: "drop_bit LEN_SHIFT (clear_gc_bit h b) AND mask 24 = drop_bit LEN_SHIFT h AND mask 24"
    by (rule bit_word_eqI) (auto simp: clear_gc_bit_def header_consts bit_simps)
  show "header_ty (clear_gc_bit h b) = header_ty h" by (simp add: header_ty_def field_masks t)
  show "header_length_cells (clear_gc_bit h b) = header_length_cells h"
    by (simp add: header_length_cells_def field_masks l)
qed

definition gc_bit_pos :: "gc_bit \<Rightarrow> nat" where
  "gc_bit_pos b = (case b of GB_Mark \<Rightarrow> 0 | GB_Tenured \<Rightarrow> 1 | GB_Pinned \<Rightarrow> 2)"

lemma gc_bit_code_pos: "gc_bit_code b = push_bit (gc_bit_pos b) 1"
  by (cases b) (simp_all add: gc_bit_pos_def)

lemma gc_bit_pos_bound: "gc_bit_pos b < 3"
  by (cases b) (simp_all add: gc_bit_pos_def)

lemma gc_bit_pos_inj: "gc_bit_pos b = gc_bit_pos b' \<longleftrightarrow> b = b'"
  by (cases b; cases b') (simp_all add: gc_bit_pos_def)

lemma has_gc_bit_iff: "has_gc_bit h b \<longleftrightarrow> bit h (29 + gc_bit_pos b)"
  unfolding has_gc_bit_def gc_bit_code_pos and_push_bit_one by (simp add: header_consts bit_simps)

lemma has_set_gc_bit: "has_gc_bit (set_gc_bit h b) b' \<longleftrightarrow> b' = b \<or> has_gc_bit h b'"
  using gc_bit_pos_bound [of b] gc_bit_pos_bound [of b'] gc_bit_pos_inj [of b b']
  by (auto simp: has_gc_bit_iff set_gc_bit_def gc_bit_code_pos header_consts bit_simps)

lemma has_clear_gc_bit: "has_gc_bit (clear_gc_bit h b) b' \<longleftrightarrow> b' \<noteq> b \<and> has_gc_bit h b'"
  using gc_bit_pos_bound [of b] gc_bit_pos_bound [of b'] gc_bit_pos_inj [of b b']
  by (auto simp: has_gc_bit_iff clear_gc_bit_def gc_bit_code_pos header_consts bit_simps
      dest: bit_imp_le_length)

text \<open>
  C35. A header built for a type and a length of at most 24 bits decodes to that type and that
  length with no collector bit set; setting or clearing one collector bit changes exactly
  that bit's answer and neither the type nor the length of any header word.
\<close>

theorem header_fields:
  assumes "len \<le> MAX_OBJECT_CELLS"
  shows "header_ty (header_new ty len) = Some ty \<and>
    header_length_cells (header_new ty len) = len \<and>
    header_gc_bits (header_new ty len) = 0 \<and>
    (\<forall>h b b'. has_gc_bit (set_gc_bit h b) b' = (b' = b \<or> has_gc_bit h b') \<and>
       has_gc_bit (clear_gc_bit h b) b' = (b' \<noteq> b \<and> has_gc_bit h b') \<and>
       header_ty (set_gc_bit h b) = header_ty h \<and> header_ty (clear_gc_bit h b) = header_ty h \<and>
       header_length_cells (set_gc_bit h b) = header_length_cells h \<and>
       header_length_cells (clear_gc_bit h b) = header_length_cells h)"
proof -
  have "unat len < 2 ^ 24"
    using assms by (simp add: MAX_OBJECT_CELLS_def LEN_BITS_def word_le_nat_alt)
  then show ?thesis
    by (simp add: header_ty_new header_length_new gc_field_new has_set_gc_bit has_clear_gc_bit
        set_gc_bit_fields clear_gc_bit_fields)
qed

theorem header_fields_witness:
  "header_ty (header_new HT_Vector 100) = Some HT_Vector \<and>
   header_length_cells (header_new HT_Vector 100) = 100 \<and>
   header_gc_bits (header_new HT_Vector 100) = 0"
proof -
  have "(100 :: u32) \<le> MAX_OBJECT_CELLS"
    by (simp add: MAX_OBJECT_CELLS_def LEN_BITS_def)
  from header_fields [OF this, of HT_Vector] show ?thesis by simp
qed

end
