(* ===== verification/Layouts.thy ===== *)
theory Layouts
  imports Tagged_Word Heap_Common
begin

text \<open>
  The language binding: the trait \<open>HeapLayout\<close> of \<^verbatim>\<open>traits.rs\<close> as a record of its
  operations (the dictionary the collector is instantiated with), its contract as a locale,
  and the two shipped bindings \<^verbatim>\<open>lisp_layout.rs\<close> and \<^verbatim>\<open>tiny_layout.rs\<close>, both shown to
  keep the contract.
\<close>

section \<open>The trait\<close>

text \<open>\<open>WordKind\<close>, with addresses as 64-bit words (\<open>*const u8\<close>).\<close>

datatype word_kind = WK_Immediate | PointerCons u64 | PointerHeader u64 | Forwarded u64

datatype pointer_kind = PK_Cons | PK_Header

record object_layout =
  total_cells :: nat
  pointer_cells_start :: nat
  pointer_cells_end :: nat

definition layout_opaque :: "nat \<Rightarrow> object_layout" where
  "layout_opaque n = \<lparr>total_cells = n, pointer_cells_start = 0, pointer_cells_end = 0\<rparr>"

definition layout_all_pointers :: "nat \<Rightarrow> object_layout" where
  "layout_all_pointers n = \<lparr>total_cells = n, pointer_cells_start = 1, pointer_cells_end = n\<rparr>"

definition pointer_cell_count :: "object_layout \<Rightarrow> nat" where
  "pointer_cell_count l = pointer_cells_end l - pointer_cells_start l"

text \<open>
  \<open>header_layout\<close> dereferences the header cell it is given and nothing else in both bindings,
  so it takes the cell's content; \<open>None\<close> is its panic (an undecodable header).
\<close>

record heap_layout =
  FILL_WORD :: u64
  classify :: "u64 \<Rightarrow> word_kind"
  make_forward :: "u64 \<Rightarrow> u64"
  make_pointer :: "u64 \<Rightarrow> pointer_kind \<Rightarrow> u64"
  rewrite_pointer_addr :: "u64 \<Rightarrow> u64 \<Rightarrow> u64"
  header_layout :: "u64 \<Rightarrow> object_layout option"

fun pointer_word_kind :: "pointer_kind \<Rightarrow> u64 \<Rightarrow> word_kind" where
  "pointer_word_kind PK_Cons a = PointerCons a"
| "pointer_word_kind PK_Header a = PointerHeader a"

section \<open>The contract\<close>

text \<open>
  What the collector relies on, for 8-byte aligned addresses: a forwarding marker reads back
  as the marker it is, a made pointer as a pointer of its kind, an address rewrite keeps the
  kind and replaces the address, the fill word is no pointer, and an object occupies at
  least its first cell.
\<close>

locale layout_laws =
  fixes L :: heap_layout
  assumes classify_forward: "a AND 7 = 0 \<Longrightarrow> classify L (make_forward L a) = Forwarded a"
    and classify_pointer: "a AND 7 = 0 \<Longrightarrow> classify L (make_pointer L a k) = pointer_word_kind k a"
    and classify_rewrite:
      "classify L w = pointer_word_kind k b \<Longrightarrow> a AND 7 = 0 \<Longrightarrow>
       classify L (rewrite_pointer_addr L w a) = pointer_word_kind k a"
    and classify_fill: "classify L (FILL_WORD L) = WK_Immediate"
    and header_progress: "header_layout L h = Some l \<Longrightarrow> 1 \<le> total_cells l"
begin

lemma forward_is_no_pointer:
  "a AND 7 = 0 \<Longrightarrow> classify L (make_forward L a) \<noteq> pointer_word_kind k b"
  by (cases k) (simp_all add: classify_forward)

lemma rewrite_cons:
  "classify L w = PointerCons b \<Longrightarrow> a AND 7 = 0 \<Longrightarrow>
   classify L (rewrite_pointer_addr L w a) = PointerCons a"
  using classify_rewrite [of w PK_Cons b a] by simp

lemma rewrite_header:
  "classify L w = PointerHeader b \<Longrightarrow> a AND 7 = 0 \<Longrightarrow>
   classify L (rewrite_pointer_addr L w a) = PointerHeader a"
  using classify_rewrite [of w PK_Header b a] by simp

lemma make_pointer_is_no_forward:
  "a AND 7 = 0 \<Longrightarrow> classify L (make_pointer L a k) \<noteq> Forwarded b"
  by (cases k) (simp_all add: classify_pointer)

end

section \<open>The Lisp binding\<close>

definition lisp_classify :: "u64 \<Rightarrow> word_kind" where
  "lisp_classify raw =
     (case word_tag raw of
        Tag_Fixnum \<Rightarrow> WK_Immediate
      | Tag_Immediate \<Rightarrow> WK_Immediate
      | Tag_Cons \<Rightarrow> PointerCons (raw AND PAYLOAD_MASK)
      | Tag_Symbol \<Rightarrow> PointerHeader (raw AND PAYLOAD_MASK)
      | Tag_Vector \<Rightarrow> PointerHeader (raw AND PAYLOAD_MASK)
      | Tag_Function \<Rightarrow> PointerHeader (raw AND PAYLOAD_MASK)
      | Tag_String \<Rightarrow> PointerHeader (raw AND PAYLOAD_MASK)
      | Tag_Forward \<Rightarrow> Forwarded (raw AND PAYLOAD_MASK))"

definition lisp_make_forward :: "u64 \<Rightarrow> u64" where
  "lisp_make_forward new_addr = word_forward new_addr"

definition lisp_rewrite_pointer_addr :: "u64 \<Rightarrow> u64 \<Rightarrow> u64" where
  "lisp_rewrite_pointer_addr old_raw new_addr =
     (let tag_bits = old_raw AND TAG_MASK in new_addr OR tag_bits)"

definition lisp_make_pointer :: "u64 \<Rightarrow> pointer_kind \<Rightarrow> u64" where
  "lisp_make_pointer addr kind =
     (let t = (case kind of PK_Cons \<Rightarrow> Tag_Cons | PK_Header \<Rightarrow> Tag_Vector)
      in word_from_ptr addr t)"

definition lisp_header_layout :: "u64 \<Rightarrow> object_layout option" where
  "lisp_header_layout h =
     (let len = header_length_cells h;
          total = 1 + unat len
      in case header_ty h of
           None \<Rightarrow> None
         | Some ty \<Rightarrow>
             (case word_field_range ty len of
                Some (lo, hi) \<Rightarrow>
                  Some \<lparr>total_cells = total, pointer_cells_start = lo, pointer_cells_end = hi + 1\<rparr>
              | None \<Rightarrow> Some (layout_opaque total)))"

definition lisp_layout :: heap_layout where
  "lisp_layout = \<lparr>FILL_WORD = word_NIL, classify = lisp_classify,
     make_forward = lisp_make_forward, make_pointer = lisp_make_pointer,
     rewrite_pointer_addr = lisp_rewrite_pointer_addr, header_layout = lisp_header_layout\<rparr>"

lemma lisp_layout_sel [simp]:
  "FILL_WORD lisp_layout = word_NIL" "classify lisp_layout = lisp_classify"
  "make_forward lisp_layout = lisp_make_forward" "make_pointer lisp_layout = lisp_make_pointer"
  "rewrite_pointer_addr lisp_layout = lisp_rewrite_pointer_addr"
  "header_layout lisp_layout = lisp_header_layout"
  by (simp_all add: lisp_layout_def)

lemma lisp_classify_pointer_tag:
  "lisp_classify w = pointer_word_kind k a \<longleftrightarrow>
     a = w AND PAYLOAD_MASK \<and>
     (case k of PK_Cons \<Rightarrow> word_tag w = Tag_Cons
      | PK_Header \<Rightarrow> word_tag w \<in> {Tag_Symbol, Tag_Vector, Tag_Function, Tag_String})"
  by (cases k; cases "word_tag w") (auto simp: lisp_classify_def)

lemma lisp_classify_forward_iff:
  "lisp_classify w = Forwarded a \<longleftrightarrow> forward_target w = Some a"
  by (cases "word_tag w") (auto simp: lisp_classify_def forward_target_def is_forward_def)

lemma lisp_rewrite_keeps_tag:
  assumes "a AND 7 = 0"
  shows "word_tag (lisp_rewrite_pointer_addr w a) = word_tag w"
    and "lisp_rewrite_pointer_addr w a AND PAYLOAD_MASK = a"
proof -
  have a: "a AND TAG_MASK = 0" using assms by (simp add: TAG_MASK_def)
  have "lisp_rewrite_pointer_addr w a AND TAG_MASK = w AND TAG_MASK"
    using a by (simp add: lisp_rewrite_pointer_addr_def or_tag_and_mask)
  then show "word_tag (lisp_rewrite_pointer_addr w a) = word_tag w"
    by (simp add: word_tag_def tag_from_bits_def)
  show "lisp_rewrite_pointer_addr w a AND PAYLOAD_MASK = a"
    unfolding lisp_rewrite_pointer_addr_def PAYLOAD_MASK_def Let_def
    by (rule or_tag_and_not_mask) (simp_all add: a)
qed

interpretation lisp: layout_laws lisp_layout
proof
  fix a b w :: u64 and k :: pointer_kind and h l
  show "a AND 7 = 0 \<Longrightarrow> classify lisp_layout (make_forward lisp_layout a) = Forwarded a"
    by (simp add: lisp_make_forward_def lisp_classify_forward_iff forward_target_forward TAG_MASK_def)
  show "a AND 7 = 0 \<Longrightarrow> classify lisp_layout (make_pointer lisp_layout a k) = pointer_word_kind k a"
    by (cases k) (simp_all add: lisp_make_pointer_def word_from_ptr_def lisp_classify_pointer_tag
        word_tag_def tag_from_bits_or payload_or_tag TAG_MASK_def lisp_classify_def
        tag_from_bits_or [of a Tag_Cons, simplified] tag_from_bits_or [of a Tag_Vector, simplified]
        payload_or_tag [of a Tag_Cons, simplified] payload_or_tag [of a Tag_Vector, simplified])
  show "classify lisp_layout w = pointer_word_kind k b \<Longrightarrow> a AND 7 = 0 \<Longrightarrow>
    classify lisp_layout (rewrite_pointer_addr lisp_layout w a) = pointer_word_kind k a"
    by (cases k) (simp_all only: lisp_classify_pointer_tag lisp_rewrite_keeps_tag lisp_layout_sel
        pointer_kind.case)
  show "classify lisp_layout (FILL_WORD lisp_layout) = WK_Immediate"
    by (simp add: lisp_classify_def word_NIL_code word_tag_def tag_from_bits_def TAG_MASK_def)
  show "header_layout lisp_layout h = Some l \<Longrightarrow> 1 \<le> total_cells l"
    by (auto simp: lisp_header_layout_def Let_def layout_opaque_def split: option.splits)
qed

section \<open>The tiny binding\<close>

definition TINY_TAG_BITS :: nat where "TINY_TAG_BITS = 2"
definition TINY_TAG_MASK :: u64 where "TINY_TAG_MASK = 3"
definition TINY_PAYLOAD_MASK :: u64 where "TINY_PAYLOAD_MASK = NOT TINY_TAG_MASK"
definition TINY_TAG_IMMEDIATE :: u64 where "TINY_TAG_IMMEDIATE = 0"
definition TINY_TAG_CONS :: u64 where "TINY_TAG_CONS = 1"
definition TINY_TAG_HEADER :: u64 where "TINY_TAG_HEADER = 2"
definition TINY_TAG_FORWARD :: u64 where "TINY_TAG_FORWARD = 3"

definition tiny_fixnum :: "i64 \<Rightarrow> u64" where
  "tiny_fixnum n = push_bit TINY_TAG_BITS n"

definition tiny_cons_ptr :: "u64 \<Rightarrow> u64" where
  "tiny_cons_ptr addr = addr OR TINY_TAG_CONS"

definition tiny_header_ptr :: "u64 \<Rightarrow> u64" where
  "tiny_header_ptr addr = addr OR TINY_TAG_HEADER"

definition tiny_forward :: "u64 \<Rightarrow> u64" where
  "tiny_forward new_addr = new_addr OR TINY_TAG_FORWARD"

definition tiny_header :: "u32 \<Rightarrow> u64" where
  "tiny_header payload_cells = ucast payload_cells"

definition tiny_classify :: "u64 \<Rightarrow> word_kind" where
  "tiny_classify raw =
     (let addr = raw AND TINY_PAYLOAD_MASK; t = raw AND TINY_TAG_MASK in
      if t = TINY_TAG_IMMEDIATE then WK_Immediate
      else if t = TINY_TAG_CONS then PointerCons addr
      else if t = TINY_TAG_HEADER then PointerHeader addr
      else Forwarded addr)"

definition tiny_make_pointer :: "u64 \<Rightarrow> pointer_kind \<Rightarrow> u64" where
  "tiny_make_pointer addr kind =
     (case kind of PK_Cons \<Rightarrow> tiny_cons_ptr addr | PK_Header \<Rightarrow> tiny_header_ptr addr)"

definition tiny_rewrite_pointer_addr :: "u64 \<Rightarrow> u64 \<Rightarrow> u64" where
  "tiny_rewrite_pointer_addr old_raw new_addr =
     (let t = old_raw AND TINY_TAG_MASK in new_addr OR t)"

definition tiny_header_layout :: "u64 \<Rightarrow> object_layout option" where
  "tiny_header_layout h = (let payload_cells = unat h in Some (layout_all_pointers (1 + payload_cells)))"

definition tiny_layout :: heap_layout where
  "tiny_layout = \<lparr>FILL_WORD = 0, classify = tiny_classify,
     make_forward = tiny_forward, make_pointer = tiny_make_pointer,
     rewrite_pointer_addr = tiny_rewrite_pointer_addr, header_layout = tiny_header_layout\<rparr>"

lemma tiny_layout_sel [simp]:
  "FILL_WORD tiny_layout = 0" "classify tiny_layout = tiny_classify"
  "make_forward tiny_layout = tiny_forward" "make_pointer tiny_layout = tiny_make_pointer"
  "rewrite_pointer_addr tiny_layout = tiny_rewrite_pointer_addr"
  "header_layout tiny_layout = tiny_header_layout"
  by (simp_all add: tiny_layout_def)

lemmas tiny_tags = TINY_TAG_IMMEDIATE_def TINY_TAG_CONS_def TINY_TAG_HEADER_def TINY_TAG_FORWARD_def

lemma aligned8_aligned4: "a AND 7 = 0 \<Longrightarrow> a AND 3 = 0" for a :: u64
  unfolding and7_eq_0_iff and3_eq_0_iff by presburger

lemma and3_cases: "b AND 3 \<in> {0, 1, 2, 3}" for b :: u64
proof -
  have "unat (b AND 3) \<le> unat (3 :: u64)"
    by (rule word_le_nat_alt [THEN iffD1]) (rule word_and_le1)
  then have "unat (b AND 3) \<in> {0, 1, 2, 3}" by auto
  then have "word_of_nat (unat (b AND 3)) \<in> (word_of_nat ` {0, 1, 2, 3} :: u64 set)"
    by blast
  then show ?thesis by simp
qed

text \<open>An aligned address with a two-bit tag decodes to the address and the tag.\<close>

lemma tiny_decode:
  fixes a t :: u64
  assumes "a AND 7 = 0" and "t AND 3 = t"
  shows "(a OR t) AND TINY_TAG_MASK = t" "(a OR t) AND TINY_PAYLOAD_MASK = a"
  unfolding TINY_TAG_MASK_def TINY_PAYLOAD_MASK_def
  using aligned8_aligned4 [OF assms(1)] assms(2)
  by (simp_all only: or_tag_and_mask or_tag_and_not_mask)

interpretation tiny: layout_laws tiny_layout
proof
  fix a b w :: u64 and k :: pointer_kind and h l
  show "a AND 7 = 0 \<Longrightarrow> classify tiny_layout (make_forward tiny_layout a) = Forwarded a"
    by (simp add: tiny_forward_def tiny_classify_def tiny_tags tiny_decode)
  show "a AND 7 = 0 \<Longrightarrow> classify tiny_layout (make_pointer tiny_layout a k) = pointer_word_kind k a"
    by (cases k) (simp_all add: tiny_make_pointer_def tiny_cons_ptr_def tiny_header_ptr_def
        tiny_classify_def tiny_tags tiny_decode)
  show "classify tiny_layout w = pointer_word_kind k b \<Longrightarrow> a AND 7 = 0 \<Longrightarrow>
    classify tiny_layout (rewrite_pointer_addr tiny_layout w a) = pointer_word_kind k a"
    using tiny_decode [of a "w AND 3"]
    by (cases k) (auto simp: tiny_classify_def tiny_rewrite_pointer_addr_def tiny_tags Let_def
        TINY_TAG_MASK_def split: if_splits)
  show "classify tiny_layout (FILL_WORD tiny_layout) = WK_Immediate"
    by (simp add: tiny_classify_def tiny_tags)
  show "header_layout tiny_layout h = Some l \<Longrightarrow> 1 \<le> total_cells l"
    by (auto simp: tiny_header_layout_def layout_all_pointers_def Let_def)
qed

section \<open>What the bindings promise\<close>

text \<open>
  C38. In both bindings and for every 8-byte aligned address: a forwarding marker decodes to
  its target and never to a pointer, and rewriting the address of a pointer word gives a
  pointer word of the same kind to the new address; in the Lisp binding the rewrite also
  keeps the fine-grained tag the collector does not look at.
\<close>

theorem bindings_forward_and_rewrite:
  assumes "a AND 7 = 0"
  shows "lisp_classify (lisp_make_forward a) = Forwarded a \<and>
    tiny_classify (tiny_forward a) = Forwarded a \<and>
    (\<forall>k b w. lisp_classify w = pointer_word_kind k b \<longrightarrow>
       lisp_classify (lisp_rewrite_pointer_addr w a) = pointer_word_kind k a \<and>
       word_tag (lisp_rewrite_pointer_addr w a) = word_tag w) \<and>
    (\<forall>k b w. tiny_classify w = pointer_word_kind k b \<longrightarrow>
       tiny_classify (tiny_rewrite_pointer_addr w a) = pointer_word_kind k a)"
  using assms lisp.classify_forward [of a] tiny.classify_forward [of a]
    lisp.classify_rewrite [OF _ assms] tiny.classify_rewrite [OF _ assms]
    lisp_rewrite_keeps_tag(1) [OF assms]
  by simp

theorem bindings_forward_and_rewrite_witness:
  "lisp_classify (lisp_make_forward 8192) = Forwarded 8192 \<and>
   tiny_classify (tiny_forward 8192) = Forwarded 8192"
proof -
  have "(8192 :: u64) AND 7 = 0" by simp
  from bindings_forward_and_rewrite [OF this] show ?thesis by blast
qed

text \<open>
  C39. The layout of a Lisp object spans the header and \<open>length\<close> payload cells, and the
  pointer cells the scanners walk lie inside it exactly when a Function or a Bignum has at
  least four payload cells and a Float at least one: the pointer range of those types is
  fixed and does not look at the length.
\<close>

theorem lisp_object_extent:
  assumes "len \<le> MAX_OBJECT_CELLS"
  shows "\<exists>l. lisp_header_layout (header_new ty len) = Some l \<and>
    total_cells l = 1 + unat len \<and>
    (pointer_cells_end l \<le> total_cells l \<longleftrightarrow>
       (if ty = HT_Function \<or> ty = HT_Bignum then 4 \<le> unat len
        else if ty = HT_Float then 1 \<le> unat len else True))"
proof -
  have "unat len < 2 ^ 24"
    using assms by (simp add: MAX_OBJECT_CELLS_def LEN_BITS_def word_le_nat_alt)
  then show ?thesis
    by (cases ty) (auto simp: lisp_header_layout_def header_ty_new header_length_new Let_def
        layout_opaque_def)
qed

theorem lisp_object_extent_witness:
  "\<exists>l. lisp_header_layout (header_new HT_Function 2) = Some l \<and> total_cells l = 3 \<and>
     \<not> pointer_cells_end l \<le> total_cells l"
proof -
  have "(2 :: u32) \<le> MAX_OBJECT_CELLS"
    by (simp add: MAX_OBJECT_CELLS_def LEN_BITS_def)
  from lisp_object_extent [OF this, of HT_Function] show ?thesis by auto
qed

end
