(* ===== verification/Page_Heap.thy ===== *)
theory Page_Heap
  imports Bitmaps Page_Desc Layouts
begin

text \<open>
  The page heap of \<^verbatim>\<open>page_heap/space.rs\<close>: its state as one record, the constructors, page
  lookup, commit and decommit, descriptors and regions, the mark bitmap, the trigger policy,
  the statistics snapshot and the rebuild of the card table.

  The record lists the struct's fields in order; the fields of \<open>SharedHeap\<close>
  (\<^verbatim>\<open>shared.rs\<close>) the collector uses are among them. The reservation's memory is a map from
  global cell indices to 64-bit cells. The operating system is not under verification: its
  answers to successive \<open>mprotect\<close>/\<open>madvise\<close> calls are an arbitrary stream
  (\<open>os_answers\<close>, indexed by \<open>os_calls\<close>), and what the code relies on, that
  \<open>MADV_DONTNEED\<close> on a private anonymous mapping and a fresh mapping read as zero, is the
  effect of a successful call. The modelled target is the \<open>cfg(unix)\<close> one.
\<close>

section \<open>State\<close>

text \<open>\<open>AllocRegion\<close> (\<^verbatim>\<open>alloc.rs\<close>); the sentinel \<open>NO_PAGE\<close> is \<open>None\<close>.\<close>

record AllocRegion =
  region_gen :: generation
  region_kind :: page_kind
  current_page :: "nat option"
  offset :: nat

definition region_empty :: "generation \<Rightarrow> page_kind \<Rightarrow> AllocRegion" where
  "region_empty g k = \<lparr>region_gen = g, region_kind = k, current_page = None, offset = 0\<rparr>"

definition has_page :: "AllocRegion \<Rightarrow> bool" where
  "has_page r \<longleftrightarrow> current_page r \<noteq> None"

definition remaining_cells :: "AllocRegion \<Rightarrow> nat" where
  "remaining_cells r = (if has_page r then PAGE_SIZE_CELLS - offset r else 0)"

record page_heap =
  base_ptr :: u64
  n_pages :: nat
  cells :: "nat \<Rightarrow> u64"
  committed_bits :: bitmap
  committed_count :: nat
  descs :: "page_desc list"
  free_page_list :: "nat list"
  pages_high_water :: nat
  alloc_regions :: "nat \<times> nat \<Rightarrow> AllocRegion"
  poisoned :: bool
  bytes_alloc_since_gc :: nat
  start_bits :: bitmap
  cards :: card_table
  mark_bits :: bitmap
  pinned_cells :: "nat list"
  explicit_pins :: "(nat \<times> u32) list"
  recycle_live_counts :: "nat \<Rightarrow> u16"
  recycle_live_counts_target :: "generation option"
  last_mark_live_cells :: nat
  last_mark_live_pages :: nat
  last_zero_live_pages_released :: nat
  minors_since_g0_promote :: u32
  g0_promotes_since_g1_promote :: u32
  last_pin_summary :: "nat \<times> nat"
  young_page_cap :: nat
  auto_gc_trigger_bytes :: nat
  gc_budget_min_bytes :: nat
  tenured_full_threshold_bps :: u32
  os_answers :: "nat \<Rightarrow> bool"
  os_calls :: nat

datatype commit_error = OutOfRange nat | OsRefused

section \<open>Construction\<close>

text \<open>
  The region table \<open>[[AllocRegion; 2]; 3]\<close> and its index; \<open>None\<close> is the panic for the
  generation and the kinds that have no region.
\<close>

definition region_index :: "generation \<Rightarrow> page_kind \<Rightarrow> (nat \<times> nat) option" where
  "region_index g k =
     (case (case g of G0 \<Rightarrow> Some 0 | G1 \<Rightarrow> Some 1 | Tenured \<Rightarrow> Some 2 | Gen_Free \<Rightarrow> None) of
        None \<Rightarrow> None
      | Some gen_idx \<Rightarrow>
          (case (case k of Kind_Cons \<Rightarrow> Some 0 | Kind_Boxed \<Rightarrow> Some 1 | _ \<Rightarrow> None) of
             None \<Rightarrow> None
           | Some kind_idx \<Rightarrow> Some (gen_idx, kind_idx)))"

definition initial_regions :: "nat \<times> nat \<Rightarrow> AllocRegion" where
  "initial_regions = (\<lambda>(g, k).
     region_empty (if g = 0 then G0 else if g = 1 then G1 else Tenured)
       (if k = 0 then Kind_Cons else Kind_Boxed))"

text \<open>
  \<open>with_reservation\<close>: \<open>base\<close> is where \<open>mmap\<close> put the reservation. The \<open>Vec\<close> used as the
  free-page stack is kept top first, so \<open>(0..n).rev().collect()\<close> is \<open>[0..<n]\<close>.
\<close>

definition with_reservation :: "u64 \<Rightarrow> (nat \<Rightarrow> bool) \<Rightarrow> nat \<Rightarrow> page_heap" where
  "with_reservation base os reserved =
     (let n = div_ceil reserved PAGE_SIZE_BYTES; total_bytes = n * PAGE_SIZE_BYTES in
      \<lparr>base_ptr = base, n_pages = n, cells = (\<lambda>_. 0),
       committed_bits = (\<lambda>_. 0), committed_count = 0,
       descs = replicate n desc_FREE, free_page_list = [0..<n], pages_high_water = 0,
       alloc_regions = initial_regions,
       poisoned = False, bytes_alloc_since_gc = 0,
       start_bits = (\<lambda>_. 0), cards = card_table_new total_bytes, mark_bits = (\<lambda>_. 0),
       pinned_cells = [], explicit_pins = [],
       recycle_live_counts = (\<lambda>_. 0), recycle_live_counts_target = None,
       last_mark_live_cells = 0, last_mark_live_pages = 0, last_zero_live_pages_released = 0,
       minors_since_g0_promote = 0, g0_promotes_since_g1_promote = 0,
       last_pin_summary = (0, 0), young_page_cap = n,
       auto_gc_trigger_bytes = 8 * 1024 * 1024, gc_budget_min_bytes = 8 * 1024 * 1024,
       tenured_full_threshold_bps = 7500, os_answers = os, os_calls = 0\<rparr>)"

definition page_heap_new :: "u64 \<Rightarrow> (nat \<Rightarrow> bool) \<Rightarrow> nat \<Rightarrow> nat \<Rightarrow> page_heap" where
  "page_heap_new base os young_bytes old_bytes =
     (let min_bytes = 4 * PAGE_SIZE_BYTES;
          bytes = max (young_bytes + old_bytes) min_bytes;
          heap = with_reservation base os bytes;
          cap_pages = max (young_bytes div PAGE_SIZE_BYTES) 2
      in heap\<lparr>young_page_cap := min cap_pages (n_pages heap)\<rparr>)"

section \<open>Pages and addresses\<close>

definition reserved_bytes :: "page_heap \<Rightarrow> nat" where
  "reserved_bytes h = n_pages h * PAGE_SIZE_BYTES"

definition committed_bytes :: "page_heap \<Rightarrow> nat" where
  "committed_bytes h = committed_count h * PAGE_SIZE_BYTES"

definition total_cells_of :: "page_heap \<Rightarrow> nat" where
  "total_cells_of h = n_pages h * PAGE_SIZE_CELLS"

text \<open>\<open>page_ptr\<close> asserts its index; \<open>None\<close> is the failed assertion.\<close>

definition page_ptr :: "page_heap \<Rightarrow> nat \<Rightarrow> u64 option" where
  "page_ptr h idx =
     (if idx < n_pages h then Some (base_ptr h + of_nat (idx * PAGE_SIZE_BYTES)) else None)"

definition page_of :: "page_heap \<Rightarrow> u64 \<Rightarrow> nat option" where
  "page_of h ptr =
     (let b = unat (base_ptr h); e = b + reserved_bytes h; p = unat ptr in
      if b \<le> p \<and> p < e then Some ((p - b) div PAGE_SIZE_BYTES) else None)"

text \<open>\<open>(base as *mut u64).add(cell)\<close>, and its inverse \<open>(addr - base) / 8\<close>.\<close>

definition cell_addr :: "page_heap \<Rightarrow> nat \<Rightarrow> u64" where
  "cell_addr h c = base_ptr h + of_nat (8 * c)"

definition cell_index :: "page_heap \<Rightarrow> u64 \<Rightarrow> nat" where
  "cell_index h a = (unat a - unat (base_ptr h)) div 8"

definition global_cell_index :: "page_heap \<Rightarrow> nat \<Rightarrow> nat \<Rightarrow> nat" where
  "global_cell_index h page_idx cell_offset = page_idx * PAGE_SIZE_CELLS + cell_offset"

section \<open>Commit and decommit\<close>

definition is_committed :: "page_heap \<Rightarrow> nat \<Rightarrow> bool" where
  "is_committed h idx \<longleftrightarrow> idx < n_pages h \<and> bit1_test (committed_bits h) idx"

text \<open>One system call: the next answer of the stream.\<close>

definition os_call :: "page_heap \<Rightarrow> bool \<times> page_heap" where
  "os_call h = (os_answers h (os_calls h), h\<lparr>os_calls := Suc (os_calls h)\<rparr>)"

definition commit_page :: "page_heap \<Rightarrow> nat \<Rightarrow> (commit_error + bool) \<times> page_heap" where
  "commit_page h idx =
     (if \<not> idx < n_pages h then (Inl (OutOfRange idx), h)
      else if is_committed h idx then (Inr False, h)
      else
        (let (r, h) = os_call h in
         if \<not> r then (Inl OsRefused, h)
         else (Inr True, h\<lparr>committed_bits := bit1_set (committed_bits h) idx,
                          committed_count := committed_count h + 1\<rparr>)))"

text \<open>
  \<open>decommit_page\<close>: \<open>madvise(MADV_DONTNEED)\<close> drops the page's contents, \<open>mprotect\<close> makes it
  inaccessible; both calls are made before either result is looked at. A page that was
  dropped reads as zero when it is next committed.
\<close>

definition cards_per_page :: nat where
  "cards_per_page = PAGE_SIZE_CELLS div CARD_SIZE_CELLS"

definition clear_page_cards :: "card_table \<Rightarrow> nat \<Rightarrow> card_table" where
  "clear_page_cards ct idx =
     (let first_card = idx * cards_per_page;
          last_card = min (first_card + cards_per_page) (n_cards ct)
      in fold (\<lambda>c ct. clear_card ct c) [first_card..<last_card] ct)"

definition decommit_page :: "page_heap \<Rightarrow> nat \<Rightarrow> (commit_error + unit) \<times> page_heap" where
  "decommit_page h idx =
     (if \<not> idx < n_pages h then (Inl (OutOfRange idx), h)
      else if \<not> is_committed h idx then (Inr (), h)
      else
        (let (r1, h) = os_call h;
             h = (if r1
                  then h\<lparr>cells := fill_range (cells h) (idx * PAGE_SIZE_CELLS) PAGE_SIZE_CELLS 0\<rparr>
                  else h);
             (r2, h) = os_call h
         in if \<not> r1 \<or> \<not> r2 then (Inl OsRefused, h)
            else (Inr (), h\<lparr>committed_bits := bit1_unset (committed_bits h) idx,
                           committed_count := committed_count h - 1,
                           cards := clear_page_cards (cards h) idx\<rparr>)))"

section \<open>Descriptors, regions, marks\<close>

text \<open>
  \<open>desc\<close> and \<open>desc_mut\<close> assert \<open>idx < page_count()\<close>; the indices the collector passes are
  in range by the invariants below, and \<open>desc_update\<close> changes nothing out of range.
\<close>

definition desc :: "page_heap \<Rightarrow> nat \<Rightarrow> page_desc" where
  "desc h idx = descs h ! idx"

definition desc_update :: "page_heap \<Rightarrow> nat \<Rightarrow> (page_desc \<Rightarrow> page_desc) \<Rightarrow> page_heap" where
  "desc_update h idx f = h\<lparr>descs := (descs h)[idx := f (descs h ! idx)]\<rparr>"

definition pages_in_gen :: "page_heap \<Rightarrow> generation \<Rightarrow> nat list" where
  "pages_in_gen h target = filter (\<lambda>i. pgen (descs h ! i) = target) [0..<length (descs h)]"

definition count_pages_in_gen :: "page_heap \<Rightarrow> generation \<Rightarrow> nat" where
  "count_pages_in_gen h target = length (filter (\<lambda>d. pgen d = target) (descs h))"

definition alloc_region :: "page_heap \<Rightarrow> generation \<Rightarrow> page_kind \<Rightarrow> AllocRegion option" where
  "alloc_region h g k = map_option (alloc_regions h) (region_index g k)"

definition alloc_region_update ::
  "page_heap \<Rightarrow> generation \<Rightarrow> page_kind \<Rightarrow> (AllocRegion \<Rightarrow> AllocRegion) \<Rightarrow> page_heap" where
  "alloc_region_update h g k f =
     (case region_index g k of
        None \<Rightarrow> h
      | Some ix \<Rightarrow> h\<lparr>alloc_regions := (alloc_regions h)(ix := f (alloc_regions h ix))\<rparr>)"

definition is_marked :: "page_heap \<Rightarrow> nat \<Rightarrow> bool" where
  "is_marked h cell_idx = bit1_test (mark_bits h) cell_idx"

definition mark_cell :: "page_heap \<Rightarrow> nat \<Rightarrow> bool \<times> page_heap" where
  "mark_cell h cell_idx =
     (let prev = bit1_test (mark_bits h) cell_idx
      in (prev, h\<lparr>mark_bits := bit1_set (mark_bits h) cell_idx\<rparr>))"

definition clear_mark_bits_in_gen :: "page_heap \<Rightarrow> generation \<Rightarrow> page_heap" where
  "clear_mark_bits_in_gen h target =
     h\<lparr>mark_bits := fold (\<lambda>p b. bit1_clear_page b p) (pages_in_gen h target) (mark_bits h)\<rparr>"

definition count_marked_in_gen :: "page_heap \<Rightarrow> generation \<Rightarrow> nat" where
  "count_marked_in_gen h target =
     (\<Sum>page_idx \<leftarrow> pages_in_gen h target.
        \<Sum>w \<leftarrow> [page_idx * PAGE_SIZE_CELLS div 64 ..< page_idx * PAGE_SIZE_CELLS div 64 + PAGE_SIZE_CELLS div 64].
          length (filter (bit (mark_bits h w)) [0..<64]))"

section \<open>Well-formed reservations\<close>

text \<open>
  The facts about the reservation every pass relies on: the tables have one entry per page,
  the base is aligned and the reservation does not wrap around the address space, the commit
  counter counts the commit bits, and memory that is not committed holds no bytes.
\<close>

definition reservation_ok :: "page_heap \<Rightarrow> bool" where
  "reservation_ok h \<longleftrightarrow>
     length (descs h) = n_pages h \<and>
     base_ptr h AND 7 = 0 \<and>
     unat (base_ptr h) + reserved_bytes h < 2 ^ 64 \<and>
     n_cards (cards h) = n_pages h * cards_per_page \<and>
     committed_count h = card {i. is_committed h i} \<and>
     (\<forall>c. c div PAGE_SIZE_CELLS < n_pages h \<and> \<not> is_committed h (c div PAGE_SIZE_CELLS) \<longrightarrow>
        cells h c = 0)"

lemma region_index_simps [simp]:
  "region_index G0 Kind_Cons = Some (0, 0)" "region_index G0 Kind_Boxed = Some (0, 1)"
  "region_index G1 Kind_Cons = Some (1, 0)" "region_index G1 Kind_Boxed = Some (1, 1)"
  "region_index Tenured Kind_Cons = Some (2, 0)" "region_index Tenured Kind_Boxed = Some (2, 1)"
  "region_index Gen_Free k = None" "region_index g Kind_Free = None" "region_index g Kind_Large = None"
  by (simp_all add: region_index_def split: generation.splits)

lemma region_index_eq_Some:
  "region_index g k = Some ix \<longleftrightarrow>
     g \<noteq> Gen_Free \<and> (k = Kind_Cons \<or> k = Kind_Boxed) \<and>
     ix = ((case g of G0 \<Rightarrow> 0 | G1 \<Rightarrow> 1 | _ \<Rightarrow> 2), (if k = Kind_Cons then 0 else 1))"
  by (cases g; cases k) auto

lemma region_index_inj:
  "region_index g k = Some ix \<Longrightarrow> region_index g' k' = Some ix \<Longrightarrow> g' = g \<and> k' = k"
  by (cases g; cases k; cases g'; cases k') auto

lemma finite_committed [simp]: "finite {i. is_committed h i}"
  by (rule finite_subset [of _ "{..< n_pages h}"]) (auto simp: is_committed_def)

subsection \<open>Addresses\<close>

lemma page_bytes_cells: "PAGE_SIZE_BYTES = 8 * PAGE_SIZE_CELLS"
  by (simp add: PAGE_SIZE_CELLS_def PAGE_SIZE_BYTES_def)

lemma div_page_bytes: "(8 * c + r) div PAGE_SIZE_BYTES = c div PAGE_SIZE_CELLS" if "r < 8"
proof -
  have "(8 * c + r) div 8 = c" using that by simp
  then show ?thesis
    unfolding page_bytes_cells div_mult2_eq by simp
qed

lemma unat_base_offset:
  assumes "reservation_ok h" "k < reserved_bytes h"
  shows "unat (base_ptr h + of_nat k) = unat (base_ptr h) + k"
proof -
  have "unat (base_ptr h) + k < 2 ^ 64"
    using assms by (simp add: reservation_ok_def)
  moreover from this have "unat (of_nat k :: u64) = k"
    by (simp add: unat_of_nat)
  ultimately show ?thesis
    by (simp add: unat_word_ariths)
qed

lemma cell_in_reservation:
  "c < total_cells_of h \<Longrightarrow> 8 * c < reserved_bytes h"
  by (simp add: total_cells_of_def reserved_bytes_def page_bytes_cells)

lemma cell_index_addr [simp]:
  assumes "reservation_ok h" "c < total_cells_of h"
  shows "cell_index h (cell_addr h c) = c"
  using unat_base_offset [OF assms(1) cell_in_reservation [OF assms(2)]]
  by (simp add: cell_index_def cell_addr_def)

lemma page_of_cell_addr:
  assumes "reservation_ok h" "c < total_cells_of h"
  shows "page_of h (cell_addr h c) = Some (c div PAGE_SIZE_CELLS)"
  using unat_base_offset [OF assms(1) cell_in_reservation [OF assms(2)]]
    cell_in_reservation [OF assms(2)] div_page_bytes [of 0 c]
  by (simp add: page_of_def cell_addr_def Let_def)

lemma page_of_bound: "page_of h a = Some p \<Longrightarrow> p < n_pages h"
  by (auto simp: page_of_def reserved_bytes_def Let_def less_mult_imp_div_less split: if_splits)

lemma page_of_cell_index:
  assumes "page_of h a = Some p"
  shows "cell_index h a div PAGE_SIZE_CELLS = p" "cell_index h a < total_cells_of h"
proof -
  have p: "p = (unat a - unat (base_ptr h)) div PAGE_SIZE_BYTES"
    using assms by (simp add: page_of_def Let_def split: if_splits)
  show d: "cell_index h a div PAGE_SIZE_CELLS = p"
    unfolding p cell_index_def page_bytes_cells div_mult2_eq ..
  have "p < n_pages h" by (rule page_of_bound [OF assms])
  then show "cell_index h a < total_cells_of h"
    unfolding total_cells_of_def d [symmetric]
    by (metis div_less_iff_less_mult mult.commute PAGE_SIZE_CELLS_num zero_less_numeral)
qed

lemma cell_addr_aligned:
  assumes "reservation_ok h"
  shows "cell_addr h c AND 7 = 0"
proof -
  have b: "unat (base_ptr h) mod 8 = 0"
    using assms by (simp add: reservation_ok_def and7_eq_0_iff)
  have "unat (cell_addr h c) = (unat (base_ptr h) + 8 * c) mod 2 ^ 64"
    unfolding cell_addr_def unat_word_ariths(1) unat_of_nat mod_add_right_eq by simp
  moreover have "(x mod 2 ^ 64) mod 8 = x mod 8" for x :: nat
    by (rule mod_mod_cancel) simp
  moreover have "(unat (base_ptr h) + 8 * c) mod 8 = unat (base_ptr h) mod 8"
    by presburger
  ultimately show ?thesis using b by (simp add: and7_eq_0_iff)
qed

lemma page_ptr_cell_addr:
  "idx < n_pages h \<Longrightarrow> page_ptr h idx = Some (cell_addr h (idx * PAGE_SIZE_CELLS))"
  by (simp add: page_ptr_def cell_addr_def page_bytes_cells mult.commute mult.left_commute)

subsection \<open>The initial heap\<close>

lemma with_reservation_sel [simp]:
  "n_pages (with_reservation b os r) = div_ceil r PAGE_SIZE_BYTES"
  "base_ptr (with_reservation b os r) = b"
  "descs (with_reservation b os r) = replicate (div_ceil r PAGE_SIZE_BYTES) desc_FREE"
  "free_page_list (with_reservation b os r) = [0..<div_ceil r PAGE_SIZE_BYTES]"
  "pages_high_water (with_reservation b os r) = 0"
  "cells (with_reservation b os r) = (\<lambda>_. 0)"
  "start_bits (with_reservation b os r) = (\<lambda>_. 0)"
  "mark_bits (with_reservation b os r) = (\<lambda>_. 0)"
  "alloc_regions (with_reservation b os r) = initial_regions"
  "committed_bits (with_reservation b os r) = (\<lambda>_. 0)"
  "committed_count (with_reservation b os r) = 0"
  "cards (with_reservation b os r) = card_table_new (div_ceil r PAGE_SIZE_BYTES * PAGE_SIZE_BYTES)"
  "poisoned (with_reservation b os r) = False"
  "pinned_cells (with_reservation b os r) = []" "explicit_pins (with_reservation b os r) = []"
  by (simp_all add: with_reservation_def Let_def)

lemma reservation_ok_initial:
  assumes "b AND 7 = 0" "unat b + div_ceil r PAGE_SIZE_BYTES * PAGE_SIZE_BYTES < 2 ^ 64"
  shows "reservation_ok (with_reservation b os r)"
proof -
  have "div_ceil (k * 65536) 512 = k * 128" for k by (simp add: div_ceil_def)
  then have "n_cards (card_table_new (k * PAGE_SIZE_BYTES)) = k * cards_per_page" for k
    by (simp add: card_table_new_def PAGE_SIZE_BYTES_def CARD_SIZE_BYTES_def cards_per_page_def
        CARD_SIZE_CELLS_def PAGE_SIZE_CELLS_def)
  with assms show ?thesis
    by (simp add: reservation_ok_def reserved_bytes_def is_committed_def bit1_test_bit)
qed

lemma page_heap_new_pages: "4 \<le> n_pages (page_heap_new b os y o')"
proof -
  let ?bytes = "max (y + o') (4 * PAGE_SIZE_BYTES)"
  have "4 * PAGE_SIZE_BYTES \<le> div_ceil ?bytes PAGE_SIZE_BYTES * PAGE_SIZE_BYTES"
    using div_ceil_bounds(1) [of PAGE_SIZE_BYTES ?bytes] by (simp add: PAGE_SIZE_BYTES_def)
  then show ?thesis
    by (simp add: page_heap_new_def Let_def PAGE_SIZE_BYTES_def)
qed

subsection \<open>Commit and decommit keep the reservation\<close>

lemma is_committed_os [simp]: "is_committed (h\<lparr>os_calls := k\<rparr>) i = is_committed h i"
  by (simp add: is_committed_def)

lemma commit_page_frame:
  assumes "commit_page h idx = (r, h')"
  shows "n_pages h' = n_pages h" "base_ptr h' = base_ptr h" "cells h' = cells h"
    "descs h' = descs h" "free_page_list h' = free_page_list h" "start_bits h' = start_bits h"
    "mark_bits h' = mark_bits h" "cards h' = cards h" "alloc_regions h' = alloc_regions h"
    "pages_high_water h' = pages_high_water h" "poisoned h' = poisoned h"
    "pinned_cells h' = pinned_cells h" "explicit_pins h' = explicit_pins h"
    "young_page_cap h' = young_page_cap h" "bytes_alloc_since_gc h' = bytes_alloc_since_gc h"
    "recycle_live_counts_target h' = recycle_live_counts_target h"
  using assms by (auto simp: commit_page_def os_call_def Let_def split: if_splits)

lemma commit_page_committed:
  assumes "commit_page h idx = (r, h')"
  shows "is_committed h' i \<longleftrightarrow> is_committed h i \<or> (r = Inr True \<and> i = idx)"
  using assms
  by (auto simp: commit_page_def os_call_def Let_def is_committed_def bitmap_simps split: if_splits)

lemma commit_page_result:
  assumes "commit_page h idx = (r, h')"
  shows "r = Inr False \<Longrightarrow> is_committed h idx" "r = Inr True \<Longrightarrow> idx < n_pages h \<and> \<not> is_committed h idx"
    "r = Inr fresh \<Longrightarrow> is_committed h' idx"
  using assms
  by (auto simp: commit_page_def os_call_def Let_def is_committed_def bitmap_simps split: if_splits)

lemma reservation_ok_commit:
  assumes ok: "reservation_ok h" and c: "commit_page h idx = (r, h')"
  shows "reservation_ok h'"
proof -
  note f = commit_page_frame [OF c] and i = commit_page_committed [OF c]
  have "committed_count h' = card {i. is_committed h' i}"
  proof (cases "r = Inr True")
    case True
    then have n: "\<not> is_committed h idx" using commit_page_result [OF c] by simp
    have "{i. is_committed h' i} = insert idx {i. is_committed h i}"
      using True by (auto simp: i)
    then have "card {i. is_committed h' i} = Suc (card {i. is_committed h i})"
      using n by simp
    moreover have "committed_count h' = Suc (committed_count h)"
      using c True by (auto simp: commit_page_def os_call_def Let_def split: if_splits)
    ultimately show ?thesis using ok by (simp add: reservation_ok_def)
  next
    case False
    then have "{i. is_committed h' i} = {i. is_committed h i}" by (simp add: i)
    moreover have "committed_count h' = committed_count h"
      using c False by (auto simp: commit_page_def os_call_def Let_def split: if_splits)
    ultimately show ?thesis using ok by (simp add: reservation_ok_def)
  qed
  then show ?thesis
    using ok by (auto simp: reservation_ok_def reserved_bytes_def f i)
qed

lemma n_cards_clear_page_cards [simp]: "n_cards (clear_page_cards ct p) = n_cards ct"
proof -
  have "n_cards (fold (\<lambda>c ct. clear_card ct c) cs ct) = n_cards ct" for cs
    by (induction cs arbitrary: ct) simp_all
  then show ?thesis by (simp add: clear_page_cards_def Let_def)
qed

lemma is_dirty_clear_cards:
  "is_dirty (fold (\<lambda>c ct. clear_card ct c) cs ct) c \<longleftrightarrow> is_dirty ct c \<and> c \<notin> set cs"
  by (induction cs arbitrary: ct) (auto simp: is_dirty_clear_card)

lemma is_dirty_clear_page_cards [bitmap_simps]:
  "is_dirty (clear_page_cards ct p) c \<longleftrightarrow> is_dirty ct c \<and> c div cards_per_page \<noteq> p"
proof -
  have "p * 128 \<le> c \<and> c < p * 128 + 128 \<longleftrightarrow> c div 128 = p" for c p :: nat
    by (auto simp: div_nat_eqI)
  moreover have "cards_per_page = 128"
    by (simp add: cards_per_page_def PAGE_SIZE_CELLS_num CARD_SIZE_CELLS_def CARD_SIZE_BYTES_def)
  ultimately show ?thesis
    unfolding clear_page_cards_def Let_def is_dirty_clear_cards by (auto simp: is_dirty_def)
qed

definition decommit_cells :: "page_heap \<Rightarrow> nat \<Rightarrow> page_heap" where
  "decommit_cells h idx =
     (if os_answers h (os_calls h)
      then h\<lparr>cells := fill_range (cells h) (idx * PAGE_SIZE_CELLS) PAGE_SIZE_CELLS 0,
             os_calls := Suc (Suc (os_calls h))\<rparr>
      else h\<lparr>os_calls := Suc (Suc (os_calls h))\<rparr>)"

lemma decommit_page_unfold:
  "decommit_page h idx =
     (if \<not> idx < n_pages h then (Inl (OutOfRange idx), h)
      else if \<not> is_committed h idx then (Inr (), h)
      else if os_answers h (os_calls h) \<and> os_answers h (Suc (os_calls h))
      then (Inr (), (decommit_cells h idx)\<lparr>
              committed_bits := bit1_unset (committed_bits h) idx,
              committed_count := committed_count h - 1,
              cards := clear_page_cards (cards h) idx\<rparr>)
      else (Inl OsRefused, decommit_cells h idx))"
  by (simp add: decommit_page_def os_call_def decommit_cells_def Let_def)

lemma decommit_page_frame:
  assumes "decommit_page h idx = (r, h')"
  shows "n_pages h' = n_pages h" "base_ptr h' = base_ptr h" "descs h' = descs h"
    "free_page_list h' = free_page_list h" "start_bits h' = start_bits h"
    "mark_bits h' = mark_bits h" "alloc_regions h' = alloc_regions h"
    "pages_high_water h' = pages_high_water h" "poisoned h' = poisoned h"
    "pinned_cells h' = pinned_cells h" "explicit_pins h' = explicit_pins h"
    "c div PAGE_SIZE_CELLS \<noteq> idx \<Longrightarrow> cells h' c = cells h c"
proof -
  have out: "c div PAGE_SIZE_CELLS \<noteq> idx \<Longrightarrow>
      fill_range m (idx * PAGE_SIZE_CELLS) PAGE_SIZE_CELLS 0 c = m c" for m :: "nat \<Rightarrow> u64"
    by (rule fill_range_out) (auto simp: PAGE_SIZE_CELLS_num div_nat_eqI)
  show "n_pages h' = n_pages h" "base_ptr h' = base_ptr h" "descs h' = descs h"
    "free_page_list h' = free_page_list h" "start_bits h' = start_bits h"
    "mark_bits h' = mark_bits h" "alloc_regions h' = alloc_regions h"
    "pages_high_water h' = pages_high_water h" "poisoned h' = poisoned h"
    "pinned_cells h' = pinned_cells h" "explicit_pins h' = explicit_pins h"
    "c div PAGE_SIZE_CELLS \<noteq> idx \<Longrightarrow> cells h' c = cells h c"
    using assms out [of "cells h"]
    by (auto simp: decommit_page_unfold decommit_cells_def split: if_splits)
qed

lemma decommit_page_cells:
  assumes "decommit_page h idx = (r, h')"
  shows "cells h' c = cells h c \<or> cells h' c = 0"
  using assms by (auto simp: decommit_page_unfold decommit_cells_def fill_range_def split: if_splits)

lemma decommit_page_committed:
  assumes "decommit_page h idx = (r, h')"
  shows "is_committed h' i \<longleftrightarrow>
    is_committed h i \<and> \<not> (i = idx \<and> r = Inr ())"
  using assms
  by (auto simp: decommit_page_unfold decommit_cells_def is_committed_def bitmap_simps split: if_splits)

lemma decommit_page_zero:
  assumes "decommit_page h idx = (Inr (), h')" "is_committed h idx" "c div PAGE_SIZE_CELLS = idx"
  shows "cells h' c = 0"
proof -
  have "idx * PAGE_SIZE_CELLS \<le> c" "c < idx * PAGE_SIZE_CELLS + PAGE_SIZE_CELLS"
    using assms(3) by (auto simp: PAGE_SIZE_CELLS_num)
  then show ?thesis
    using assms(1,2)
    by (auto simp: decommit_page_unfold decommit_cells_def is_committed_def split: if_splits)
qed

lemma reservation_ok_decommit:
  assumes ok: "reservation_ok h" and d: "decommit_page h idx = (r, h')"
  shows "reservation_ok h'"
proof -
  note f = decommit_page_frame [OF d] and i = decommit_page_committed [OF d]
  have cards: "n_cards (cards h') = n_cards (cards h)"
    using d by (auto simp: decommit_page_unfold decommit_cells_def split: if_splits)
  have count: "committed_count h' = card {i. is_committed h' i}"
  proof (cases "r = Inr () \<and> is_committed h idx")
    case True
    have "{i. is_committed h' i} = {i. is_committed h i} - {idx}" using True by (auto simp: i)
    moreover have "committed_count h' = committed_count h - 1"
      using d True by (auto simp: decommit_page_unfold decommit_cells_def is_committed_def split: if_splits)
    ultimately show ?thesis using ok True by (simp add: reservation_ok_def)
  next
    case False
    then have "{i. is_committed h' i} = {i. is_committed h i}" by (auto simp: i)
    moreover have "committed_count h' = committed_count h"
      using d False by (auto simp: decommit_page_unfold decommit_cells_def split: if_splits)
    ultimately show ?thesis using ok by (simp add: reservation_ok_def)
  qed
  have "cells h' c = 0"
    if "c div PAGE_SIZE_CELLS < n_pages h" "\<not> is_committed h' (c div PAGE_SIZE_CELLS)" for c
  proof (cases "is_committed h (c div PAGE_SIZE_CELLS)")
    case True
    then have "c div PAGE_SIZE_CELLS = idx" "r = Inr ()" using that(2) by (auto simp: i)
    then show ?thesis using decommit_page_zero [of h idx h' c] d True by simp
  next
    case False
    then have "cells h c = 0" using ok that(1) by (simp add: reservation_ok_def)
    then show ?thesis using decommit_page_cells [OF d, of c] by auto
  qed
  then show ?thesis
    using ok count by (simp add: reservation_ok_def reserved_bytes_def f cards)
qed

text \<open>
  C31. Commit and decommit keep the reservation well-formed (the counter counts the commit
  bits, uncommitted memory holds no bytes), whatever the operating system answers. A
  successful commit that reports a fresh page hands out 64 KB of zeros, so the allocator may
  skip its safety zero; a failed or idempotent one changes no memory; a successful decommit
  leaves the page uncommitted and, if it was committed, its cells zero and its cards clean.
\<close>

theorem commit_decommit_reservation:
  assumes "reservation_ok h"
  shows "reservation_ok (snd (commit_page h idx)) \<and> reservation_ok (snd (decommit_page h idx)) \<and>
    (fst (commit_page h idx) = Inr True \<longrightarrow>
       (\<forall>c. c div PAGE_SIZE_CELLS = idx \<longrightarrow> cells (snd (commit_page h idx)) c = 0)) \<and>
    cells (snd (commit_page h idx)) = cells h \<and>
    (fst (decommit_page h idx) = Inr () \<longrightarrow> \<not> is_committed (snd (decommit_page h idx)) idx) \<and>
    (fst (decommit_page h idx) = Inr () \<and> is_committed h idx \<longrightarrow>
       (\<forall>c. c div PAGE_SIZE_CELLS = idx \<longrightarrow> cells (snd (decommit_page h idx)) c = 0) \<and>
       (\<forall>c. c div cards_per_page = idx \<longrightarrow> \<not> is_dirty (cards (snd (decommit_page h idx))) c))"
proof -
  obtain r h' where c: "commit_page h idx = (r, h')" by fastforce
  obtain s k where d: "decommit_page h idx = (s, k)" by fastforce
  have "cells h c = 0" if "r = Inr True" "c div PAGE_SIZE_CELLS = idx" for c
    using that commit_page_result(2) [OF c] assms by (simp add: reservation_ok_def)
  moreover have "cells k c = 0" if "s = Inr ()" "is_committed h idx" "c div PAGE_SIZE_CELLS = idx" for c
    using decommit_page_zero [of h idx k c] d that by simp
  moreover have "\<not> is_dirty (cards k) c" if "s = Inr ()" "is_committed h idx" "c div cards_per_page = idx" for c
    using d that by (auto simp: decommit_page_unfold decommit_cells_def is_dirty_clear_page_cards
        is_committed_def split: if_splits)
  ultimately show ?thesis
    using reservation_ok_commit [OF assms c] reservation_ok_decommit [OF assms d]
      commit_page_frame(3) [OF c] decommit_page_committed [OF d, of idx]
    by (simp add: c d)
qed

theorem commit_decommit_reservation_witness:
  "reservation_ok (snd (commit_page (with_reservation 65536 (\<lambda>_. True) 65536) 0)) \<and>
   fst (commit_page (with_reservation 65536 (\<lambda>_. True) 65536) 0) = Inr True"
proof -
  have "div_ceil 65536 65536 = 1" by (simp add: div_ceil_def)
  then have "reservation_ok (with_reservation 65536 (\<lambda>_. True) 65536)"
    by (intro reservation_ok_initial) (simp_all add: PAGE_SIZE_BYTES_def)
  moreover have "fst (commit_page (with_reservation 65536 (\<lambda>_. True) 65536) 0) = Inr True"
    by (simp add: commit_page_def os_call_def is_committed_def with_reservation_def Let_def
        bit1_test_bit div_ceil_def PAGE_SIZE_BYTES_def)
  ultimately show ?thesis using commit_decommit_reservation by blast
qed

end
