(* ===== verification/Alloc.thy ===== *)
theory Alloc
  imports Page_Heap
begin

text \<open>
  The page allocator of \<^verbatim>\<open>page_heap/alloc.rs\<close>: releasing and acquiring pages, bump allocation
  into a region, TLAB slabs and large objects. A function that allocates returns
  \<open>(result, heap)\<close> inside an option whose \<open>None\<close> is the panic of \<open>region_index\<close> on a
  generation or kind without a region; an inner \<open>None\<close> is the \<open>None\<close> the code returns.

  The invariant \<open>alloc_ok\<close> says what the page table, the regions, the start bits and the
  cells promise each other; the locale \<open>allocator\<close> states the contract a client of any
  allocation operation relies on, and is interpreted on each of the code's operations.
\<close>

section \<open>Pages\<close>

definition recycle_live_counts_active_for :: "page_heap \<Rightarrow> generation \<Rightarrow> bool" where
  "recycle_live_counts_active_for h g \<longleftrightarrow> recycle_live_counts_target h = Some g"

definition release_page_to_free :: "page_heap \<Rightarrow> nat \<Rightarrow> bool \<Rightarrow> page_heap" where
  "release_page_to_free h idx z =
     (let h = (if z then desc_update h idx desc_release_zeroed else desc_update h idx desc_release)
      in h\<lparr>free_page_list := idx # free_page_list h\<rparr>)"

text \<open>The pop loop of \<open>acquire_free_page\<close>: stale entries are dropped until a Free page shows up.\<close>

fun pop_free_page :: "page_desc list \<Rightarrow> nat list \<Rightarrow> nat option \<times> nat list" where
  "pop_free_page ds [] = (None, [])"
| "pop_free_page ds (i # is) =
     (if pgen (ds ! i) = Gen_Free then (Some i, is) else pop_free_page ds is)"

text \<open>The fallback scan; the \<open>debug_assert\<close> before it is compiled out of release builds.\<close>

definition scan_free_page :: "page_heap \<Rightarrow> nat option" where
  "scan_free_page h = find (\<lambda>i. pgen (desc h i) = Gen_Free) [0..<n_pages h]"

definition raise_high_water :: "page_heap \<Rightarrow> nat \<Rightarrow> page_heap" where
  "raise_high_water h bound =
     (if bound > pages_high_water h then h\<lparr>pages_high_water := bound\<rparr> else h)"

definition zero_page_cells :: "page_heap \<Rightarrow> nat \<Rightarrow> page_heap" where
  "zero_page_cells h idx =
     h\<lparr>cells := fill_range (cells h) (idx * PAGE_SIZE_CELLS) PAGE_SIZE_CELLS 0\<rparr>"

definition acquire_free_page :: "page_heap \<Rightarrow> generation \<Rightarrow> page_kind \<Rightarrow> nat option \<times> page_heap" where
  "acquire_free_page h g k =
     (let (found, rest) = pop_free_page (descs h) (free_page_list h);
          h = h\<lparr>free_page_list := rest\<rparr>;
          found = (case found of None \<Rightarrow> scan_free_page h | Some i \<Rightarrow> Some i)
      in case found of
           None \<Rightarrow> (None, h)
         | Some idx \<Rightarrow>
             (let h = raise_high_water h (idx + 1) in
              case commit_page h idx of
                (Inl e, h) \<Rightarrow> (None, h)
              | (Inr freshly_zeroed, h) \<Rightarrow>
                  (let already_zero = (freshly_zeroed \<or> zeroed (desc h idx));
                       h = desc_update h idx (\<lambda>d. desc_fresh g k);
                       h = h\<lparr>start_bits := clear_page_start_bits (start_bits h) idx\<rparr>;
                       h = (if \<not> already_zero then zero_page_cells h idx else h)
                   in (Some idx, h))))"

section \<open>Bump allocation\<close>

text \<open>The region of \<open>(g, k)\<close> and the two updates of it; a panic without one.\<close>

definition charge_bytes :: "page_heap \<Rightarrow> nat \<Rightarrow> page_heap" where
  "charge_bytes h n_cells =
     h\<lparr>bytes_alloc_since_gc := (bytes_alloc_since_gc h + n_cells * 8) mod 2 ^ 64\<rparr>"

definition try_bump_in_current ::
  "page_heap \<Rightarrow> generation \<Rightarrow> page_kind \<Rightarrow> nat \<Rightarrow> bool \<Rightarrow> (u64 option \<times> page_heap) option" where
  "try_bump_in_current h g k n_cells as_cons =
     (case alloc_region h g k of
        None \<Rightarrow> None
      | Some r \<Rightarrow>
          (case current_page r of
             None \<Rightarrow> Some (None, h)
           | Some page_idx \<Rightarrow>
               if offset r + n_cells > PAGE_SIZE_CELLS then Some (None, h)
               else
                 (let alloc_offset = offset r in
                  case page_ptr h page_idx of
                    None \<Rightarrow> None
                  | Some page_base \<Rightarrow>
                      (let ptr = page_base + of_nat (8 * alloc_offset);
                           idx = global_cell_index h page_idx alloc_offset;
                           h = alloc_region_update h g k (\<lambda>r. r\<lparr>offset := offset r + n_cells\<rparr>);
                           h = desc_update h page_idx
                                 (\<lambda>d. d\<lparr>words_used := saturating_add (words_used d) (of_nat n_cells)\<rparr>);
                           h = (if as_cons
                                then h\<lparr>start_bits := set_cons_start_bit_at (start_bits h) idx\<rparr>
                                else h\<lparr>start_bits := set_start_bit_at (start_bits h) idx\<rparr>);
                           h = charge_bytes h n_cells
                       in Some (Some ptr, h)))))"

definition young_cap_reached :: "page_heap \<Rightarrow> generation \<Rightarrow> bool" where
  "young_cap_reached h g \<longleftrightarrow>
     g = G0 \<and> \<not> recycle_live_counts_active_for h G0 \<and> count_pages_in_gen h G0 \<ge> young_page_cap h"

definition open_region_on ::
  "page_heap \<Rightarrow> generation \<Rightarrow> page_kind \<Rightarrow> nat \<Rightarrow> page_heap" where
  "open_region_on h g k new_page =
     alloc_region_update h g k (\<lambda>r. r\<lparr>current_page := Some new_page, offset := 0\<rparr>)"

definition try_alloc_in_region ::
  "page_heap \<Rightarrow> generation \<Rightarrow> page_kind \<Rightarrow> nat \<Rightarrow> bool \<Rightarrow> (u64 option \<times> page_heap) option" where
  "try_alloc_in_region h g k n_cells as_cons =
     (if poisoned h then Some (None, h)
      else case try_bump_in_current h g k n_cells as_cons of
        None \<Rightarrow> None
      | Some (Some ptr, h) \<Rightarrow> Some (Some ptr, h)
      | Some (None, h) \<Rightarrow>
          if young_cap_reached h g then Some (None, h)
          else (case acquire_free_page h g k of
                  (None, h) \<Rightarrow> Some (None, h)
                | (Some new_page, h) \<Rightarrow>
                    try_bump_in_current (open_region_on h g k new_page) g k n_cells as_cons))"

definition try_alloc_cons_in :: "page_heap \<Rightarrow> generation \<Rightarrow> (u64 option \<times> page_heap) option" where
  "try_alloc_cons_in h g = try_alloc_in_region h g Kind_Cons 2 True"

definition try_alloc_boxed_in ::
  "page_heap \<Rightarrow> generation \<Rightarrow> nat \<Rightarrow> (u64 option \<times> page_heap) option" where
  "try_alloc_boxed_in h g n_cells =
     (if n_cells = 0 \<or> n_cells > PAGE_SIZE_CELLS then Some (None, h)
      else try_alloc_in_region h g Kind_Boxed n_cells False)"

section \<open>TLAB slabs\<close>

definition carve_tlab_in_current ::
  "page_heap \<Rightarrow> generation \<Rightarrow> page_kind \<Rightarrow> nat \<Rightarrow> ((u64 \<times> nat \<times> nat) option \<times> page_heap) option" where
  "carve_tlab_in_current h g k want =
     (case alloc_region h g k of
        None \<Rightarrow> None
      | Some r \<Rightarrow>
          (case current_page r of
             None \<Rightarrow> Some (None, h)
           | Some page_idx \<Rightarrow>
               (let off = offset r; avail = PAGE_SIZE_CELLS - offset r in
                if avail = 0 then Some (None, h)
                else
                  (let slab = min want avail in
                   case page_ptr h page_idx of
                     None \<Rightarrow> None
                   | Some page_base \<Rightarrow>
                       (let ptr = page_base + of_nat (8 * off);
                            h = alloc_region_update h g k (\<lambda>r. r\<lparr>offset := offset r + slab\<rparr>);
                            h = desc_update h page_idx
                                  (\<lambda>d. d\<lparr>words_used := saturating_add (words_used d) (of_nat slab)\<rparr>)
                        in Some (Some (ptr, page_idx, slab), h))))))"

definition reserve_tlab ::
  "page_heap \<Rightarrow> generation \<Rightarrow> page_kind \<Rightarrow> nat \<Rightarrow> nat \<Rightarrow>
     ((u64 \<times> nat \<times> nat) option \<times> page_heap) option" where
  "reserve_tlab h g k min_cells want_cells =
     (if poisoned h then Some (None, h)
      else
        (let mn = max min_cells 1 in
         if mn > PAGE_SIZE_CELLS then None
         else
           (let want = min (max want_cells mn) PAGE_SIZE_CELLS in
            case alloc_region h g k of
              None \<Rightarrow> None
            | Some r \<Rightarrow>
                (let avail_now = (if has_page r then PAGE_SIZE_CELLS - offset r else 0) in
                 if avail_now \<ge> mn then carve_tlab_in_current h g k want
                 else if young_cap_reached h g then Some (None, h)
                 else (case acquire_free_page h g k of
                         (None, h) \<Rightarrow> Some (None, h)
                       | (Some new_page, h) \<Rightarrow>
                           carve_tlab_in_current (open_region_on h g k new_page) g k want)))))"

section \<open>Large objects\<close>

text \<open>\<open>find_contiguous_free_pages\<close>: the scan with its two loop variables.\<close>

fun find_run :: "page_desc list \<Rightarrow> nat \<Rightarrow> nat \<Rightarrow> nat \<Rightarrow> nat \<Rightarrow> nat option" where
  "find_run [] n i run_start run_len = None"
| "find_run (d # ds) n i run_start run_len =
     (if pgen d = Gen_Free
      then (let run_start = (if run_len = 0 then i else run_start); run_len = run_len + 1 in
            if run_len \<ge> n then Some run_start else find_run ds n (i + 1) run_start run_len)
      else find_run ds n (i + 1) run_start 0)"

definition find_contiguous_free_pages :: "page_heap \<Rightarrow> nat \<Rightarrow> nat option" where
  "find_contiguous_free_pages h n = find_run (descs h) n 0 0 0"

text \<open>One page of the run: commit, stamp, zero, clear its start bits.\<close>

definition stamp_large_page ::
  "page_heap \<Rightarrow> generation \<Rightarrow> nat \<Rightarrow> nat \<Rightarrow> nat \<Rightarrow> (unit option \<times> page_heap)" where
  "stamp_large_page h g run_pages start_idx i =
     (let idx = start_idx + i in
      case commit_page h idx of
        (Inl e, h) \<Rightarrow> (None, h)
      | (Inr freshly_zeroed, h) \<Rightarrow>
          (let already_zero = (freshly_zeroed \<or> zeroed (desc h idx));
               d = (desc_fresh g Kind_Large)\<lparr>words_used := of_nat PAGE_SIZE_CELLS\<rparr>;
               d = (if i = 0 then d\<lparr>n_span := of_nat run_pages\<rparr> else d);
               h = desc_update h idx (\<lambda>_. d);
               h = (if \<not> already_zero then zero_page_cells h idx else h);
               h = h\<lparr>start_bits := clear_page_start_bits (start_bits h) idx\<rparr>
           in (Some (), h)))"

fun stamp_large_run ::
  "page_heap \<Rightarrow> generation \<Rightarrow> nat \<Rightarrow> nat \<Rightarrow> nat list \<Rightarrow> (unit option \<times> page_heap)" where
  "stamp_large_run h g run_pages start_idx [] = (Some (), h)"
| "stamp_large_run h g run_pages start_idx (i # is) =
     (case stamp_large_page h g run_pages start_idx i of
        (None, h) \<Rightarrow> (None, h)
      | (Some u, h) \<Rightarrow> stamp_large_run h g run_pages start_idx is)"

definition try_alloc_large :: "page_heap \<Rightarrow> nat \<Rightarrow> generation \<Rightarrow> u64 option \<times> page_heap" where
  "try_alloc_large h n_cells g =
     (if poisoned h then (None, h)
      else
        (let run_pages = div_ceil n_cells PAGE_SIZE_CELLS in
         if g = G0 \<and> \<not> recycle_live_counts_active_for h G0 \<and>
            count_pages_in_gen h G0 + run_pages > young_page_cap h
         then (None, h)
         else (case find_contiguous_free_pages h run_pages of
                 None \<Rightarrow> (None, h)
               | Some start_idx \<Rightarrow>
                   (let h = raise_high_water h (start_idx + run_pages) in
                    case stamp_large_run h g run_pages start_idx [0..<run_pages] of
                      (None, h) \<Rightarrow> (None, h)
                    | (Some u, h) \<Rightarrow>
                        (let head_cell = start_idx * PAGE_SIZE_CELLS;
                             h = h\<lparr>start_bits := set_start_bit_at (start_bits h) head_cell\<rparr>;
                             h = charge_bytes h n_cells
                         in (page_ptr h start_idx, h))))))"

section \<open>The allocator's invariant\<close>

text \<open>
  A cell is in use when its page is in a generation and it lies below the page's bump
  pointer. A page in use is committed, and above its bump pointer it has no start bit and
  only zero cells; a Free page that claims to be zeroed is.
\<close>

definition cell_used :: "page_heap \<Rightarrow> nat \<Rightarrow> bool" where
  "cell_used h c \<longleftrightarrow>
     c div PAGE_SIZE_CELLS < n_pages h \<and> pgen (descs h ! (c div PAGE_SIZE_CELLS)) \<noteq> Gen_Free \<and>
     c mod PAGE_SIZE_CELLS < unat (words_used (descs h ! (c div PAGE_SIZE_CELLS)))"

definition page_ok :: "page_heap \<Rightarrow> nat \<Rightarrow> bool" where
  "page_ok h i \<longleftrightarrow>
     (if pgen (descs h ! i) = Gen_Free
      then zeroed (descs h ! i) \<longrightarrow> (\<forall>c. c div PAGE_SIZE_CELLS = i \<longrightarrow> cells h c = 0)
      else is_committed h i \<and> unat (words_used (descs h ! i)) \<le> PAGE_SIZE_CELLS \<and>
        (\<forall>c. c div PAGE_SIZE_CELLS = i \<and> unat (words_used (descs h ! i)) \<le> c mod PAGE_SIZE_CELLS \<longrightarrow>
           \<not> is_start_at (start_bits h) c \<and> cells h c = 0))"

definition region_ok :: "page_heap \<Rightarrow> generation \<Rightarrow> page_kind \<Rightarrow> bool" where
  "region_ok h g k \<longleftrightarrow>
     (\<forall>r p. alloc_region h g k = Some r \<and> current_page r = Some p \<longrightarrow>
        p < n_pages h \<and> pgen (descs h ! p) = g \<and> kind (descs h ! p) = k \<and>
        unat (words_used (descs h ! p)) = offset r)"

definition alloc_ok :: "page_heap \<Rightarrow> bool" where
  "alloc_ok h \<longleftrightarrow>
     reservation_ok h \<and> (\<forall>i < n_pages h. page_ok h i) \<and> (\<forall>g k. region_ok h g k) \<and>
     pages_high_water h \<le> n_pages h \<and>
     (\<forall>i < n_pages h. pages_high_water h \<le> i \<longrightarrow> pgen (descs h ! i) = Gen_Free) \<and>
     set (free_page_list h) \<subseteq> {..< n_pages h}"

text \<open>
  What a successful allocation of \<open>n\<close> cells at cell \<open>c\<close> gives: the cells were not in use,
  exactly they become in use, they read zero, and the cells in use before keep their contents
  and their start bits.
\<close>

definition grants :: "page_heap \<Rightarrow> page_heap \<Rightarrow> nat \<Rightarrow> nat \<Rightarrow> bool" where
  "grants h h' c n \<longleftrightarrow>
     n_pages h' = n_pages h \<and> base_ptr h' = base_ptr h \<and> c + n \<le> total_cells_of h \<and>
     (\<forall>x. cell_used h' x \<longleftrightarrow> cell_used h x \<or> (c \<le> x \<and> x < c + n)) \<and>
     (\<forall>x. c \<le> x \<and> x < c + n \<longrightarrow> \<not> cell_used h x \<and> cells h' x = 0) \<and>
     (\<forall>x. cell_used h x \<longrightarrow> cells h' x = cells h x \<and>
        is_start_at (start_bits h') x = is_start_at (start_bits h) x \<and>
        is_cons_start_at (start_bits h') x = is_cons_start_at (start_bits h) x)"

text \<open>
  A small object placed at \<open>c\<close>: inside one page, which belongs to the generation and kind asked
  for, and its only start bit is at its first cell.
\<close>

definition object_placed ::
  "page_heap \<Rightarrow> nat \<Rightarrow> nat \<Rightarrow> generation \<Rightarrow> page_kind \<Rightarrow> bool \<Rightarrow> bool" where
  "object_placed h c n g k as_cons \<longleftrightarrow>
     c div PAGE_SIZE_CELLS = (c + n - 1) div PAGE_SIZE_CELLS \<and>
     pgen (descs h ! (c div PAGE_SIZE_CELLS)) = g \<and> kind (descs h ! (c div PAGE_SIZE_CELLS)) = k \<and>
     (\<forall>x. c \<le> x \<and> x < c + n \<longrightarrow> is_start_at (start_bits h) x = (x = c)) \<and>
     (as_cons \<longrightarrow> is_cons_start_at (start_bits h) c)"

text \<open>Nothing a client sees changed.\<close>

definition same_used :: "page_heap \<Rightarrow> page_heap \<Rightarrow> bool" where
  "same_used h h' \<longleftrightarrow>
     n_pages h' = n_pages h \<and> base_ptr h' = base_ptr h \<and>
     (\<forall>x. cell_used h' x \<longleftrightarrow> cell_used h x) \<and>
     (\<forall>x. cell_used h x \<longrightarrow> cells h' x = cells h x \<and>
        is_start_at (start_bits h') x = is_start_at (start_bits h) x \<and>
        is_cons_start_at (start_bits h') x = is_cons_start_at (start_bits h) x)"

lemma page_cell_bound: "c div PAGE_SIZE_CELLS < n \<longleftrightarrow> c < n * PAGE_SIZE_CELLS"
  by (simp add: PAGE_SIZE_CELLS_num div_less_iff_less_mult)

lemma page_cell_div [simp]: "off < PAGE_SIZE_CELLS \<Longrightarrow> (p * PAGE_SIZE_CELLS + off) div PAGE_SIZE_CELLS = p"
  by (simp add: PAGE_SIZE_CELLS_num)

lemma page_cell_mod [simp]: "off < PAGE_SIZE_CELLS \<Longrightarrow> (p * PAGE_SIZE_CELLS + off) mod PAGE_SIZE_CELLS = off"
  by (simp add: PAGE_SIZE_CELLS_num)

lemma page_range_iff:
  assumes "off + n \<le> PAGE_SIZE_CELLS"
  shows "p * PAGE_SIZE_CELLS + off \<le> x \<and> x < p * PAGE_SIZE_CELLS + off + n \<longleftrightarrow>
    x div PAGE_SIZE_CELLS = p \<and> off \<le> x mod PAGE_SIZE_CELLS \<and> x mod PAGE_SIZE_CELLS < off + n"
proof -
  obtain q m where x: "x = q * 8192 + m" "m < 8192" "x div 8192 = q" "x mod 8192 = m"
    by (metis div_mult_mod_eq mod_less_divisor zero_less_numeral)
  have "p * 8192 + off \<le> q * 8192 + m \<and> q * 8192 + m < p * 8192 + off + n \<longleftrightarrow>
      q = p \<and> off \<le> m \<and> m < off + n"
  proof (cases "q = p")
    case False
    then consider "q + 1 \<le> p" | "p + 1 \<le> q" by linarith
    then show ?thesis
      using x(2) assms unfolding PAGE_SIZE_CELLS_num by cases linarith+
  qed auto
  then show ?thesis unfolding PAGE_SIZE_CELLS_num x(3,4) unfolding x(1) .
qed

lemma whole_page_iff:
  "p * PAGE_SIZE_CELLS \<le> x \<and> x < p * PAGE_SIZE_CELLS + PAGE_SIZE_CELLS \<longleftrightarrow> x div PAGE_SIZE_CELLS = p"
  using page_range_iff [of 0 PAGE_SIZE_CELLS p x] by (simp add: PAGE_SIZE_CELLS_num)

lemma zero_page_cells_at:
  "cells (zero_page_cells h p) x = (if x div PAGE_SIZE_CELLS = p then 0 else cells h x)"
  using whole_page_iff [of p x] by (auto simp: zero_page_cells_def fill_range_def)

lemma zero_page_cells_sel [simp]:
  "descs (zero_page_cells h p) = descs h" "start_bits (zero_page_cells h p) = start_bits h"
  "n_pages (zero_page_cells h p) = n_pages h" "base_ptr (zero_page_cells h p) = base_ptr h"
  "alloc_regions (zero_page_cells h p) = alloc_regions h" "cards (zero_page_cells h p) = cards h"
  "free_page_list (zero_page_cells h p) = free_page_list h" "poisoned (zero_page_cells h p) = poisoned h"
  "pages_high_water (zero_page_cells h p) = pages_high_water h"
  "committed_bits (zero_page_cells h p) = committed_bits h" "mark_bits (zero_page_cells h p) = mark_bits h"
  "young_page_cap (zero_page_cells h p) = young_page_cap h"
  "pinned_cells (zero_page_cells h p) = pinned_cells h"
  "committed_count (zero_page_cells h p) = committed_count h"
  by (simp_all add: zero_page_cells_def)

text \<open>The memory part of \<open>reservation_ok\<close> survives writes to committed pages.\<close>

lemma reservation_ok_update:
  assumes "reservation_ok h" "n_pages h' = n_pages h" "base_ptr h' = base_ptr h"
    "length (descs h') = length (descs h)" "n_cards (cards h') = n_cards (cards h)"
    "committed_bits h' = committed_bits h" "committed_count h' = committed_count h"
    "\<And>c. cells h' c \<noteq> cells h c \<Longrightarrow> cells h' c = 0 \<or> is_committed h (c div PAGE_SIZE_CELLS)"
  shows "reservation_ok h'"
proof -
  have "is_committed h' = is_committed h" using assms(2,6) by (auto simp: is_committed_def)
  moreover have "cells h' c = 0" if "c div PAGE_SIZE_CELLS < n_pages h" "\<not> is_committed h (c div PAGE_SIZE_CELLS)" for c
    using assms(1) assms(8) [of c] that
    by (cases "cells h' c = cells h c") (auto simp: reservation_ok_def)
  ultimately show ?thesis
    using assms by (simp add: reservation_ok_def reserved_bytes_def)
qed

lemma page_ok_cong:
  assumes "page_ok h i" "descs h' ! i = descs h ! i" "is_committed h i \<Longrightarrow> is_committed h' i"
    "\<And>c. c div PAGE_SIZE_CELLS = i \<Longrightarrow> cells h' c = cells h c"
    "\<And>c. c div PAGE_SIZE_CELLS = i \<Longrightarrow> is_start_at (start_bits h') c = is_start_at (start_bits h) c"
  shows "page_ok h' i"
  using assms unfolding page_ok_def by (auto split: if_splits)

lemma alloc_region_cong: "alloc_regions h' = alloc_regions h \<Longrightarrow> alloc_region h' g k = alloc_region h g k"
  by (simp add: alloc_region_def)

lemma region_ok_cong:
  assumes "region_ok h g k" "alloc_region h' g k = alloc_region h g k" "n_pages h' = n_pages h"
    "\<And>p. p < n_pages h \<Longrightarrow> pgen (descs h ! p) = g \<Longrightarrow> descs h' ! p = descs h ! p"
  shows "region_ok h' g k"
  using assms unfolding region_ok_def by auto

lemma region_gen_not_free: "alloc_region h g k = Some r \<Longrightarrow> g \<noteq> Gen_Free"
  by (auto simp: alloc_region_def)

lemma pop_free_page_props:
  "pop_free_page ds l = (r, rest) \<Longrightarrow> set rest \<subseteq> set l \<and>
     (case r of None \<Rightarrow> rest = [] \<and> (\<forall>i \<in> set l. pgen (ds ! i) \<noteq> Gen_Free)
      | Some i \<Rightarrow> i \<in> set l \<and> pgen (ds ! i) = Gen_Free)"
  by (induction l arbitrary: r rest) (auto split: if_splits option.splits)

lemma raise_high_water_sel [simp]:
  "descs (raise_high_water h b) = descs h" "cells (raise_high_water h b) = cells h"
  "n_pages (raise_high_water h b) = n_pages h" "base_ptr (raise_high_water h b) = base_ptr h"
  "start_bits (raise_high_water h b) = start_bits h" "cards (raise_high_water h b) = cards h"
  "mark_bits (raise_high_water h b) = mark_bits h"
  "alloc_regions (raise_high_water h b) = alloc_regions h"
  "free_page_list (raise_high_water h b) = free_page_list h"
  "committed_bits (raise_high_water h b) = committed_bits h"
  "committed_count (raise_high_water h b) = committed_count h"
  "young_page_cap (raise_high_water h b) = young_page_cap h"
  "pinned_cells (raise_high_water h b) = pinned_cells h"
  "poisoned (raise_high_water h b) = poisoned h" "os_calls (raise_high_water h b) = os_calls h"
  "os_answers (raise_high_water h b) = os_answers h"
  "pages_high_water (raise_high_water h b) = max (pages_high_water h) b"
  by (simp_all add: raise_high_water_def)

text \<open>Everything an acquisition leaves unread but the free list, the bound and the OS stream.\<close>

lemma reservation_ok_sel:
  "reservation_ok (h\<lparr>free_page_list := l\<rparr>) = reservation_ok h"
  "reservation_ok (raise_high_water h b) = reservation_ok h"
  by (auto simp: reservation_ok_def reserved_bytes_def is_committed_def)

lemma acquire_free_page_cases:
  assumes a: "acquire_free_page h g k = (r, h')"
  obtains (exhausted) "r = None" "\<forall>i < n_pages h. pgen (descs h ! i) \<noteq> Gen_Free"
      "h' = h\<lparr>free_page_list := []\<rparr>"
  | (refused) idx rest e where "r = None" "idx < n_pages h \<or> idx \<in> set (free_page_list h)"
      "pgen (descs h ! idx) = Gen_Free" "set rest \<subseteq> set (free_page_list h)"
      "commit_page (raise_high_water (h\<lparr>free_page_list := rest\<rparr>) (idx + 1)) idx = (Inl e, h')"
  | (acquired) idx rest h2 fresh where "r = Some idx"
      "idx < n_pages h \<or> idx \<in> set (free_page_list h)"
      "pgen (descs h ! idx) = Gen_Free" "set rest \<subseteq> set (free_page_list h)"
      "commit_page (raise_high_water (h\<lparr>free_page_list := rest\<rparr>) (idx + 1)) idx = (Inr fresh, h2)"
      "h' = (let h3 = (desc_update h2 idx (\<lambda>d. desc_fresh g k))\<lparr>
                  start_bits := clear_page_start_bits (start_bits h2) idx\<rparr>
             in if fresh \<or> zeroed (descs h ! idx) then h3 else zero_page_cells h3 idx)"
proof -
  obtain fd rest where pop: "pop_free_page (descs h) (free_page_list h) = (fd, rest)" by fastforce
  note pp = pop_free_page_props [OF pop]
  define h0 where "h0 = h\<lparr>free_page_list := rest\<rparr>"
  define found where "found = (case fd of None \<Rightarrow> scan_free_page h0 | Some i \<Rightarrow> Some i)"
  show ?thesis
  proof (cases found)
    case None
    then have fd: "fd = None" and n: "scan_free_page h0 = None"
      by (auto simp: found_def split: option.splits)
    then have "\<forall>i < n_pages h. pgen (descs h ! i) \<noteq> Gen_Free"
      by (auto simp: scan_free_page_def find_None_iff h0_def desc_def)
    moreover have "r = None" "h' = h\<lparr>free_page_list := []\<rparr>"
      using a n pp by (auto simp: acquire_free_page_def pop fd h0_def)
    ultimately show ?thesis using exhausted by blast
  next
    case (Some idx)
    have free: "(idx < n_pages h \<or> idx \<in> set (free_page_list h)) \<and> pgen (descs h ! idx) = Gen_Free"
    proof (cases fd)
      case None
      then have "scan_free_page h0 = Some idx" using Some by (simp add: found_def)
      then show ?thesis by (auto simp: scan_free_page_def find_Some_iff h0_def desc_def)
    next
      case (Some i)
      then show ?thesis using pp \<open>found = Some idx\<close> by (simp add: found_def)
    qed
    have rest: "set rest \<subseteq> set (free_page_list h)" using pp by simp
    have eq: "acquire_free_page h g k =
        (case commit_page (raise_high_water h0 (idx + 1)) idx of
           (Inl e, h) \<Rightarrow> (None, h)
         | (Inr fresh, h) \<Rightarrow>
             (let already_zero = (fresh \<or> zeroed (desc h idx));
                  h = desc_update h idx (\<lambda>d. desc_fresh g k);
                  h = h\<lparr>start_bits := clear_page_start_bits (start_bits h) idx\<rparr>;
                  h = (if \<not> already_zero then zero_page_cells h idx else h)
              in (Some idx, h)))"
      unfolding acquire_free_page_def pop Let_def prod.case h0_def
        Some [unfolded found_def h0_def] option.case ..
    obtain cr h2 where c: "commit_page (raise_high_water h0 (idx + 1)) idx = (cr, h2)" by fastforce
    show ?thesis
    proof (cases cr)
      case (Inl e)
      then show ?thesis using refused [of idx rest e] a free rest c eq by (simp add: h0_def)
    next
      case (Inr fresh)
      have "descs h2 = descs h" using commit_page_frame(4) [OF c] by (simp add: h0_def)
      then show ?thesis
        using acquired [of idx rest fresh h2] a free rest c eq Inr
        by (auto simp: h0_def Let_def desc_def desc_update_def)
    qed
  qed
qed

lemma desc_update_sel [simp]:
  "descs (desc_update h i f) = (descs h)[i := f (descs h ! i)]"
  "cells (desc_update h i f) = cells h" "n_pages (desc_update h i f) = n_pages h"
  "base_ptr (desc_update h i f) = base_ptr h" "start_bits (desc_update h i f) = start_bits h"
  "cards (desc_update h i f) = cards h" "mark_bits (desc_update h i f) = mark_bits h"
  "alloc_regions (desc_update h i f) = alloc_regions h" "poisoned (desc_update h i f) = poisoned h"
  "free_page_list (desc_update h i f) = free_page_list h"
  "committed_bits (desc_update h i f) = committed_bits h"
  "committed_count (desc_update h i f) = committed_count h"
  "pages_high_water (desc_update h i f) = pages_high_water h"
  "pinned_cells (desc_update h i f) = pinned_cells h"
  "explicit_pins (desc_update h i f) = explicit_pins h"
  "young_page_cap (desc_update h i f) = young_page_cap h"
  "recycle_live_counts_target (desc_update h i f) = recycle_live_counts_target h"
  by (simp_all add: desc_update_def)

lemma alloc_okI:
  assumes "reservation_ok h" "\<And>i. i < n_pages h \<Longrightarrow> page_ok h i" "\<And>g k. region_ok h g k"
    "pages_high_water h \<le> n_pages h" "set (free_page_list h) \<subseteq> {..< n_pages h}"
    "\<And>i. i < n_pages h \<Longrightarrow> pages_high_water h \<le> i \<Longrightarrow> pgen (descs h ! i) = Gen_Free"
  shows "alloc_ok h"
  using assms by (simp add: alloc_ok_def)

lemma alloc_okD:
  assumes "alloc_ok h"
  shows "reservation_ok h" "i < n_pages h \<Longrightarrow> page_ok h i" "region_ok h g k"
    "pages_high_water h \<le> n_pages h" "set (free_page_list h) \<subseteq> {..< n_pages h}"
    "i < n_pages h \<Longrightarrow> pages_high_water h \<le> i \<Longrightarrow> pgen (descs h ! i) = Gen_Free"
    "length (descs h) = n_pages h"
  using assms by (simp_all add: alloc_ok_def reservation_ok_def)

text \<open>A heap that differs in the free list, the bound, the OS stream and new commits only.\<close>

lemma alloc_ok_relist:
  assumes ok: "alloc_ok h" and r: "reservation_ok h'"
    and eq: "n_pages h' = n_pages h" "descs h' = descs h" "cells h' = cells h"
      "start_bits h' = start_bits h" "alloc_regions h' = alloc_regions h"
    and c: "\<And>i. is_committed h i \<Longrightarrow> is_committed h' i"
    and w: "pages_high_water h \<le> pages_high_water h'" "pages_high_water h' \<le> n_pages h"
    and l: "set (free_page_list h') \<subseteq> {..< n_pages h}"
  shows "alloc_ok h'"
proof -
  have "page_ok h' i" if "i < n_pages h" for i
    by (rule page_ok_cong [OF alloc_okD(2) [OF ok that]]) (simp_all add: eq c)
  moreover have "region_ok h' g k" for g k
    by (rule region_ok_cong [OF alloc_okD(3) [OF ok, of g k]])
      (simp_all add: eq alloc_region_cong [OF eq(5)])
  moreover have "pgen (descs h' ! i) = Gen_Free" if "i < n_pages h" "pages_high_water h' \<le> i" for i
    using alloc_okD(6) [OF ok that(1)] that(2) w(1) by (simp add: eq)
  ultimately show ?thesis
    unfolding alloc_ok_def eq using r w(2) l by blast
qed

lemma acquire_free_page_frame:
  assumes "acquire_free_page h g k = (r, h')"
  shows "n_pages h' = n_pages h" "base_ptr h' = base_ptr h" "alloc_regions h' = alloc_regions h"
    "poisoned h' = poisoned h" "cards h' = cards h" "mark_bits h' = mark_bits h"
    "young_page_cap h' = young_page_cap h" "pinned_cells h' = pinned_cells h"
proof -
  have "n_pages h' = n_pages h \<and> base_ptr h' = base_ptr h \<and> alloc_regions h' = alloc_regions h \<and>
    poisoned h' = poisoned h \<and> cards h' = cards h \<and> mark_bits h' = mark_bits h \<and>
    young_page_cap h' = young_page_cap h \<and> pinned_cells h' = pinned_cells h"
    using assms
  proof (cases rule: acquire_free_page_cases)
    case (refused idx rest e)
    show ?thesis by (simp add: commit_page_frame [OF refused(5)])
  next
    case (acquired idx rest h2 fresh)
    show ?thesis
      unfolding acquired(6) Let_def
      by (simp add: commit_page_frame [OF acquired(5)])
  qed simp
  then show "n_pages h' = n_pages h" "base_ptr h' = base_ptr h" "alloc_regions h' = alloc_regions h"
    "poisoned h' = poisoned h" "cards h' = cards h" "mark_bits h' = mark_bits h"
    "young_page_cap h' = young_page_cap h" "pinned_cells h' = pinned_cells h"
    by simp_all
qed

lemma acquire_none:
  assumes a: "acquire_free_page h g k = (None, h')"
  shows "descs h' = descs h \<and> cells h' = cells h \<and> start_bits h' = start_bits h"
  using a
proof (cases rule: acquire_free_page_cases)
  case (refused idx rest e)
  show ?thesis by (simp add: commit_page_frame [OF refused(5)])
qed simp_all

lemma acquire_none_ok:
  assumes ok: "alloc_ok h" and a: "acquire_free_page h g k = (None, h')"
  shows "alloc_ok h'"
  using a
proof (cases rule: acquire_free_page_cases)
  case exhausted
  show ?thesis
    using ok unfolding exhausted
    by (intro alloc_ok_relist [OF ok]) (auto simp: reservation_ok_sel alloc_okD is_committed_def)
next
  case (refused idx rest e)
  have idx: "idx < n_pages h" using refused(2) alloc_okD(5) [OF ok] by auto
  have "reservation_ok (raise_high_water (h\<lparr>free_page_list := rest\<rparr>) (idx + 1))"
    using alloc_okD(1) [OF ok] by (simp add: reservation_ok_sel)
  then have r: "reservation_ok h'" using reservation_ok_commit refused(5) by blast
  have c: "is_committed h' i" if "is_committed h i" for i
    using that commit_page_committed [OF refused(5), of i] by (simp add: is_committed_def)
  show ?thesis
    using refused(4) alloc_okD(4,5) [OF ok] idx
    by (intro alloc_ok_relist [OF ok r]) (auto simp: commit_page_frame [OF refused(5)] c)
qed auto

lemma acquire_some:
  assumes ok: "alloc_ok h" and a: "acquire_free_page h g k = (Some idx, h')"
  shows "idx < n_pages h" "pgen (descs h ! idx) = Gen_Free"
    "descs h' = (descs h)[idx := desc_fresh g k]"
    "cells h' x = (if x div PAGE_SIZE_CELLS = idx then 0 else cells h x)"
    "is_start_at (start_bits h') x = (is_start_at (start_bits h) x \<and> x div PAGE_SIZE_CELLS \<noteq> idx)"
    "is_cons_start_at (start_bits h') x = (is_cons_start_at (start_bits h) x \<and> x div PAGE_SIZE_CELLS \<noteq> idx)"
    "is_committed h' i \<longleftrightarrow> is_committed h i \<or> i = idx"
    "pages_high_water h' = max (pages_high_water h) (idx + 1)"
    "set (free_page_list h') \<subseteq> set (free_page_list h)"
    "reservation_ok h'"
proof -
  from a obtain rest h2 fresh where idx: "idx < n_pages h \<or> idx \<in> set (free_page_list h)"
    and free: "pgen (descs h ! idx) = Gen_Free" and rest: "set rest \<subseteq> set (free_page_list h)"
    and c: "commit_page (raise_high_water (h\<lparr>free_page_list := rest\<rparr>) (idx + 1)) idx = (Inr fresh, h2)"
    and h': "h' = (let h3 = (desc_update h2 idx (\<lambda>d. desc_fresh g k))\<lparr>
                  start_bits := clear_page_start_bits (start_bits h2) idx\<rparr>
             in if fresh \<or> zeroed (descs h ! idx) then h3 else zero_page_cells h3 idx)"
    by (cases rule: acquire_free_page_cases) auto
  let ?h1 = "raise_high_water (h\<lparr>free_page_list := rest\<rparr>) (idx + 1)"
  note f = commit_page_frame [OF c, simplified] and cc = commit_page_committed [OF c]
  show bound: "idx < n_pages h" using idx alloc_okD(5) [OF ok] by auto
  show "pgen (descs h ! idx) = Gen_Free" by (rule free)
  have committed: "is_committed ?h1 i = is_committed h i" for i by (simp add: is_committed_def)
  have zero: "cells h x = 0" if "fresh \<or> zeroed (descs h ! idx)" "x div PAGE_SIZE_CELLS = idx" for x
    using that(1)
  proof
    assume fresh
    then have "\<not> is_committed h idx" using commit_page_result(2) [OF c] committed by simp
    then show ?thesis using alloc_okD(1) [OF ok] bound that(2) by (simp add: reservation_ok_def)
  next
    assume "zeroed (descs h ! idx)"
    then show ?thesis using alloc_okD(2) [OF ok bound] free that(2) by (simp add: page_ok_def)
  qed
  have ci: "is_committed h' i \<longleftrightarrow> is_committed h2 i" for i
    by (simp add: h' Let_def is_committed_def)
  then show "is_committed h' i \<longleftrightarrow> is_committed h i \<or> i = idx"
    using commit_page_result(1,3) [OF c] cc [of i] committed by auto
  show "descs h' = (descs h)[idx := desc_fresh g k]" by (simp add: h' Let_def f)
  show cl: "cells h' x = (if x div PAGE_SIZE_CELLS = idx then 0 else cells h x)" for x
    using zero [of x] by (auto simp: h' Let_def f zero_page_cells_at)
  show "is_start_at (start_bits h') x = (is_start_at (start_bits h) x \<and> x div PAGE_SIZE_CELLS \<noteq> idx)"
    "is_cons_start_at (start_bits h') x = (is_cons_start_at (start_bits h) x \<and> x div PAGE_SIZE_CELLS \<noteq> idx)"
    by (simp_all add: h' Let_def f bitmap_simps)
  show "pages_high_water h' = max (pages_high_water h) (idx + 1)" by (simp add: h' Let_def f)
  show "set (free_page_list h') \<subseteq> set (free_page_list h)" using rest by (simp add: h' Let_def f)
  have "reservation_ok h2"
    using alloc_okD(1) [OF ok] c reservation_ok_commit by (metis reservation_ok_sel)
  then show "reservation_ok h'"
    by (rule reservation_ok_update) (auto simp: h' Let_def zero_page_cells_at split: if_splits)
qed

lemma acquire_some_ok:
  assumes ok: "alloc_ok h" and a: "acquire_free_page h g k = (Some idx, h')" and g: "g \<noteq> Gen_Free"
  shows "alloc_ok h'"
proof -
  note s = acquire_some [OF ok a] and f = acquire_free_page_frame [OF a]
  have len: "length (descs h) = n_pages h" by (rule alloc_okD(7) [OF ok])
  have "page_ok h' i" if i: "i < n_pages h" for i
  proof (cases "i = idx")
    case True
    then show ?thesis
      using i g by (simp add: page_ok_def s(3,4,5,7) len)
  next
    case False
    show ?thesis
      by (rule page_ok_cong [OF alloc_okD(2) [OF ok i]]) (use False in \<open>auto simp: s(3,4,5,7)\<close>)
  qed
  moreover have "region_ok h' g' k'" for g' k'
  proof -
    have "g' \<noteq> Gen_Free" if "alloc_region h g' k' = Some r" for r
      using region_gen_not_free [OF that] .
    moreover have "region_ok h g' k'" by (rule alloc_okD(3) [OF ok])
    ultimately show ?thesis
      unfolding region_ok_def alloc_region_cong [OF f(3)] f(1) s(3)
      by (metis nth_list_update_neq s(2))
  qed
  moreover have "pgen (descs h' ! i) = Gen_Free" if "i < n_pages h" "pages_high_water h' \<le> i" for i
    using alloc_okD(6) [OF ok that(1)] that(2) by (simp add: s(3,8))
  ultimately show ?thesis
    using s(1,8,9,10) alloc_okD(4,5) [OF ok] unfolding alloc_ok_def f(1) by auto
qed

lemma alloc_region_update_sel [simp]:
  "descs (alloc_region_update h g k f) = descs h" "cells (alloc_region_update h g k f) = cells h"
  "n_pages (alloc_region_update h g k f) = n_pages h" "base_ptr (alloc_region_update h g k f) = base_ptr h"
  "start_bits (alloc_region_update h g k f) = start_bits h" "cards (alloc_region_update h g k f) = cards h"
  "mark_bits (alloc_region_update h g k f) = mark_bits h"
  "poisoned (alloc_region_update h g k f) = poisoned h"
  "free_page_list (alloc_region_update h g k f) = free_page_list h"
  "committed_bits (alloc_region_update h g k f) = committed_bits h"
  "committed_count (alloc_region_update h g k f) = committed_count h"
  "pages_high_water (alloc_region_update h g k f) = pages_high_water h"
  "pinned_cells (alloc_region_update h g k f) = pinned_cells h"
  "explicit_pins (alloc_region_update h g k f) = explicit_pins h"
  "young_page_cap (alloc_region_update h g k f) = young_page_cap h"
  "recycle_live_counts_target (alloc_region_update h g k f) = recycle_live_counts_target h"
  by (simp_all add: alloc_region_update_def split: option.splits)

lemma alloc_region_update_region:
  assumes "alloc_region h g k = Some r"
  shows "alloc_region (alloc_region_update h g k f) g' k' =
    (if g' = g \<and> k' = k then Some (f r) else alloc_region h g' k')"
proof -
  obtain ix where ix: "region_index g k = Some ix" and r: "r = alloc_regions h ix"
    using assms by (auto simp: alloc_region_def)
  show ?thesis
  proof (cases "region_index g' k'")
    case None
    then show ?thesis using ix by (auto simp: alloc_region_def)
  next
    case (Some jx)
    have "jx = ix \<longleftrightarrow> g' = g \<and> k' = k"
      using ix Some region_index_inj [of g k ix g' k'] by auto
    then show ?thesis
      using ix r Some by (simp add: alloc_region_def alloc_region_update_def)
  qed
qed

lemma alloc_region_desc_update [simp]: "alloc_region (desc_update h i f) g k = alloc_region h g k"
  by (simp add: alloc_region_def)

lemma alloc_region_start_bits [simp]: "alloc_region (h\<lparr>start_bits := b\<rparr>) g k = alloc_region h g k"
  by (simp add: alloc_region_def)

lemma is_committed_update [simp]:
  "is_committed (desc_update h i f) j = is_committed h j"
  "is_committed (alloc_region_update h g k r) j = is_committed h j"
  "is_committed (h\<lparr>start_bits := b\<rparr>) j = is_committed h j"
  by (simp_all add: is_committed_def)

lemma reservation_ok_sel2 [simp]:
  "reservation_ok (desc_update h i f) = reservation_ok h"
  "reservation_ok (alloc_region_update h g k r) = reservation_ok h"
  "reservation_ok (h\<lparr>start_bits := b\<rparr>) = reservation_ok h"
  by (auto simp: reservation_ok_def reserved_bytes_def is_committed_def)

lemma open_region_ok:
  assumes ok: "alloc_ok h" and r: "alloc_region h g k = Some r"
    and p: "p < n_pages h" "descs h ! p = desc_fresh g k"
  shows "alloc_ok (open_region_on h g k p)"
proof -
  let ?h = "open_region_on h g k p"
  have "page_ok ?h i" if "i < n_pages h" for i
    by (rule page_ok_cong [OF alloc_okD(2) [OF ok that]]) (simp_all add: open_region_on_def)
  moreover have "region_ok ?h g' k'" for g' k'
    using alloc_okD(3) [OF ok, of g' k'] p
    by (auto simp: region_ok_def open_region_on_def alloc_region_update_region [OF r] split: if_splits)
  ultimately show ?thesis
    using alloc_okD [OF ok] by (intro alloc_okI) (simp_all add: open_region_on_def)
qed

text \<open>Advancing a region and its page's bump pointer together.\<close>

definition bump_words :: "page_heap \<Rightarrow> generation \<Rightarrow> page_kind \<Rightarrow> nat \<Rightarrow> nat \<Rightarrow> page_heap" where
  "bump_words h g k p n =
     desc_update (alloc_region_update h g k (\<lambda>r. r\<lparr>offset := offset r + n\<rparr>)) p
       (\<lambda>d. d\<lparr>words_used := saturating_add (words_used d) (of_nat n)\<rparr>)"

lemma bump_words_facts:
  assumes ok: "alloc_ok h" and r: "alloc_region h g k = Some r" "current_page r = Some p"
    and fit: "offset r + n \<le> PAGE_SIZE_CELLS"
  defines "c \<equiv> p * PAGE_SIZE_CELLS + offset r"
  shows "alloc_ok (bump_words h g k p n)"
    "cell_used (bump_words h g k p n) x \<longleftrightarrow> cell_used h x \<or> (c \<le> x \<and> x < c + n)"
    "c \<le> x \<Longrightarrow> x < c + n \<Longrightarrow> \<not> cell_used h x \<and> cells h x = 0"
    "c + n \<le> total_cells_of h" "p < n_pages h"
proof -
  let ?h = "bump_words h g k p n"
  have reg: "region_ok h g k" by (rule alloc_okD(3) [OF ok])
  then show p: "p < n_pages h" using r by (auto simp: region_ok_def)
  have d: "pgen (descs h ! p) = g" "kind (descs h ! p) = k" "unat (words_used (descs h ! p)) = offset r"
    using reg r by (auto simp: region_ok_def)
  have g: "g \<noteq> Gen_Free" using r(1) by (rule region_gen_not_free)
  have len: "length (descs h) = n_pages h" by (rule alloc_okD(7) [OF ok])
  have un: "unat (saturating_add (words_used (descs h ! p)) (of_nat n)) = offset r + n"
    using fit by (simp add: unat_saturating_add d PAGE_SIZE_CELLS_num unat_of_nat)
  have descs: "descs ?h = (descs h)[p := (descs h ! p)\<lparr>words_used :=
      saturating_add (words_used (descs h ! p)) (of_nat n)\<rparr>]"
    by (simp add: bump_words_def)
  have pok: "page_ok h p" by (rule alloc_okD(2) [OF ok p])
  have range: "c \<le> x \<and> x < c + n \<longleftrightarrow> x div PAGE_SIZE_CELLS = p \<and>
      offset r \<le> x mod PAGE_SIZE_CELLS \<and> x mod PAGE_SIZE_CELLS < offset r + n" for x
    unfolding c_def by (rule page_range_iff [OF fit])
  show "cell_used ?h x \<longleftrightarrow> cell_used h x \<or> (c \<le> x \<and> x < c + n)"
    using p d g un unfolding range
    by (cases "x div PAGE_SIZE_CELLS = p") (auto simp: cell_used_def descs len bump_words_def)
  show "\<not> cell_used h x \<and> cells h x = 0" if "c \<le> x" "x < c + n"
    using pok that d g range [of x] by (auto simp: page_ok_def cell_used_def)
  show "c + n \<le> total_cells_of h"
  proof -
    have "Suc p * PAGE_SIZE_CELLS \<le> n_pages h * PAGE_SIZE_CELLS" using p by (intro mult_le_mono1) simp
    then show ?thesis using fit by (simp add: c_def total_cells_of_def)
  qed
  have "page_ok ?h i" if i: "i < n_pages h" for i
  proof (cases "i = p")
    case True
    then show ?thesis
      using pok p d g un fit by (auto simp: page_ok_def descs len bump_words_def)
  next
    case False
    then show ?thesis
      by (intro page_ok_cong [OF alloc_okD(2) [OF ok i]]) (simp_all add: bump_words_def)
  qed
  moreover have "region_ok ?h g' k'" for g' k'
  proof (cases "g' = g \<and> k' = k")
    case True
    then show ?thesis
      using r p d un by (auto simp: region_ok_def descs len bump_words_def alloc_region_update_region [OF r(1)])
  next
    case False
    have "region_ok h g' k'" by (rule alloc_okD(3) [OF ok])
    then show ?thesis
      using False d p len
      by (auto simp: region_ok_def descs bump_words_def alloc_region_update_region [OF r(1)] nth_list_update
          split: if_splits)
  qed
  moreover have "pgen (descs ?h ! i) = pgen (descs h ! i)" for i
    using p len by (cases "i = p") (simp_all add: descs)
  ultimately show "alloc_ok ?h"
    using alloc_okD [OF ok] by (intro alloc_okI) (simp_all add: bump_words_def)
qed

text \<open>Setting a start bit on a cell in use, and charging the trigger counter.\<close>

lemma alloc_ok_start_bit:
  assumes ok: "alloc_ok h" and c: "cell_used h c"
    and b: "\<And>x. is_start_at b x \<longleftrightarrow> x = c \<or> is_start_at (start_bits h) x"
  shows "alloc_ok (h\<lparr>start_bits := b\<rparr>)"
proof (rule alloc_okI)
  fix i assume "i < n_pages (h\<lparr>start_bits := b\<rparr>)"
  then have "page_ok h i" using alloc_okD(2) [OF ok] by simp
  then show "page_ok (h\<lparr>start_bits := b\<rparr>) i"
    using c by (auto simp: page_ok_def b cell_used_def)
next
  show "region_ok (h\<lparr>start_bits := b\<rparr>) g k" for g k
    by (rule region_ok_cong [OF alloc_okD(3) [OF ok, of g k]]) simp_all
qed (use alloc_okD [OF ok] in simp_all)

lemma charge_bytes_sel [simp]:
  "descs (charge_bytes h n) = descs h" "cells (charge_bytes h n) = cells h"
  "n_pages (charge_bytes h n) = n_pages h" "base_ptr (charge_bytes h n) = base_ptr h"
  "start_bits (charge_bytes h n) = start_bits h" "cards (charge_bytes h n) = cards h"
  "mark_bits (charge_bytes h n) = mark_bits h" "poisoned (charge_bytes h n) = poisoned h"
  "alloc_regions (charge_bytes h n) = alloc_regions h"
  "free_page_list (charge_bytes h n) = free_page_list h"
  "pages_high_water (charge_bytes h n) = pages_high_water h"
  "pinned_cells (charge_bytes h n) = pinned_cells h"
  "young_page_cap (charge_bytes h n) = young_page_cap h"
  "is_committed (charge_bytes h n) i = is_committed h i"
  by (simp_all add: charge_bytes_def is_committed_def)

lemma cell_used_sel [simp]:
  "cell_used (charge_bytes h n) c = cell_used h c"
  "cell_used (h\<lparr>start_bits := b\<rparr>) c = cell_used h c"
  by (simp_all add: cell_used_def)

lemma alloc_ok_charge [simp]: "alloc_ok (charge_bytes h n) = alloc_ok h"
proof -
  have "region_ok (charge_bytes h n) g k = region_ok h g k" for g k
    by (simp add: region_ok_def alloc_region_def)
  moreover have "page_ok (charge_bytes h n) i = page_ok h i" for i by (simp add: page_ok_def)
  moreover have "reservation_ok (charge_bytes h n) = reservation_ok h"
    by (simp add: charge_bytes_def reservation_ok_def reserved_bytes_def is_committed_def)
  ultimately show ?thesis by (simp add: alloc_ok_def)
qed

lemma bump_words_sel [simp]:
  "n_pages (bump_words h g k p n) = n_pages h" "base_ptr (bump_words h g k p n) = base_ptr h"
  "cells (bump_words h g k p n) = cells h" "start_bits (bump_words h g k p n) = start_bits h"
  "cards (bump_words h g k p n) = cards h" "mark_bits (bump_words h g k p n) = mark_bits h"
  "poisoned (bump_words h g k p n) = poisoned h"
  "pinned_cells (bump_words h g k p n) = pinned_cells h"
  by (simp_all add: bump_words_def)

definition set_object_start :: "bool \<Rightarrow> bitmap \<Rightarrow> nat \<Rightarrow> bitmap" where
  "set_object_start as_cons b c = (if as_cons then set_cons_start_bit_at b c else set_start_bit_at b c)"

lemma set_object_start_simps [bitmap_simps]:
  "is_start_at (set_object_start a b c) x \<longleftrightarrow> x = c \<or> is_start_at b x"
  "is_cons_start_at (set_object_start True b c) x \<longleftrightarrow> x = c \<or> is_cons_start_at b x"
  "x \<noteq> c \<Longrightarrow> is_cons_start_at (set_object_start a b c) x = is_cons_start_at b x"
  by (cases a) (simp_all add: set_object_start_def bitmap_simps)

lemma page_ptr_add_cells:
  assumes "p < n_pages h"
  shows "\<exists>b. page_ptr h p = Some b \<and> b + of_nat (8 * off) = cell_addr h (p * PAGE_SIZE_CELLS + off)"
  using assms by (simp add: page_ptr_cell_addr cell_addr_def algebra_simps)

text \<open>The bump path, evaluated: it fails without a page or without room and otherwise grants the cells.\<close>

lemma try_bump_eval:
  assumes ok: "alloc_ok h" and r: "alloc_region h g k = Some r"
  shows "try_bump_in_current h g k n as_cons =
    (case current_page r of
       None \<Rightarrow> Some (None, h)
     | Some p \<Rightarrow>
         if offset r + n > PAGE_SIZE_CELLS then Some (None, h)
         else let c = p * PAGE_SIZE_CELLS + offset r; h1 = bump_words h g k p n in
           Some (Some (cell_addr h c),
             charge_bytes (h1\<lparr>start_bits := set_object_start as_cons (start_bits h) c\<rparr>) n))"
proof (cases "current_page r")
  case None
  then show ?thesis using r by (simp add: try_bump_in_current_def)
next
  case (Some p)
  then have p: "p < n_pages h" using alloc_okD(3) [OF ok, of g k] r by (auto simp: region_ok_def)
  obtain b where b: "page_ptr h p = Some b"
      "b + of_nat (8 * offset r) = cell_addr h (p * PAGE_SIZE_CELLS + offset r)"
    using page_ptr_add_cells [OF p] by blast
  show ?thesis
  proof (cases "offset r + n > PAGE_SIZE_CELLS")
    case True
    then show ?thesis using r Some by (simp add: try_bump_in_current_def)
  next
    case False
    then show ?thesis
      unfolding try_bump_in_current_def r Some option.case b(1) Let_def b(2) global_cell_index_def
        bump_words_def [symmetric] set_object_start_def
      by simp
  qed
qed

lemma try_bump_grants:
  assumes ok: "alloc_ok h" and n: "0 < n"
    and b: "try_bump_in_current h g k n as_cons = Some (Some a, h')"
  shows "alloc_ok h'"
    "\<exists>c. a = cell_addr h c \<and> grants h h' c n \<and> object_placed h' c n g k as_cons"
    "n_pages h' = n_pages h" "base_ptr h' = base_ptr h"
proof -
  obtain r where r: "alloc_region h g k = Some r"
    using b by (auto simp: try_bump_in_current_def split: option.splits)
  note ev = try_bump_eval [OF ok r, of n as_cons, unfolded b]
  obtain p where p: "current_page r = Some p" and fit: "offset r + n \<le> PAGE_SIZE_CELLS"
    using ev by (auto split: option.splits if_splits)
  define c where "c = p * PAGE_SIZE_CELLS + offset r"
  define h1 where "h1 = bump_words h g k p n"
  note bw = bump_words_facts [OF ok r p fit, folded c_def h1_def]
  have h': "h' = charge_bytes (h1\<lparr>start_bits := set_object_start as_cons (start_bits h) c\<rparr>) n"
    and a: "a = cell_addr h c"
    using ev p fit by (simp_all add: Let_def c_def h1_def)
  have h1: "start_bits h1 = start_bits h" "cells h1 = cells h" "n_pages h1 = n_pages h" "base_ptr h1 = base_ptr h"
    by (simp_all add: h1_def)
  have used: "cell_used h1 c" using bw(2) [of c] n by simp
  show "alloc_ok h'"
    unfolding h' alloc_ok_charge
    by (rule alloc_ok_start_bit [OF bw(1) used]) (simp add: bitmap_simps h1)
  have out: "\<not> is_start_at (start_bits h) x" if "c \<le> x" "x < c + n" for x
  proof -
    have rng: "x div PAGE_SIZE_CELLS = p \<and> offset r \<le> x mod PAGE_SIZE_CELLS"
      using that page_range_iff [OF fit, of p x] by (simp add: c_def)
    have "pgen (descs h ! p) = g" "unat (words_used (descs h ! p)) = offset r"
      using alloc_okD(3) [OF ok, of g k] r p by (auto simp: region_ok_def)
    then show ?thesis
      using rng alloc_okD(2) [OF ok bw(5)] region_gen_not_free [OF r] by (auto simp: page_ok_def)
  qed
  have ne: "x \<noteq> c" if "cell_used h x" for x using that bw(3) [of c] n by auto
  have "grants h h' c n"
    unfolding grants_def h'
    using bw(2,3,4) ne by (simp add: bitmap_simps h1)
  moreover have "c div PAGE_SIZE_CELLS = p" "(c + n - 1) div PAGE_SIZE_CELLS = p"
    using page_range_iff [OF fit, of p c] page_range_iff [OF fit, of p "c + n - 1"] n by (auto simp: c_def)
  moreover have "pgen (descs h' ! p) = g \<and> kind (descs h' ! p) = k"
    using alloc_okD(3) [OF ok, of g k] r p bw(5) alloc_okD(7) [OF ok]
    by (auto simp: region_ok_def h' h1_def bump_words_def)
  moreover have "is_start_at (start_bits h') x = (x = c)" if "c \<le> x \<and> x < c + n" for x
    using out [of x] that by (simp add: h' bitmap_simps)
  moreover have "as_cons \<longrightarrow> is_cons_start_at (start_bits h') c"
    by (simp add: h' bitmap_simps)
  ultimately show "\<exists>c. a = cell_addr h c \<and> grants h h' c n \<and> object_placed h' c n g k as_cons"
    using a by (intro exI [of _ c]) (simp add: object_placed_def)
  show "n_pages h' = n_pages h" "base_ptr h' = base_ptr h" by (simp_all add: h' h1_def)
qed

lemma same_used_refl [simp]: "same_used h h"
  by (simp add: same_used_def)

lemma grants_after:
  assumes "same_used h h1" "grants h1 h2 c n"
  shows "grants h h2 c n"
  using assms by (simp add: same_used_def grants_def total_cells_of_def)

lemma cell_addr_same: "base_ptr h' = base_ptr h \<Longrightarrow> cell_addr h' c = cell_addr h c"
  by (simp add: cell_addr_def)

lemma acquire_same_used:
  assumes ok: "alloc_ok h" and a: "acquire_free_page h g k = (r, h')"
  shows "same_used h h'"
proof (cases r)
  case None
  then have "acquire_free_page h g k = (None, h')" using a by simp
  then show ?thesis
    using acquire_none acquire_free_page_frame [OF a] by (simp add: same_used_def cell_used_def)
next
  case (Some idx)
  then have a': "acquire_free_page h g k = (Some idx, h')" using a by simp
  note s = acquire_some [OF ok a'] and f = acquire_free_page_frame [OF a]
  have u: "cell_used h' x \<longleftrightarrow> cell_used h x" for x
    using s(1,2) alloc_okD(7) [OF ok]
    by (cases "x div PAGE_SIZE_CELLS = idx") (auto simp: cell_used_def s(3) f)
  have "x div PAGE_SIZE_CELLS \<noteq> idx" if "cell_used h x" for x
    using that s(2) by (auto simp: cell_used_def)
  then show ?thesis by (simp add: same_used_def f u s(4,5,6))
qed

lemma same_used_open:
  "same_used h (open_region_on h1 g k p) = same_used h h1"
  by (simp add: same_used_def open_region_on_def cell_used_def)

lemma acquire_then_open_ok:
  assumes ok: "alloc_ok h" and r: "alloc_region h g k = Some r"
    and a: "acquire_free_page h g k = (Some idx, h')"
  shows "alloc_ok (open_region_on h' g k idx)"
    "alloc_region (open_region_on h' g k idx) g k = Some (r\<lparr>current_page := Some idx, offset := 0\<rparr>)"
    "same_used h (open_region_on h' g k idx)"
proof -
  note s = acquire_some [OF ok a] and f = acquire_free_page_frame [OF a]
  have r': "alloc_region h' g k = Some r" using r alloc_region_cong [OF f(3)] by simp
  have "descs h' ! idx = desc_fresh g k" using s(1) alloc_okD(7) [OF ok] by (simp add: s(3))
  then show "alloc_ok (open_region_on h' g k idx)"
    using open_region_ok [OF acquire_some_ok [OF ok a region_gen_not_free [OF r]] r'] s(1) f(1) by simp
  show "alloc_region (open_region_on h' g k idx) g k = Some (r\<lparr>current_page := Some idx, offset := 0\<rparr>)"
    unfolding open_region_on_def alloc_region_update_region [OF r'] by simp
  show "same_used h (open_region_on h' g k idx)"
    unfolding same_used_open by (rule acquire_same_used [OF ok a])
qed

lemma region_of_index:
  "alloc_region h g k = None \<longleftrightarrow> g = Gen_Free \<or> (k \<noteq> Kind_Cons \<and> k \<noteq> Kind_Boxed)"
  by (cases g; cases k) (auto simp: alloc_region_def)

text \<open>The slow path as its cases.\<close>

lemma try_alloc_cases:
  assumes ok: "alloc_ok h" and t: "try_alloc_in_region h g k n as_cons = Some (res, h')"
  obtains (poisoned) "poisoned h" "res = None" "h' = h"
  | (fast) a where "res = Some a" "try_bump_in_current h g k n as_cons = Some (Some a, h')"
  | (capped) "res = None" "h' = h" "young_cap_reached h g" "try_bump_in_current h g k n as_cons = Some (None, h)"
  | (no_page) "res = None" "acquire_free_page h g k = (None, h')" "try_bump_in_current h g k n as_cons = Some (None, h)"
  | (fresh) idx h1 where "acquire_free_page h g k = (Some idx, h1)"
      "try_bump_in_current (open_region_on h1 g k idx) g k n as_cons = Some (res, h')"
      "try_bump_in_current h g k n as_cons = Some (None, h)"
proof (cases "poisoned h")
  case True
  then show ?thesis using that(1) t by (simp add: try_alloc_in_region_def)
next
  case False
  obtain b where b: "try_bump_in_current h g k n as_cons = Some b"
    using t False by (auto simp: try_alloc_in_region_def split: option.splits)
  show ?thesis
  proof (cases "fst b")
    case (Some a)
    then obtain h2 where b': "b = (Some a, h2)" by (cases b) simp
    then show ?thesis using that(2) [of a] t False b
      by (simp add: try_alloc_in_region_def b')
  next
    case None
    obtain r where r: "alloc_region h g k = Some r"
      using b by (auto simp: try_bump_in_current_def split: option.splits)
    have "b = (None, h)"
      using b None try_bump_eval [OF ok r, of n as_cons]
      by (auto simp: Let_def prod_eq_iff split: option.splits if_splits)
    then have b: "try_bump_in_current h g k n as_cons = Some (None, h)" using b by simp
    obtain ar h1 where a: "acquire_free_page h g k = (ar, h1)" by fastforce
    have eq: "Some (res, h') = (if young_cap_reached h g then Some (None, h)
        else case ar of None \<Rightarrow> Some (None, h1)
          | Some idx \<Rightarrow> try_bump_in_current (open_region_on h1 g k idx) g k n as_cons)"
      unfolding t [symmetric] try_alloc_in_region_def b option.case prod.case a using False by simp
    show ?thesis
    proof (cases "young_cap_reached h g")
      case True
      then have "res = None" "h' = h" using eq by simp_all
      then show ?thesis using that(3) True b by blast
    next
      case no_cap: False
      show ?thesis
      proof (cases ar)
        case None
        then have "res = None" "acquire_free_page h g k = (None, h')" using eq no_cap a by simp_all
        then show ?thesis using that(4) b by blast
      next
        case (Some idx)
        then have "try_bump_in_current (open_region_on h1 g k idx) g k n as_cons = Some (res, h')"
          using eq no_cap by simp
        then show ?thesis using that(5) a Some b by blast
      qed
    qed
  qed
qed

lemma try_alloc_in_region_ok:
  assumes ok: "alloc_ok h" and n: "0 < n"
    and t: "try_alloc_in_region h g k n as_cons = Some (res, h')"
  shows "alloc_ok h' \<and> (case res of None \<Rightarrow> same_used h h'
    | Some a \<Rightarrow> \<exists>c. a = cell_addr h c \<and> grants h h' c n \<and> object_placed h' c n g k as_cons)"
  using ok t
proof (cases rule: try_alloc_cases)
  case poisoned
  then show ?thesis using ok by simp
next
  case (fast a)
  then show ?thesis using try_bump_grants [OF ok n fast(2)] by simp
next
  case capped
  then show ?thesis using ok by simp
next
  case no_page
  then show ?thesis using acquire_none_ok [OF ok no_page(2)] acquire_same_used [OF ok no_page(2)] by simp
next
  case (fresh idx h1)
  obtain r where r: "alloc_region h g k = Some r"
    using fresh(3) by (auto simp: try_bump_in_current_def split: option.splits)
  note o = acquire_then_open_ok [OF ok r fresh(1)]
  show ?thesis
  proof (cases res)
    case None
    then have "h' = open_region_on h1 g k idx"
      using fresh(2) try_bump_eval [OF o(1,2), of n as_cons] by (auto simp: Let_def split: if_splits)
    then show ?thesis using None o by simp
  next
    case (Some a)
    then have b: "try_bump_in_current (open_region_on h1 g k idx) g k n as_cons = Some (Some a, h')"
      using fresh(2) by simp
    obtain c where c: "a = cell_addr (open_region_on h1 g k idx) c"
        "grants (open_region_on h1 g k idx) h' c n" "object_placed h' c n g k as_cons"
      using try_bump_grants(2) [OF o(1) n b] by blast
    have "base_ptr (open_region_on h1 g k idx) = base_ptr h" using o(3) by (simp add: same_used_def)
    then have "a = cell_addr h c" using c(1) by (simp add: cell_addr_def)
    then show ?thesis
      using Some c(3) grants_after [OF o(3) c(2)] try_bump_grants(1) [OF o(1) n b]
      by (simp, intro exI [of _ c]) simp
  qed
qed

subsection \<open>Slabs\<close>

lemma carve_eval:
  assumes ok: "alloc_ok h" and r: "alloc_region h g k = Some r"
  shows "carve_tlab_in_current h g k want =
    (case current_page r of
       None \<Rightarrow> Some (None, h)
     | Some p \<Rightarrow>
         if PAGE_SIZE_CELLS - offset r = 0 then Some (None, h)
         else let slab = min want (PAGE_SIZE_CELLS - offset r) in
           Some (Some (cell_addr h (p * PAGE_SIZE_CELLS + offset r), p, slab), bump_words h g k p slab))"
proof (cases "current_page r")
  case None
  then show ?thesis using r by (simp add: carve_tlab_in_current_def)
next
  case (Some p)
  then have p: "p < n_pages h" using alloc_okD(3) [OF ok, of g k] r by (auto simp: region_ok_def)
  obtain b where b: "page_ptr h p = Some b"
      "b + of_nat (8 * offset r) = cell_addr h (p * PAGE_SIZE_CELLS + offset r)"
    using page_ptr_add_cells [OF p] by blast
  show ?thesis
    unfolding carve_tlab_in_current_def r Some option.case b(1) Let_def b(2) bump_words_def [symmetric] ..
qed

text \<open>A slab carved from a region with room for \<open>m\<close> cells, when \<open>m\<close> to \<open>w\<close> are wanted.\<close>

lemma carve_grants:
  assumes ok: "alloc_ok h" and r: "alloc_region h g k = Some r" and m: "0 < m" "m \<le> w"
    and room: "m \<le> remaining_cells r"
  shows "\<exists>p slab h' c. carve_tlab_in_current h g k w = Some (Some (cell_addr h c, p, slab), h') \<and>
    alloc_ok h' \<and> m \<le> slab \<and> slab \<le> w \<and> grants h h' c slab \<and> start_bits h' = start_bits h \<and>
    c div PAGE_SIZE_CELLS = p \<and> (c + slab - 1) div PAGE_SIZE_CELLS = p"
proof -
  obtain p where p: "current_page r = Some p" and av: "m \<le> PAGE_SIZE_CELLS - offset r"
    using room m by (auto simp: remaining_cells_def has_page_def split: if_splits)
  define slab where "slab = min w (PAGE_SIZE_CELLS - offset r)"
  define c where "c = p * PAGE_SIZE_CELLS + offset r"
  have fit: "offset r + slab \<le> PAGE_SIZE_CELLS" using av m by (simp add: slab_def)
  note bw = bump_words_facts [OF ok r p fit, folded c_def]
  have b: "m \<le> slab" "slab \<le> w" using av m by (simp_all add: slab_def)
  have "carve_tlab_in_current h g k w = Some (Some (cell_addr h c, p, slab), bump_words h g k p slab)"
    using carve_eval [OF ok r, of w] p av m by (simp add: slab_def c_def Let_def not_le)
  moreover have "grants h (bump_words h g k p slab) c slab"
    using bw(2,3,4) by (simp add: grants_def)
  moreover have "c div PAGE_SIZE_CELLS = p" "(c + slab - 1) div PAGE_SIZE_CELLS = p"
    using page_range_iff [OF fit, of p c] page_range_iff [OF fit, of p "c + slab - 1"] m b
    by (auto simp: c_def)
  ultimately show ?thesis using bw(1) b by (intro exI) (auto)
qed

definition slab_granted ::
  "page_heap \<Rightarrow> page_heap \<Rightarrow> nat \<Rightarrow> nat \<Rightarrow> u64 \<times> nat \<times> nat \<Rightarrow> bool" where
  "slab_granted h h' mn want = (\<lambda>(a, p, slab).
     mn \<le> slab \<and> slab \<le> want \<and>
     (\<exists>c. a = cell_addr h c \<and> grants h h' c slab \<and>
        c div PAGE_SIZE_CELLS = p \<and> (c + slab - 1) div PAGE_SIZE_CELLS = p \<and>
        (\<forall>x. c \<le> x \<and> x < c + slab \<longrightarrow> \<not> is_start_at (start_bits h') x)))"

lemma unused_no_start:
  assumes ok: "alloc_ok h" and p: "x div PAGE_SIZE_CELLS < n_pages h"
    "pgen (descs h ! (x div PAGE_SIZE_CELLS)) \<noteq> Gen_Free" and u: "\<not> cell_used h x"
  shows "\<not> is_start_at (start_bits h) x \<and> cells h x = 0"
  using alloc_okD(2) [OF ok p(1)] p u by (auto simp: page_ok_def cell_used_def)

lemma carve_slab_granted:
  assumes ok: "alloc_ok h" and r: "alloc_region h g k = Some r" and m: "0 < m" "m \<le> w"
    and room: "m \<le> remaining_cells r"
  obtains s h' where "carve_tlab_in_current h g k w = Some (Some s, h')" "alloc_ok h'"
    "slab_granted h h' m w s"
proof -
  obtain p slab h' c where e: "carve_tlab_in_current h g k w = Some (Some (cell_addr h c, p, slab), h')"
    and h': "alloc_ok h'" "m \<le> slab" "slab \<le> w" "grants h h' c slab" "start_bits h' = start_bits h"
      "c div PAGE_SIZE_CELLS = p" "(c + slab - 1) div PAGE_SIZE_CELLS = p"
    using carve_grants [OF assms] by blast
  have "\<not> is_start_at (start_bits h) x" if "c \<le> x" "x < c + slab" for x
  proof -
    have "x div PAGE_SIZE_CELLS = p"
      using that h'(6,7) div_le_mono [of c x PAGE_SIZE_CELLS] div_le_mono [of x "c + slab - 1" PAGE_SIZE_CELLS]
      by simp
    moreover have "\<exists>q. current_page r = Some q \<and> p = q"
      using e m h'(2) room carve_eval [OF ok r, of w]
      by (auto simp: Let_def split: option.splits if_splits)
    ultimately have "x div PAGE_SIZE_CELLS < n_pages h" "pgen (descs h ! (x div PAGE_SIZE_CELLS)) = g"
      using alloc_okD(3) [OF ok, of g k] r by (auto simp: region_ok_def)
    moreover have "\<not> cell_used h x" using h'(4) that by (simp add: grants_def)
    ultimately show ?thesis using unused_no_start [OF ok, of x] region_gen_not_free [OF r] by auto
  qed
  then have "slab_granted h h' m w (cell_addr h c, p, slab)"
    unfolding slab_granted_def prod.case using h'(2-7) by (intro conjI exI [of _ c]) simp_all
  with e h'(1) show ?thesis by (rule that)
qed

lemma reserve_tlab_ok:
  assumes ok: "alloc_ok h" and t: "reserve_tlab h g k mn want = Some (res, h')"
  shows "alloc_ok h' \<and> (case res of None \<Rightarrow> same_used h h'
    | Some s \<Rightarrow> slab_granted h h' (max mn 1) (min (max want (max mn 1)) PAGE_SIZE_CELLS) s)"
proof (cases "poisoned h")
  case True
  then show ?thesis using t ok by (simp add: reserve_tlab_def)
next
  case False
  define m where "m = max mn 1"
  define w where "w = min (max want m) PAGE_SIZE_CELLS"
  have m: "m \<le> PAGE_SIZE_CELLS" "0 < m"
    using t False by (auto simp: reserve_tlab_def m_def Let_def split: if_splits)
  then have mw: "m \<le> w" by (simp add: w_def)
  obtain r where r: "alloc_region h g k = Some r"
    using t False m by (auto simp: reserve_tlab_def m_def Let_def split: option.splits if_splits)
  have eq: "Some (res, h') =
      (if remaining_cells r \<ge> m then carve_tlab_in_current h g k w
       else if young_cap_reached h g then Some (None, h)
       else (case acquire_free_page h g k of
               (None, h) \<Rightarrow> Some (None, h)
             | (Some new_page, h) \<Rightarrow> carve_tlab_in_current (open_region_on h g k new_page) g k w))"
    unfolding t [symmetric] reserve_tlab_def m_def [symmetric] w_def [symmetric] Let_def r
    using False m by (simp add: remaining_cells_def)
  show ?thesis
  proof (cases "remaining_cells r \<ge> m")
    case True
    obtain s h2 where s: "carve_tlab_in_current h g k w = Some (Some s, h2)" "alloc_ok h2"
        "slab_granted h h2 m w s"
      by (rule carve_slab_granted [OF ok r m(2) mw True])
    then show ?thesis using eq True by (simp add: m_def w_def)
  next
    case no_room: False
    obtain ar h1 where a: "acquire_free_page h g k = (ar, h1)" by fastforce
    show ?thesis
    proof (cases ar)
      case None
      then have "acquire_free_page h g k = (None, h1)" using a by simp
      then show ?thesis
        using eq no_room ok acquire_none_ok [OF ok] acquire_same_used [OF ok]
        by (auto split: if_splits)
    next
      case (Some idx)
      then have a': "acquire_free_page h g k = (Some idx, h1)" using a by simp
      note o = acquire_then_open_ok [OF ok r a']
      let ?h1 = "open_region_on h1 g k idx"
      have room: "m \<le> remaining_cells (r\<lparr>current_page := Some idx, offset := 0\<rparr>)"
        using m by (simp add: remaining_cells_def has_page_def)
      obtain s h2 where s: "carve_tlab_in_current ?h1 g k w = Some (Some s, h2)" "alloc_ok h2"
          "slab_granted ?h1 h2 m w s"
        by (rule carve_slab_granted [OF o(1,2) m(2) mw room])
      have b: "base_ptr ?h1 = base_ptr h" using o(3) by (simp add: same_used_def)
      have "slab_granted h h2 m w s"
        using s(3) grants_after [OF o(3)] unfolding slab_granted_def cell_addr_same [OF b] by auto
      then show ?thesis
        using eq no_room a' s ok by (auto simp: m_def w_def split: if_splits)
    qed
  qed
qed

subsection \<open>Runs of Free pages\<close>

definition free_run :: "page_desc list \<Rightarrow> nat \<Rightarrow> nat \<Rightarrow> bool" where
  "free_run ds s n \<longleftrightarrow> s + n \<le> length ds \<and> (\<forall>j < n. pgen (ds ! (s + j)) = Gen_Free)"

text \<open>The scan's invariant: \<open>len\<close> Free pages end just before \<open>i\<close> and no run of \<open>n\<close> started earlier.\<close>

lemma find_run_spec:
  assumes "0 < n" "i \<le> length D" "len < n" "len \<le> i" "0 < len \<Longrightarrow> st = i - len"
    "\<And>j. i - len \<le> j \<Longrightarrow> j < i \<Longrightarrow> pgen (D ! j) = Gen_Free"
    "\<And>s. s < i - len \<Longrightarrow> \<not> free_run D s n"
  shows "case find_run (drop i D) n i st len of
      None \<Rightarrow> \<forall>s. \<not> free_run D s n
    | Some s \<Rightarrow> free_run D s n \<and> (\<forall>s' < s. \<not> free_run D s' n)"
  using assms
proof (induction "length D - i" arbitrary: i st len)
  case 0
  then have i: "i = length D" by simp
  have "\<not> free_run D s n" for s
  proof (cases "s < i - len")
    case False
    then show ?thesis using 0 i by (simp add: free_run_def)
  qed (use 0 in simp)
  then show ?case by (simp add: i)
next
  case (Suc m)
  then have i: "i < length D" by simp
  have d: "drop i D = D ! i # drop (Suc i) D" using i by (rule Cons_nth_drop_Suc [symmetric])
  show ?case
  proof (cases "pgen (D ! i) = Gen_Free")
    case True
    define st' where "st' = (if len = 0 then i else st)"
    have st': "st' = i - len" using Suc.prems(5) by (auto simp: st'_def)
    have free: "pgen (D ! j) = Gen_Free" if "i - len \<le> j" "j < Suc i" for j
      using that True Suc.prems(6) by (cases "j = i") auto
    show ?thesis
    proof (cases "n \<le> len + 1")
      case True
      then have "n = len + 1" using Suc.prems(3) by simp
      then have "free_run D st' n"
        using free Suc.prems(4) i by (auto simp: free_run_def st')
      moreover have "find_run (drop i D) n i st len = Some st'"
        using \<open>pgen (D ! i) = Gen_Free\<close> True by (simp add: d st'_def Let_def)
      ultimately show ?thesis using Suc.prems(7) by (simp add: st')
    next
      case False
      have "find_run (drop i D) n i st len = find_run (drop (Suc i) D) n (Suc i) st' (len + 1)"
        using \<open>pgen (D ! i) = Gen_Free\<close> False by (simp add: d st'_def Let_def)
      moreover have "case find_run (drop (Suc i) D) n (Suc i) st' (len + 1) of
          None \<Rightarrow> \<forall>s. \<not> free_run D s n
        | Some s \<Rightarrow> free_run D s n \<and> (\<forall>s' < s. \<not> free_run D s' n)"
        using Suc.hyps(2) Suc.prems False free i
        by (intro Suc.hyps(1)) (auto simp: st')
      ultimately show ?thesis by simp
    qed
  next
    case False
    have none: "\<not> free_run D s n" if "s < Suc i - 0" for s
    proof (cases "s < i - len")
      case False
      then have s: "i - s < n" "s + (i - s) = i" using that Suc.prems(3,4) by auto
      then show ?thesis using \<open>pgen (D ! i) \<noteq> Gen_Free\<close> unfolding free_run_def by metis
    qed (use Suc.prems in simp)
    have "find_run (drop i D) n i st len = find_run (drop (Suc i) D) n (Suc i) st 0"
      using False by (simp add: d)
    moreover have "case find_run (drop (Suc i) D) n (Suc i) st 0 of
          None \<Rightarrow> \<forall>s. \<not> free_run D s n
        | Some s \<Rightarrow> free_run D s n \<and> (\<forall>s' < s. \<not> free_run D s' n)"
      using Suc.hyps(2) Suc.prems(1,2) i none
      by (intro Suc.hyps(1)) auto
    ultimately show ?thesis by simp
  qed
qed

lemma find_contiguous_spec:
  assumes "0 < n"
  shows "case find_contiguous_free_pages h n of
      None \<Rightarrow> \<forall>s. \<not> free_run (descs h) s n
    | Some s \<Rightarrow> free_run (descs h) s n \<and> (\<forall>s' < s. \<not> free_run (descs h) s' n)"
  using find_run_spec [of n 0 "descs h" 0 0] assms
  by (simp add: find_contiguous_free_pages_def)

subsection \<open>Large runs\<close>

definition large_desc :: "generation \<Rightarrow> nat \<Rightarrow> nat \<Rightarrow> page_desc" where
  "large_desc g run_pages i =
     (let d = (desc_fresh g Kind_Large)\<lparr>words_used := of_nat PAGE_SIZE_CELLS\<rparr>
      in if i = 0 then d\<lparr>n_span := of_nat run_pages\<rparr> else d)"

lemma large_desc_sel [simp]:
  "pgen (large_desc g m i) = g" "kind (large_desc g m i) = Kind_Large"
  "unat (words_used (large_desc g m i)) = PAGE_SIZE_CELLS"
  "n_span (large_desc g m i) = (if i = 0 then of_nat m else 0)"
  by (simp_all add: large_desc_def Let_def PAGE_SIZE_CELLS_num desc_fresh_def)

lemma stamp_page_facts:
  assumes ok: "alloc_ok h" and g: "g \<noteq> Gen_Free" and p: "s + i < n_pages h" "s + i < pages_high_water h"
    and free: "pgen (descs h ! (s + i)) = Gen_Free"
    and st: "stamp_large_page h g m s i = (r, h')"
  shows "alloc_ok h'" "n_pages h' = n_pages h" "base_ptr h' = base_ptr h"
    "pages_high_water h' = pages_high_water h"
    "r = None \<Longrightarrow> descs h' = descs h \<and> cells h' = cells h \<and> start_bits h' = start_bits h"
    "r \<noteq> None \<Longrightarrow> descs h' = (descs h)[s + i := large_desc g m i]"
    "r \<noteq> None \<Longrightarrow> cells h' x = (if x div PAGE_SIZE_CELLS = s + i then 0 else cells h x)"
    "r \<noteq> None \<Longrightarrow> is_start_at (start_bits h') x = (is_start_at (start_bits h) x \<and> x div PAGE_SIZE_CELLS \<noteq> s + i)"
    "r \<noteq> None \<Longrightarrow> is_cons_start_at (start_bits h') x = (is_cons_start_at (start_bits h) x \<and> x div PAGE_SIZE_CELLS \<noteq> s + i)"
proof -
  define idx where "idx = s + i"
  obtain cr h2 where c: "commit_page h idx = (cr, h2)" by fastforce
  note f = commit_page_frame [OF c] and cc = commit_page_committed [OF c]
  have rok: "reservation_ok h2" by (rule reservation_ok_commit [OF alloc_okD(1) [OF ok] c])
  have ok2: "alloc_ok h2"
    by (rule alloc_ok_relist [OF ok rok]) (simp_all add: f cc alloc_okD [OF ok])
  have len: "length (descs h) = n_pages h" by (rule alloc_okD(7) [OF ok])
  have "alloc_ok h' \<and> n_pages h' = n_pages h \<and> base_ptr h' = base_ptr h \<and>
    pages_high_water h' = pages_high_water h \<and>
    (r = None \<longrightarrow> descs h' = descs h \<and> cells h' = cells h \<and> start_bits h' = start_bits h) \<and>
    (r \<noteq> None \<longrightarrow> descs h' = (descs h)[idx := large_desc g m i] \<and>
      (\<forall>x. cells h' x = (if x div PAGE_SIZE_CELLS = idx then 0 else cells h x)) \<and>
      (\<forall>x. is_start_at (start_bits h') x = (is_start_at (start_bits h) x \<and> x div PAGE_SIZE_CELLS \<noteq> idx)) \<and>
      (\<forall>x. is_cons_start_at (start_bits h') x = (is_cons_start_at (start_bits h) x \<and> x div PAGE_SIZE_CELLS \<noteq> idx)))"
  proof (cases cr)
    case (Inl e)
    then show ?thesis using st c ok2 f by (simp add: stamp_large_page_def idx_def)
  next
    case (Inr fresh)
    let ?h3 = "desc_update h2 idx (\<lambda>_. large_desc g m i)"
    let ?h4 = "if fresh \<or> zeroed (descs h ! idx) then ?h3 else zero_page_cells ?h3 idx"
    have eq: "r = Some () \<and> h' = ?h4\<lparr>start_bits := clear_page_start_bits (start_bits h) idx\<rparr>"
      using st c Inr f(4,6) unfolding idx_def [symmetric]
      by (auto simp: stamp_large_page_def Let_def large_desc_def idx_def desc_def f(4))
    have zero: "cells h x = 0" if "fresh \<or> zeroed (descs h ! idx)" "x div PAGE_SIZE_CELLS = idx" for x
      using that(1)
    proof
      assume fresh
      then have "\<not> is_committed h idx" using commit_page_result(2) [OF c] Inr by simp
      then show ?thesis using alloc_okD(1) [OF ok] p that(2) by (simp add: reservation_ok_def idx_def)
    next
      assume "zeroed (descs h ! idx)"
      then show ?thesis using alloc_okD(2) [OF ok p(1)] free that(2) by (simp add: page_ok_def idx_def)
    qed
    have com: "is_committed h2 idx" using commit_page_result(3) [OF c] Inr by simp
    have d: "descs h' = (descs h)[idx := large_desc g m i]" using eq f by simp
    have cl: "cells h' x = (if x div PAGE_SIZE_CELLS = idx then 0 else cells h x)" for x
      using zero [of x] eq f by (auto simp: zero_page_cells_at)
    have stx: "is_start_at (start_bits h') x = (is_start_at (start_bits h) x \<and> x div PAGE_SIZE_CELLS \<noteq> idx)"
      "is_cons_start_at (start_bits h') x = (is_cons_start_at (start_bits h) x \<and> x div PAGE_SIZE_CELLS \<noteq> idx)" for x
      using eq by (simp_all add: bitmap_simps)
    have misc: "n_pages h' = n_pages h" "base_ptr h' = base_ptr h" "pages_high_water h' = pages_high_water h"
      "free_page_list h' = free_page_list h" "alloc_regions h' = alloc_regions h"
      "\<And>j. is_committed h' j = is_committed h2 j"
      using eq f by (simp_all add: is_committed_def)
    have "reservation_ok h'"
      by (rule reservation_ok_update [OF rok]) (use eq in \<open>auto simp: zero_page_cells_at split: if_splits\<close>)
    moreover have "page_ok h' j" if j: "j < n_pages h" for j
    proof (cases "j = idx")
      case True
      then show ?thesis
        using p g com by (auto simp: page_ok_def d len idx_def misc(6) not_le PAGE_SIZE_CELLS_num)
    next
      case False
      then show ?thesis
        by (intro page_ok_cong [OF alloc_okD(2) [OF ok j]]) (auto simp: d cl stx misc(6) cc)
    qed
    moreover have "region_ok h' g' k'" for g' k'
      using alloc_okD(3) [OF ok, of g' k'] free region_gen_not_free [of h g' k']
      unfolding region_ok_def alloc_region_cong [OF misc(5)] misc(1) d idx_def
      by (metis nth_list_update_neq)
    moreover have "pgen (descs h' ! j) = Gen_Free" if "j < n_pages h" "pages_high_water h \<le> j" for j
      using alloc_okD(6) [OF ok that] that(2) p by (simp add: d idx_def)
    ultimately have "alloc_ok h'"
      using alloc_okD(4,5) [OF ok] by (intro alloc_okI) (simp_all add: misc)
    then show ?thesis using eq d cl stx misc(1-3) by simp
  qed
  then show "alloc_ok h'" "n_pages h' = n_pages h" "base_ptr h' = base_ptr h"
    "pages_high_water h' = pages_high_water h"
    "r = None \<Longrightarrow> descs h' = descs h \<and> cells h' = cells h \<and> start_bits h' = start_bits h"
    "r \<noteq> None \<Longrightarrow> descs h' = (descs h)[s + i := large_desc g m i]"
    "r \<noteq> None \<Longrightarrow> cells h' x = (if x div PAGE_SIZE_CELLS = s + i then 0 else cells h x)"
    "r \<noteq> None \<Longrightarrow> is_start_at (start_bits h') x = (is_start_at (start_bits h) x \<and> x div PAGE_SIZE_CELLS \<noteq> s + i)"
    "r \<noteq> None \<Longrightarrow> is_cons_start_at (start_bits h') x = (is_cons_start_at (start_bits h) x \<and> x div PAGE_SIZE_CELLS \<noteq> s + i)"
    unfolding idx_def by blast+
qed

text \<open>The pages \<open>s + i\<close>, \<open>i\<close> in \<open>I\<close>, stamped as a large run, and nothing else changed.\<close>

definition stamped ::
  "page_heap \<Rightarrow> page_heap \<Rightarrow> generation \<Rightarrow> nat \<Rightarrow> nat \<Rightarrow> nat set \<Rightarrow> bool" where
  "stamped h h' g m s I \<longleftrightarrow>
     n_pages h' = n_pages h \<and> base_ptr h' = base_ptr h \<and> pages_high_water h' = pages_high_water h \<and>
     (\<forall>j < n_pages h. descs h' ! j = (if s \<le> j \<and> j - s \<in> I then large_desc g m (j - s) else descs h ! j)) \<and>
     (\<forall>x. let p = x div PAGE_SIZE_CELLS; b = (s \<le> p \<and> p - s \<in> I) in
        cells h' x = (if b then 0 else cells h x) \<and>
        is_start_at (start_bits h') x = (is_start_at (start_bits h) x \<and> \<not> b) \<and>
        is_cons_start_at (start_bits h') x = (is_cons_start_at (start_bits h) x \<and> \<not> b))"

lemma stamped_empty [simp]: "stamped h h g m s {}"
  by (simp add: stamped_def Let_def)

lemma stamped_step:
  assumes "stamped h h1 g m s {i}" "stamped h1 h2 g m s I" "i \<notin> I"
  shows "stamped h h2 g m s (insert i I)"
  using assms unfolding stamped_def Let_def
  by (intro conjI allI impI) (auto split: if_splits)

lemma stamp_page_stamped:
  assumes ok: "alloc_ok h" and g: "g \<noteq> Gen_Free" and p: "s + i < n_pages h" "s + i < pages_high_water h"
    and free: "pgen (descs h ! (s + i)) = Gen_Free"
    and st: "stamp_large_page h g m s i = (Some u, h')"
  shows "stamped h h' g m s {i}"
proof -
  note f = stamp_page_facts [OF ok g p free st]
  have b: "s \<le> p \<and> p - s = i \<longleftrightarrow> p = s + i" for p by auto
  show ?thesis
    unfolding stamped_def Let_def singleton_iff b
    using f(2-4) f(6-9) p alloc_okD(7) [OF ok] by simp
qed

lemma stamp_run_facts:
  assumes "alloc_ok h" "g \<noteq> Gen_Free" "distinct is"
    "\<And>i. i \<in> set is \<Longrightarrow> s + i < n_pages h \<and> s + i < pages_high_water h \<and> pgen (descs h ! (s + i)) = Gen_Free"
    "stamp_large_run h g m s is = (r, h')"
  shows "alloc_ok h' \<and> (\<exists>I \<subseteq> set is. stamped h h' g m s I \<and> (r \<noteq> None \<longrightarrow> I = set is))"
  using assms
proof (induction "is" arbitrary: h)
  case Nil
  then show ?case by auto
next
  case (Cons i "is")
  have p: "s + i < n_pages h" "s + i < pages_high_water h" "pgen (descs h ! (s + i)) = Gen_Free"
    using Cons.prems(4) by simp_all
  obtain r1 h1 where st: "stamp_large_page h g m s i = (r1, h1)" by fastforce
  note f = stamp_page_facts [OF Cons.prems(1,2) p st]
  show ?case
  proof (cases r1)
    case None
    then have "r = None" "h' = h1" using Cons.prems(5) st by simp_all
    moreover have "stamped h h1 g m s {}" using f(2-5) None by (simp add: stamped_def Let_def)
    ultimately show ?thesis using f(1) by blast
  next
    case (Some u)
    then have one: "stamped h h1 g m s {i}"
      using stamp_page_stamped [OF Cons.prems(1,2) p] st by simp
    have run: "stamp_large_run h1 g m s is = (r, h')" using Cons.prems(5) st Some by simp
    have "s + j < n_pages h1 \<and> s + j < pages_high_water h1 \<and> pgen (descs h1 ! (s + j)) = Gen_Free"
      if "j \<in> set is" for j
      using that Cons.prems(3,4) one by (auto simp: stamped_def)
    then obtain I where "alloc_ok h'" "I \<subseteq> set is" "stamped h1 h' g m s I" "r \<noteq> None \<longrightarrow> I = set is"
      using Cons.IH [OF f(1) Cons.prems(2) _ _ run] Cons.prems(3) by auto
    moreover from this have "stamped h h' g m s (insert i I)"
      using stamped_step [OF one] Cons.prems(3) by auto
    ultimately show ?thesis by (intro conjI exI [of _ "insert i I"]) auto
  qed
qed

text \<open>Everything in use stays as it is; more may be in use.\<close>

definition extends :: "page_heap \<Rightarrow> page_heap \<Rightarrow> bool" where
  "extends h h' \<longleftrightarrow>
     n_pages h' = n_pages h \<and> base_ptr h' = base_ptr h \<and>
     (\<forall>x. cell_used h x \<longrightarrow> cell_used h' x \<and> cells h' x = cells h x \<and>
        is_start_at (start_bits h') x = is_start_at (start_bits h) x \<and>
        is_cons_start_at (start_bits h') x = is_cons_start_at (start_bits h) x)"

lemma extends_refl [simp]: "extends h h"
  by (simp add: extends_def)

lemma extends_trans [trans]: "extends h h1 \<Longrightarrow> extends h1 h2 \<Longrightarrow> extends h h2"
  by (simp add: extends_def)

lemma same_used_extends: "same_used h h' \<Longrightarrow> extends h h'"
  by (simp add: same_used_def extends_def)

lemma grants_extends: "grants h h' c n \<Longrightarrow> extends h h'"
  by (simp add: grants_def extends_def)

lemma stamped_used:
  assumes st: "stamped h h' g m s I" and g: "g \<noteq> Gen_Free"
    and free: "\<forall>i \<in> I. s + i < n_pages h \<and> pgen (descs h ! (s + i)) = Gen_Free"
  shows "cell_used h' x \<longleftrightarrow> cell_used h x \<or> (s \<le> x div PAGE_SIZE_CELLS \<and> x div PAGE_SIZE_CELLS - s \<in> I)"
    "s \<le> x div PAGE_SIZE_CELLS \<and> x div PAGE_SIZE_CELLS - s \<in> I \<Longrightarrow> \<not> cell_used h x"
    "extends h h'"
proof -
  have n: "s \<le> p \<and> p - s \<in> I \<Longrightarrow> p < n_pages h \<and> pgen (descs h ! p) = Gen_Free" for p
    using free by (metis le_add_diff_inverse)
  have u: "cell_used h' x \<longleftrightarrow> cell_used h x \<or> (s \<le> x div PAGE_SIZE_CELLS \<and> x div PAGE_SIZE_CELLS - s \<in> I)" for x
    using st g n [of "x div PAGE_SIZE_CELLS"]
    by (cases "x div PAGE_SIZE_CELLS < n_pages h")
      (auto simp: stamped_def cell_used_def PAGE_SIZE_CELLS_num)
  then show "cell_used h' x \<longleftrightarrow> cell_used h x \<or> (s \<le> x div PAGE_SIZE_CELLS \<and> x div PAGE_SIZE_CELLS - s \<in> I)" .
  have nu: "\<not> cell_used h x" if "s \<le> x div PAGE_SIZE_CELLS \<and> x div PAGE_SIZE_CELLS - s \<in> I" for x
    using n [OF that] by (simp add: cell_used_def)
  then show "s \<le> x div PAGE_SIZE_CELLS \<and> x div PAGE_SIZE_CELLS - s \<in> I \<Longrightarrow> \<not> cell_used h x" .
  show "extends h h'"
    using st nu u unfolding extends_def stamped_def Let_def by auto
qed

definition large_placed :: "page_heap \<Rightarrow> nat \<Rightarrow> nat \<Rightarrow> generation \<Rightarrow> bool" where
  "large_placed h s m g \<longleftrightarrow>
     (\<forall>i < m. pgen (descs h ! (s + i)) = g \<and> kind (descs h ! (s + i)) = Kind_Large \<and>
        n_span (descs h ! (s + i)) = (if i = 0 then of_nat m else 0)) \<and>
     (\<forall>x. s * PAGE_SIZE_CELLS \<le> x \<and> x < (s + m) * PAGE_SIZE_CELLS \<longrightarrow>
        is_start_at (start_bits h) x = (x = s * PAGE_SIZE_CELLS))"

lemma run_cells_iff:
  "s * PAGE_SIZE_CELLS \<le> x \<and> x < s * PAGE_SIZE_CELLS + m * PAGE_SIZE_CELLS \<longleftrightarrow>
    s \<le> x div PAGE_SIZE_CELLS \<and> x div PAGE_SIZE_CELLS - s < m"
proof -
  have "s * PAGE_SIZE_CELLS \<le> x \<longleftrightarrow> s \<le> x div PAGE_SIZE_CELLS"
    by (simp add: PAGE_SIZE_CELLS_num less_eq_div_iff_mult_less_eq)
  moreover have "x < (s + m) * PAGE_SIZE_CELLS \<longleftrightarrow> x div PAGE_SIZE_CELLS < s + m"
    by (simp add: PAGE_SIZE_CELLS_num div_less_iff_less_mult)
  ultimately show ?thesis by (auto simp: add_mult_distrib)
qed

lemma high_water_ok:
  assumes ok: "alloc_ok h" and b: "b \<le> n_pages h"
  shows "alloc_ok (raise_high_water h b)" "same_used h (raise_high_water h b)"
proof -
  show "alloc_ok (raise_high_water h b)"
    using alloc_okD [OF ok] b
    by (intro alloc_ok_relist [OF ok]) (simp_all add: reservation_ok_sel is_committed_def)
  show "same_used h (raise_high_water h b)" by (simp add: same_used_def cell_used_def)
qed

lemma try_alloc_large_ok:
  assumes ok: "alloc_ok h" and g: "g \<noteq> Gen_Free" and n: "0 < n"
    and t: "try_alloc_large h n g = (res, h')"
  defines "m \<equiv> div_ceil n PAGE_SIZE_CELLS"
  shows "alloc_ok h' \<and> extends h h' \<and>
    (\<forall>a. res = Some a \<longrightarrow> (\<exists>s. a = cell_addr h (s * PAGE_SIZE_CELLS) \<and> n \<le> m * PAGE_SIZE_CELLS \<and>
       free_run (descs h) s m \<and> (\<forall>s' < s. \<not> free_run (descs h) s' m) \<and>
       grants h h' (s * PAGE_SIZE_CELLS) (m * PAGE_SIZE_CELLS) \<and> large_placed h' s m g))"
proof (cases "poisoned h \<or> (g = G0 \<and> \<not> recycle_live_counts_active_for h G0 \<and>
      young_page_cap h < count_pages_in_gen h G0 + m) \<or> find_contiguous_free_pages h m = None")
  case True
  then have "res = None" "h' = h" using t by (auto simp: try_alloc_large_def m_def Let_def split: if_splits)
  then show ?thesis using ok by simp
next
  case False
  then obtain s where fr: "find_contiguous_free_pages h m = Some s" by auto
  have nm: "n \<le> m * PAGE_SIZE_CELLS"
    unfolding m_def by (rule div_ceil_bounds) (simp add: PAGE_SIZE_CELLS_num)
  then have m: "0 < m" using n by (cases m) auto
  have run: "free_run (descs h) s m" "\<forall>s' < s. \<not> free_run (descs h) s' m"
    using find_contiguous_spec [OF m, of h] fr by simp_all
  define h1 where "h1 = raise_high_water h (s + m)"
  have sm: "s + m \<le> n_pages h" using run(1) alloc_okD(7) [OF ok] by (simp add: free_run_def)
  note hw = high_water_ok [OF ok sm, folded h1_def]
  have h1: "n_pages h1 = n_pages h" "descs h1 = descs h" "base_ptr h1 = base_ptr h"
      "s + m \<le> pages_high_water h1"
    by (simp_all add: h1_def)
  obtain r h2 where sr: "stamp_large_run h1 g m s [0..<m] = (r, h2)" by fastforce
  have pages: "s + i < n_pages h1 \<and> s + i < pages_high_water h1 \<and> pgen (descs h1 ! (s + i)) = Gen_Free"
    if "i < m" for i
    using that run(1) sm h1 by (simp add: free_run_def)
  obtain I where I: "alloc_ok h2" "I \<subseteq> {..<m}" "stamped h1 h2 g m s I" "r \<noteq> None \<longrightarrow> I = {..<m}"
    using stamp_run_facts [OF hw(1) g distinct_upt _ sr] pages by (auto simp: atLeast0LessThan)
  have free: "\<forall>i \<in> I. s + i < n_pages h1 \<and> pgen (descs h1 ! (s + i)) = Gen_Free"
    using I(2) pages by auto
  note su = stamped_used [OF I(3) g free]
  have ext: "extends h h2" using same_used_extends [OF hw(2)] su(3) by (rule extends_trans)
  have eq: "(res, h') = (case r of None \<Rightarrow> (None, h2)
      | Some u \<Rightarrow> (page_ptr (charge_bytes (h2\<lparr>start_bits := set_start_bit_at (start_bits h2) (s * PAGE_SIZE_CELLS)\<rparr>) n) s,
          charge_bytes (h2\<lparr>start_bits := set_start_bit_at (start_bits h2) (s * PAGE_SIZE_CELLS)\<rparr>) n))"
    unfolding t [symmetric] try_alloc_large_def m_def [symmetric] Let_def fr option.case
      h1_def [symmetric] sr prod.case
    using False by (auto split: option.splits)
  show ?thesis
  proof (cases r)
    case None
    then show ?thesis using eq I(1) ext by simp
  next
    case (Some u)
    define c where "c = s * PAGE_SIZE_CELLS"
    define h3 where "h3 = h2\<lparr>start_bits := set_start_bit_at (start_bits h2) c\<rparr>"
    have Im: "I = {..<m}" using I(4) Some by simp
    have rng: "s \<le> x div PAGE_SIZE_CELLS \<and> x div PAGE_SIZE_CELLS - s \<in> I \<longleftrightarrow>
        c \<le> x \<and> x < c + m * PAGE_SIZE_CELLS" for x
      using run_cells_iff [of s x m] by (simp add: Im c_def)
    have h': "h' = charge_bytes h3 n" "res = page_ptr (charge_bytes h3 n) s"
      using eq Some by (simp_all add: h3_def c_def)
    have used: "cell_used h2 c"
      unfolding su(1) rng using m by (simp add: PAGE_SIZE_CELLS_num)
    have "alloc_ok h3"
      unfolding h3_def by (rule alloc_ok_start_bit [OF I(1) used]) (simp add: bitmap_simps)
    then have ok': "alloc_ok h'" by (simp add: h')
    have same: "cell_used h1 x = cell_used h x" "cells h1 = cells h" "start_bits h1 = start_bits h" for x
      by (simp_all add: h1_def cell_used_def)
    have nu: "\<not> cell_used h x" if "c \<le> x \<and> x < c + m * PAGE_SIZE_CELLS" for x
      using su(2) [of x] that unfolding rng same(1) by simp
    have ncu: "x \<noteq> c" if "cell_used h x" for x
      using nu [of c] that m by (auto simp: PAGE_SIZE_CELLS_num)
    have st: "cells h2 x = (if c \<le> x \<and> x < c + m * PAGE_SIZE_CELLS then 0 else cells h x)"
      "is_start_at (start_bits h2) x = (is_start_at (start_bits h) x \<and> \<not> (c \<le> x \<and> x < c + m * PAGE_SIZE_CELLS))"
      "is_cons_start_at (start_bits h2) x = (is_cons_start_at (start_bits h) x \<and> \<not> (c \<le> x \<and> x < c + m * PAGE_SIZE_CELLS))" for x
      using I(3) unfolding stamped_def Let_def rng same by simp_all
    have "c + m * PAGE_SIZE_CELLS \<le> total_cells_of h"
      using mult_le_mono1 [OF sm, of PAGE_SIZE_CELLS] by (simp add: c_def total_cells_of_def add_mult_distrib)
    moreover have np: "n_pages h2 = n_pages h" "base_ptr h2 = base_ptr h"
      using ext by (simp_all add: extends_def)
    ultimately have gr: "grants h h' c (m * PAGE_SIZE_CELLS)"
      unfolding grants_def h' using nu ncu st su(1) unfolding rng same(1)
      by (auto simp: h3_def bitmap_simps is_cons_start_bits start_bits_set_header)
    have res: "res = Some (cell_addr h c)"
      using m sm np by (simp add: h' h3_def page_ptr_def cell_addr_def c_def page_bytes_cells ac_simps)
    have "large_placed h' s m g"
      unfolding large_placed_def
    proof (intro conjI allI impI)
      fix i assume "i < m"
      then have "descs h' ! (s + i) = large_desc g m i"
        using I(3) sm h1 by (simp add: h' h3_def stamped_def Im)
      then show "pgen (descs h' ! (s + i)) = g" "kind (descs h' ! (s + i)) = Kind_Large"
        "n_span (descs h' ! (s + i)) = (if i = 0 then of_nat m else 0)"
        by simp_all
    next
      fix x assume "s * PAGE_SIZE_CELLS \<le> x \<and> x < (s + m) * PAGE_SIZE_CELLS"
      then have "c \<le> x \<and> x < c + m * PAGE_SIZE_CELLS" by (simp add: c_def add_mult_distrib)
      then show "is_start_at (start_bits h') x = (x = s * PAGE_SIZE_CELLS)"
        using st(2) [of x] by (simp add: h' h3_def bitmap_simps c_def)
    qed
    then show ?thesis
      using res nm run gr ok' grants_extends [OF gr] np
      by (auto simp: h' h3_def c_def)
  qed
qed

section \<open>What an allocation leaves alone\<close>

definition alloc_frame :: "page_heap \<Rightarrow> page_heap \<Rightarrow> bool" where
  "alloc_frame h h' \<longleftrightarrow>
     mark_bits h' = mark_bits h \<and> pinned_cells h' = pinned_cells h \<and> cards h' = cards h \<and>
     (tidy (start_bits h) \<longrightarrow> tidy (start_bits h')) \<and>
     (\<forall>p < n_pages h. pgen (descs h ! p) \<noteq> Gen_Free \<longrightarrow>
        (\<exists>w. descs h' ! p = (descs h ! p)\<lparr>words_used := w\<rparr>))"

lemma alloc_frame_refl [simp]: "alloc_frame h h"
proof -
  have "\<exists>w. d = d\<lparr>words_used := w\<rparr>" for d :: page_desc by (intro exI [of _ "words_used d"]) simp
  then show ?thesis by (simp add: alloc_frame_def)
qed

lemma alloc_frame_trans:
  assumes "alloc_frame h h1" "alloc_frame h1 h2" "n_pages h1 = n_pages h"
  shows "alloc_frame h h2"
proof -
  have "\<exists>w. descs h2 ! p = (descs h ! p)\<lparr>words_used := w\<rparr>"
    if p: "p < n_pages h" "pgen (descs h ! p) \<noteq> Gen_Free" for p
  proof -
    obtain w where w: "descs h1 ! p = (descs h ! p)\<lparr>words_used := w\<rparr>"
      using assms(1) p by (auto simp: alloc_frame_def)
    then obtain w' where "descs h2 ! p = (descs h1 ! p)\<lparr>words_used := w'\<rparr>"
      using assms(2,3) p by (auto simp: alloc_frame_def)
    then show ?thesis using w by (intro exI [of _ w']) simp
  qed
  then show ?thesis using assms by (simp add: alloc_frame_def)
qed

lemma alloc_frame_acquire:
  assumes "alloc_ok h" "acquire_free_page h g k = (r, h')"
  shows "alloc_frame h h'"
proof -
  note f = acquire_free_page_frame [OF assms(2)]
  have "\<exists>w. d = d\<lparr>words_used := w\<rparr>" for d :: page_desc by (intro exI [of _ "words_used d"]) simp
  note id = this
  have "(tidy (start_bits h) \<longrightarrow> tidy (start_bits h')) \<and>
      (\<forall>p < n_pages h. pgen (descs h ! p) \<noteq> Gen_Free \<longrightarrow> descs h' ! p = descs h ! p)"
    using assms(2)
  proof (cases rule: acquire_free_page_cases)
    case (refused idx rest e)
    show ?thesis by (simp add: commit_page_frame [OF refused(5)])
  next
    case (acquired idx rest h2 fresh)
    note c = commit_page_frame [OF acquired(5)]
    have "start_bits h' = clear_page_start_bits (start_bits h) idx"
      by (simp add: acquired(6) Let_def c)
    moreover have "descs h' = (descs h)[idx := desc_fresh g k]"
      by (simp add: acquired(6) Let_def c)
    ultimately show ?thesis using acquired(3) by (metis nth_list_update_neq tidy_intros(3))
  qed simp
  then show ?thesis using f id by (simp add: alloc_frame_def)
qed

lemma alloc_frame_open [simp]: "alloc_frame h (open_region_on h1 g k p) = alloc_frame h h1"
  by (simp add: alloc_frame_def open_region_on_def)

lemma alloc_frame_bump:
  assumes ok: "alloc_ok h" and b: "try_bump_in_current h g k n as_cons = Some (res, h')"
  shows "alloc_frame h h'"
proof -
  obtain r where r: "alloc_region h g k = Some r"
    using b by (auto simp: try_bump_in_current_def split: option.splits)
  note ev = try_bump_eval [OF ok r, of n as_cons, unfolded b]
  show ?thesis
  proof (cases res)
    case None
    then have "h' = h" using ev by (auto simp: Let_def split: option.splits if_splits)
    then show ?thesis by simp
  next
    case (Some a)
    then obtain p c where p: "h' = charge_bytes ((bump_words h g k p n)\<lparr>start_bits := set_object_start as_cons (start_bits h) c\<rparr>) n"
      using ev by (auto simp: Let_def split: option.splits if_splits)
    have "tidy (start_bits h) \<longrightarrow> tidy (start_bits h')"
      by (auto simp: p set_object_start_def)
    moreover have "\<exists>w. descs h' ! q = (descs h ! q)\<lparr>words_used := w\<rparr>" if "q < n_pages h" for q
    proof (cases "q = p")
      case True
      then show ?thesis
        using that alloc_okD(7) [OF ok]
        by (intro exI [of _ "saturating_add (words_used (descs h ! p)) (of_nat n)"]) (simp add: p bump_words_def)
    next
      case False
      then show ?thesis by (intro exI [of _ "words_used (descs h ! q)"]) (simp add: p bump_words_def)
    qed
    ultimately show ?thesis by (simp add: alloc_frame_def p)
  qed
qed

lemma try_alloc_frame:
  assumes ok: "alloc_ok h" and t: "try_alloc_in_region h g k n as_cons = Some (res, h')"
  shows "alloc_frame h h'"
  using ok t
proof (cases rule: try_alloc_cases)
  case (fast a)
  show ?thesis by (rule alloc_frame_bump [OF ok fast(2)])
next
  case no_page
  show ?thesis by (rule alloc_frame_acquire [OF ok no_page(2)])
next
  case (fresh idx h1)
  obtain r where r: "alloc_region h g k = Some r"
    using fresh(3) by (auto simp: try_bump_in_current_def split: option.splits)
  note o = acquire_then_open_ok [OF ok r fresh(1)]
  have n: "n_pages (open_region_on h1 g k idx) = n_pages h" using o(3) by (simp add: same_used_def)
  show ?thesis
    by (rule alloc_frame_trans [OF _ alloc_frame_bump [OF o(1) fresh(2)] n])
      (simp add: alloc_frame_acquire [OF ok fresh(1)])
qed simp_all

text \<open>A header object's start pair is the header pair.\<close>

lemma bump_header_start:
  assumes ok: "alloc_ok h" and n: "0 < n" and td: "tidy (start_bits h)"
    and b: "try_bump_in_current h g k n False = Some (Some a, h')"
  shows "\<not> is_cons_start_at (start_bits h') (cell_index h a)"
proof -
  obtain r where r: "alloc_region h g k = Some r"
    using b by (auto simp: try_bump_in_current_def split: option.splits)
  note ev = try_bump_eval [OF ok r, of n False, unfolded b]
  obtain p where p: "current_page r = Some p" and fit: "offset r + n \<le> PAGE_SIZE_CELLS"
    using ev by (auto split: option.splits if_splits)
  define c where "c = p * PAGE_SIZE_CELLS + offset r"
  note bw = bump_words_facts [OF ok r p fit, folded c_def]
  have a: "a = cell_addr h c" and s: "start_bits h' = set_start_bit_at (start_bits h) c"
    using ev p fit by (simp_all add: Let_def c_def set_object_start_def)
  have "\<not> cell_used h c" "c < total_cells_of h" using bw(3) [of c] bw(4) n by auto
  moreover have "c div PAGE_SIZE_CELLS = p" using fit n by (simp add: c_def)
  moreover have "pgen (descs h ! p) \<noteq> Gen_Free"
    using alloc_okD(3) [OF ok, of g k] r p region_gen_not_free [OF r] by (auto simp: region_ok_def)
  ultimately have start: "\<not> is_start_at (start_bits h) c" "c < total_cells_of h"
    using unused_no_start [OF ok, of c] bw(5) by simp_all
  then have "\<not> start_hi (start_bits h) c" using td by (auto simp: tidy_def is_start_lo)
  then have "\<not> is_cons_start_at (start_bits h') c"
    using start(1) by (auto simp: s bitmap_simps dest: cons_start_is_start)
  then show ?thesis using start(2) alloc_okD(1) [OF ok] by (simp add: a)
qed

lemma try_alloc_object:
  assumes ok: "alloc_ok h" and n: "0 < n" and td: "tidy (start_bits h)"
    and t: "try_alloc_in_region h g k n as_cons = Some (Some a, h')"
  shows "\<exists>c. a = cell_addr h c \<and> grants h h' c n \<and> object_placed h' c n g k as_cons \<and>
    is_cons_start_at (start_bits h') c = as_cons"
proof -
  obtain c where c: "a = cell_addr h c" "grants h h' c n" "object_placed h' c n g k as_cons"
    using try_alloc_in_region_ok [OF ok n t] by auto
  have lt: "c < total_cells_of h" using c(2) n by (simp add: grants_def)
  have "is_cons_start_at (start_bits h') c = as_cons"
  proof (cases as_cons)
    case True
    then show ?thesis using c(3) by (simp add: object_placed_def)
  next
    case False
    have "\<not> is_cons_start_at (start_bits h') (cell_index h a)"
      using ok t
    proof (cases rule: try_alloc_cases)
      case (fast a')
      then show ?thesis using bump_header_start [OF ok n td] False by simp
    next
      case (fresh idx h1)
      obtain r where r: "alloc_region h g k = Some r"
        using fresh(3) by (auto simp: try_bump_in_current_def split: option.splits)
      note o = acquire_then_open_ok [OF ok r fresh(1)]
      let ?h2 = "open_region_on h1 g k idx"
      have "alloc_frame h ?h2" by (simp add: alloc_frame_acquire [OF ok fresh(1)])
      then have td2: "tidy (start_bits ?h2)" using td by (simp add: alloc_frame_def)
      have "cell_index ?h2 a = cell_index h a"
        using o(3) by (simp add: cell_index_def same_used_def)
      then show ?thesis using bump_header_start [OF o(1) n td2] fresh(2) False by metis
    qed simp_all
    then show ?thesis using False c(1) lt alloc_okD(1) [OF ok] by simp
  qed
  then show ?thesis using c by blast
qed

lemma try_alloc_start_kind:
  assumes "alloc_ok h" "0 < n" "tidy (start_bits h)" "try_alloc_in_region h g k n as_cons = Some (Some a, h')"
  shows "\<exists>c. a = cell_addr h c \<and> grants h h' c n \<and> object_placed h' c n g k as_cons \<and>
    start_kind_at (start_bits h') c = (if as_cons then Cons_Start else Header_Start)"
proof -
  obtain c where c: "a = cell_addr h c" "grants h h' c n" "object_placed h' c n g k as_cons"
    "is_cons_start_at (start_bits h') c = as_cons"
    using try_alloc_object [OF assms] by blast
  moreover have "is_start_at (start_bits h') c" using c(3) assms(2) by (simp add: object_placed_def)
  ultimately show ?thesis by (intro exI [of _ c]) (simp add: start_kind_at_def)
qed

end
