(* ===== verification/Tracing.thy ===== *)
theory Tracing
  imports GC_Prelude
begin

text \<open>
  Tracing with a work list, as a contract. Both markers of the collector (\<open>PageMarker\<close> of
  \<^verbatim>\<open>mark.rs\<close> and the \<open>Mark\<close> mode of \<open>PageEvacuator\<close> in \<^verbatim>\<open>evac.rs\<close>) pop an object, offer the
  targets of its pointer cells, and push those not marked before. The locale says just that;
  proved once: the invariant a step keeps and what an empty work list means.
\<close>

section \<open>Reachability\<close>

inductive reaches :: "(nat \<Rightarrow> nat set) \<Rightarrow> nat set \<Rightarrow> nat \<Rightarrow> bool" for G S where
  seed: "c \<in> S \<Longrightarrow> reaches G S c"
| edge: "reaches G S c \<Longrightarrow> d \<in> G c \<Longrightarrow> reaches G S d"

lemma reaches_mono: "reaches G S c \<Longrightarrow> S \<subseteq> T \<Longrightarrow> reaches G T c"
  by (induction rule: reaches.induct) (auto intro: reaches.intros)

lemma reaches_closed:
  assumes "reaches G S c" "S \<subseteq> M" "\<And>a. a \<in> M \<Longrightarrow> G a \<subseteq> M"
  shows "c \<in> M"
  using assms(1) by (induction rule: reaches.induct) (use assms in auto)

lemma reaches_trans: "reaches G {d. reaches G S d} c \<Longrightarrow> reaches G S c"
  by (induction rule: reaches.induct) (auto intro: reaches.intros)

section \<open>The invariant\<close>

text \<open>
  Black, grey and white: from the marks \<open>M0\<close> at the start and the seeds \<open>S\<close>, the marks are
  now \<open>M\<close> and the work list holds \<open>Q\<close>. A newly marked object off the list is done: its
  targets are marked.
\<close>

definition tracing :: "(nat \<Rightarrow> nat set) \<Rightarrow> nat set \<Rightarrow> nat set \<Rightarrow> nat set \<Rightarrow> nat set \<Rightarrow> bool" where
  "tracing G M0 S M Q \<longleftrightarrow>
     M0 \<subseteq> M \<and> S \<subseteq> M \<and> Q \<subseteq> M \<and> M \<subseteq> M0 \<union> {c. reaches G S c} \<and>
     Q \<subseteq> {c. reaches G S c} \<and> (\<forall>c \<in> M - Q - M0. G c \<subseteq> M)"

lemma tracing_start: "tracing G M0 {} M0 {}"
  by (simp add: tracing_def)

lemma tracing_seed:
  assumes "tracing G M0 S M Q"
  shows "tracing G M0 (insert c S) (insert c M) (if c \<in> M then Q else insert c Q)"
proof -
  have m: "reaches G S d \<Longrightarrow> reaches G (insert c S) d" for d by (rule reaches_mono) auto
  have s: "reaches G (insert c S) c" by (rule reaches.seed) simp
  show ?thesis
    using assms m s unfolding tracing_def by (auto split: if_splits)
qed

lemma tracing_seeds:
  assumes "tracing G M0 S M Q" "finite T"
  shows "tracing G M0 (S \<union> T) (M \<union> T) (Q \<union> (T - M))"
  using assms(2,1)
proof (induction T arbitrary: S M Q)
  case (insert c T)
  have "tracing G M0 (insert c S \<union> T) (insert c M \<union> T) ((if c \<in> M then Q else insert c Q) \<union> (T - insert c M))"
    by (rule insert.IH [OF tracing_seed [OF insert.prems]])
  moreover have "(if c \<in> M then Q else insert c Q) \<union> (T - insert c M) = Q \<union> (insert c T - M)"
    using insert.hyps(2) by auto
  ultimately show ?case by simp
qed simp

lemma tracing_scan:
  assumes "tracing G M0 S M Q" "c \<in> Q" "Q - {c} \<subseteq> Q'" "Q' \<subseteq> Q"
  shows "tracing G M0 S (M \<union> G c) (Q' - {c} \<union> (G c - M))"
proof -
  have "reaches G S d" if "d \<in> G c" for d
    using assms(1,2) that by (auto simp: tracing_def intro: reaches.edge)
  then show ?thesis
    using assms unfolding tracing_def by auto
qed

lemma tracing_done:
  assumes "tracing G M0 S M {}" "\<And>c. c \<in> M0 \<Longrightarrow> G c \<subseteq> M0"
  shows "M = M0 \<union> {c. reaches G S c}"
proof -
  have "G c \<subseteq> M" if "c \<in> M" for c
    using assms that by (cases "c \<in> M0") (auto simp: tracing_def)
  then have "reaches G S c \<Longrightarrow> c \<in> M" for c
    using assms(1) reaches_closed [of G S c M] by (auto simp: tracing_def)
  then show ?thesis using assms(1) by (auto simp: tracing_def)
qed

text \<open>The same when the marks at the start are not closed, but out of reach.\<close>

lemma tracing_done_apart:
  assumes "tracing G M0 S M {}" "\<And>c. reaches G S c \<Longrightarrow> c \<notin> M0"
  shows "M = M0 \<union> {c. reaches G S c}"
proof -
  have "c \<in> M" if "reaches G S c" for c
    using that
  proof induction
    case (seed c)
    then show ?case using assms(1) by (auto simp: tracing_def)
  next
    case (edge c d)
    have "c \<in> M - {} - M0" using edge assms(2) by auto
    then show ?case using assms(1) edge.hyps(2) unfolding tracing_def by blast
  qed
  then show ?thesis using assms(1) by (auto simp: tracing_def)
qed

section \<open>Offering words\<close>

text \<open>
  The inner step of both markers: a word is offered; if it passes the gate, the cell it leads to
  is marked, and pushed unless it was marked before. Neither the gate nor the cells change, and
  the gate stays below a limit: so the list and the unmarked cells together never grow.
\<close>

locale offers =
  fixes marked :: "'s \<Rightarrow> nat set"
    and gate :: "'s \<Rightarrow> u64 \<Rightarrow> nat option"
    and offer :: "u64 \<Rightarrow> 's \<times> nat list \<Rightarrow> 's \<times> nat list"
    and word_at :: "'s \<Rightarrow> nat \<Rightarrow> u64"
    and limit :: "'s \<Rightarrow> nat"
  assumes offer_marks: "offer w (s, q) = (s', q') \<Longrightarrow> marked s' = marked s \<union> set_option (gate s w)"
    and offer_queue: "offer w (s, q) = (s', q') \<Longrightarrow>
      q' = (case gate s w of None \<Rightarrow> q | Some c \<Rightarrow> if c \<in> marked s then q else c # q)"
    and offer_keeps: "offer w (s, q) = (s', q') \<Longrightarrow>
      gate s' = gate s \<and> word_at s' = word_at s \<and> limit s' = limit s"
    and gate_bound: "gate s w = Some c \<Longrightarrow> c < limit s"
begin

lemma offer_measure:
  assumes "offer w (s, q) = (s', q')"
  shows "length q' + card ({..<limit s'} - marked s') \<le> length q + card ({..<limit s} - marked s)"
proof (cases "\<exists>c. gate s w = Some c \<and> c \<notin> marked s")
  case True
  then obtain c where c: "gate s w = Some c" "c \<notin> marked s" by blast
  let ?U = "{..<limit s} - marked s"
  have "{..<limit s} - marked s' = ?U - {c}"
    using offer_marks [OF assms] c(1) by auto
  then have "card ({..<limit s'} - marked s') = card ?U - 1"
    using gate_bound [OF c(1)] c(2) offer_keeps [OF assms] by (simp add: card_Diff_singleton)
  moreover have "0 < card ?U" using gate_bound [OF c(1)] c(2) by (auto simp: card_gt_0_iff)
  ultimately show ?thesis using offer_queue [OF assms] c by simp
next
  case False
  then have "marked s' = marked s" "q' = q"
    using offer_marks [OF assms] offer_queue [OF assms] by (cases "gate s w"; auto)+
  then show ?thesis using offer_keeps [OF assms] by simp
qed

lemma offer_words:
  assumes "fold offer ws (s, q) = (s', q')"
  shows "marked s' = marked s \<union> {d. \<exists>w \<in> set ws. gate s w = Some d}"
    "set q' = set q \<union> ({d. \<exists>w \<in> set ws. gate s w = Some d} - marked s)"
    "gate s' = gate s \<and> word_at s' = word_at s \<and> limit s' = limit s"
    "length q' + card ({..<limit s'} - marked s') \<le> length q + card ({..<limit s} - marked s)"
proof -
  have "marked s' = marked s \<union> {d. \<exists>w \<in> set ws. gate s w = Some d} \<and>
    set q' = set q \<union> ({d. \<exists>w \<in> set ws. gate s w = Some d} - marked s) \<and>
    gate s' = gate s \<and> word_at s' = word_at s \<and> limit s' = limit s \<and>
    length q' + card ({..<limit s'} - marked s') \<le> length q + card ({..<limit s} - marked s)"
    using assms
  proof (induction ws arbitrary: s q)
    case (Cons w ws)
    obtain s1 q1 where o: "offer w (s, q) = (s1, q1)" by fastforce
    then have "fold offer ws (s1, q1) = (s', q')" using Cons.prems by simp
    note IH = Cons.IH [OF this]
    have q1: "set q1 = set q \<union> (set_option (gate s w) - marked s)"
      using offer_queue [OF o] by (auto split: option.splits)
    show ?case
      using IH offer_marks [OF o] offer_keeps [OF o] offer_measure [OF o] by (auto simp: q1)
  qed simp
  then show "marked s' = marked s \<union> {d. \<exists>w \<in> set ws. gate s w = Some d}"
    "set q' = set q \<union> ({d. \<exists>w \<in> set ws. gate s w = Some d} - marked s)"
    "gate s' = gate s \<and> word_at s' = word_at s \<and> limit s' = limit s"
    "length q' + card ({..<limit s'} - marked s') \<le> length q + card ({..<limit s} - marked s)"
    by blast+
qed

text \<open>Offering the contents of cells is offering the words they hold.\<close>

lemma offer_cells_words:
  "fold (\<lambda>c st. offer (word_at (fst st) c) st) cs (s, q) = fold offer (map (word_at s) cs) (s, q)"
proof (induction cs arbitrary: s q)
  case (Cons c cs)
  obtain s1 q1 where o: "offer (word_at s c) (s, q) = (s1, q1)" by fastforce
  show ?case using Cons.IH [of s1 q1] offer_keeps [OF o] by (simp add: o)
qed simp

end

section \<open>The contract of a marker\<close>

locale tracer =
  fixes marked :: "'s \<Rightarrow> nat set"
    and graph :: "'s \<Rightarrow> nat \<Rightarrow> nat set"
    and scan :: "nat \<Rightarrow> 's \<times> nat list \<Rightarrow> ('s \<times> nat list) option"
  assumes scan_marks: "scan c (s, q) = Some (s', q') \<Longrightarrow> marked s' = marked s \<union> graph s c"
    and scan_queue: "scan c (s, q) = Some (s', q') \<Longrightarrow> set q' = set q \<union> (graph s c - marked s)"
    and scan_graph: "scan c (s, q) = Some (s', q') \<Longrightarrow> graph s' = graph s"
begin

text \<open>One turn of the drain loop.\<close>

lemma scan_keeps_tracing:
  assumes "tracing (graph s) M0 S (marked s) (set (c # q))" "scan c (s, q) = Some (s', q')"
  shows "tracing (graph s') M0 S (marked s') (set q')"
proof -
  have "tracing (graph s) M0 S (marked s \<union> graph s c) (set q - {c} \<union> (graph s c - marked s))"
    by (rule tracing_scan [OF assms(1)]) auto
  moreover have "tracing (graph s) M0 S (marked s \<union> graph s c) (set q \<union> (graph s c - marked s))"
  proof (cases "c \<in> set q")
    case True
    have "tracing (graph s) M0 S (marked s \<union> graph s c)
        (insert c (set q - {c} \<union> (graph s c - marked s)))"
      using calculation assms(1) by (auto simp: tracing_def)
    moreover have "insert c (set q - {c} \<union> (graph s c - marked s)) = set q \<union> (graph s c - marked s)"
      using True by auto
    ultimately show ?thesis by simp
  next
    case False
    then have "set q - {c} \<union> (graph s c - marked s) = set q \<union> (graph s c - marked s)" by auto
    then show ?thesis using calculation by simp
  qed
  ultimately show ?thesis
    using scan_marks [OF assms(2)] scan_queue [OF assms(2)] scan_graph [OF assms(2)] by simp
qed

lemma drained:
  assumes "tracing (graph s) M0 S (marked s) (set [])" "\<And>c. c \<in> M0 \<Longrightarrow> graph s c \<subseteq> M0"
  shows "marked s = M0 \<union> {c. reaches (graph s) S c}"
  using assms by (intro tracing_done) simp_all

end

end
