(* ===== verification/Mark.thy ===== *)
theory Mark
  imports Alloc Tracing
begin

text \<open>
  The mark pass of \<^verbatim>\<open>page_heap/mark.rs\<close>: the root gate, the scan of a marked object, the
  work-list drain, the card scan and the two extensions from the pin set, with the two object
  helpers of \<^verbatim>\<open>evac.rs\<close> the card scans of both files share. \<open>L\<close> is the language binding.
  \<open>None\<close> is the panic of \<open>header_layout\<close> on an undecodable header. A \<open>Vec\<close> used as a work list
  is kept top first.

  Shown: the gate accepts exactly pointers to live object starts of the target generation,
  marking terminates, marks exactly what is reachable, and touches nothing but mark bits.
\<close>

section \<open>Objects\<close>

fun run_head :: "page_desc list \<Rightarrow> nat \<Rightarrow> nat" where
  "run_head ds 0 = 0"
| "run_head ds (Suc p) = (if is_large_cont (ds ! Suc p) then run_head ds p else Suc p)"

text \<open>\<open>(total_cells, pointer_cells_start, pointer_cells_end)\<close> of the object at a cell.\<close>

definition object_pointer_cells :: "heap_layout \<Rightarrow> page_heap \<Rightarrow> nat \<Rightarrow> (nat \<times> nat \<times> nat) option" where
  "object_pointer_cells L h cell_idx =
     (let page = cell_idx div PAGE_SIZE_CELLS; k = kind (desc h page) in
      if k = Kind_Free then Some (1, 0, 0)
      else
        (let as_cons = (k = Kind_Cons \<or> (k = Kind_Boxed \<and> is_cons_start_at (start_bits h) cell_idx)) in
         if as_cons then Some (2, 0, 2)
         else map_option (\<lambda>l. (total_cells l, pointer_cells_start l, pointer_cells_end l))
                (header_layout L (cells h cell_idx))))"

fun start_search_back :: "bitmap \<Rightarrow> nat \<Rightarrow> nat \<Rightarrow> nat option" where
  "start_search_back bits page_first 0 = (if is_start_at bits 0 then Some 0 else None)"
| "start_search_back bits page_first (Suc s) =
     (if is_start_at bits (Suc s) then Some (Suc s)
      else if Suc s = page_first then None
      else start_search_back bits page_first s)"

definition object_start_at_or_before :: "page_heap \<Rightarrow> nat \<Rightarrow> nat option" where
  "object_start_at_or_before h cell =
     (let page = cell div PAGE_SIZE_CELLS; k = kind (desc h page) in
      if k = Kind_Large
      then (let head = (if is_large_head (desc h page) then page else run_head (descs h) page)
            in Some (head * PAGE_SIZE_CELLS))
      else if k = Kind_Free then None
      else start_search_back (start_bits h) (page * PAGE_SIZE_CELLS) cell)"

section \<open>The gate\<close>

definition pointer_target :: "heap_layout \<Rightarrow> u64 \<Rightarrow> (u64 \<times> pointer_kind) option" where
  "pointer_target L w =
     (case classify L w of
        PointerCons a \<Rightarrow> Some (a, PK_Cons)
      | PointerHeader a \<Rightarrow> Some (a, PK_Header)
      | _ \<Rightarrow> None)"

text \<open>\<open>try_mark_root\<close> up to the mark bit: the cell a word leads to, if it passes every check.\<close>

definition mark_gate :: "heap_layout \<Rightarrow> page_heap \<Rightarrow> generation \<Rightarrow> u64 \<Rightarrow> nat option" where
  "mark_gate L h target w =
     (case pointer_target L w of
        None \<Rightarrow> None
      | Some (target_addr, ptr_kind) \<Rightarrow>
          (case page_of h target_addr of
             None \<Rightarrow> None
           | Some page_idx \<Rightarrow>
               if pgen (desc h page_idx) \<noteq> target then None
               else if kind (desc h page_idx) \<notin> {Kind_Cons, Kind_Boxed, Kind_Large} then None
               else
                 (let cell_idx = cell_index h target_addr in
                  if \<not> is_start_at (start_bits h) cell_idx then None
                  else
                    (let as_cons = is_cons_start_at (start_bits h) cell_idx in
                     case (ptr_kind, as_cons) of
                       (PK_Cons, True) \<Rightarrow> Some cell_idx
                     | (PK_Header, False) \<Rightarrow> Some cell_idx
                     | _ \<Rightarrow> None))))"

definition try_mark_root ::
  "heap_layout \<Rightarrow> generation \<Rightarrow> u64 \<Rightarrow> page_heap \<times> nat list \<Rightarrow> page_heap \<times> nat list" where
  "try_mark_root L target w = (\<lambda>(h, queue).
     case mark_gate L h target w of
       None \<Rightarrow> (h, queue)
     | Some cell_idx \<Rightarrow>
         (let (was_marked, h) = mark_cell h cell_idx in
          if was_marked then (h, queue) else (h, cell_idx # queue)))"

section \<open>The marker\<close>

text \<open>The cells \<open>scan_marked_object\<close> reads: both of a cons, the pointer range of a header's layout.\<close>

definition marked_payload :: "heap_layout \<Rightarrow> page_heap \<Rightarrow> nat \<Rightarrow> nat list option" where
  "marked_payload L h cell_idx =
     (let page_idx = cell_idx div PAGE_SIZE_CELLS; k = kind (desc h page_idx) in
      if k = Kind_Free then Some []
      else if (case k of Kind_Cons \<Rightarrow> True | Kind_Boxed \<Rightarrow> is_cons_start_at (start_bits h) cell_idx | _ \<Rightarrow> False)
      then Some [cell_idx..<cell_idx + 2]
      else (case header_layout L (cells h cell_idx) of
              None \<Rightarrow> None
            | Some layout \<Rightarrow>
                if pointer_cell_count layout = 0 then Some []
                else Some [cell_idx + pointer_cells_start layout..<cell_idx + pointer_cells_end layout]))"

definition visit_cells ::
  "heap_layout \<Rightarrow> generation \<Rightarrow> nat list \<Rightarrow> page_heap \<times> nat list \<Rightarrow> page_heap \<times> nat list" where
  "visit_cells L target cs st = fold (\<lambda>c (h, q). try_mark_root L target (cells h c) (h, q)) cs st"

definition scan_marked_object ::
  "heap_layout \<Rightarrow> generation \<Rightarrow> nat \<Rightarrow> page_heap \<times> nat list \<Rightarrow> (page_heap \<times> nat list) option" where
  "scan_marked_object L target cell_idx st =
     map_option (\<lambda>cs. visit_cells L target cs st) (marked_payload L (fst st) cell_idx)"

section \<open>What marking leaves alone\<close>

text \<open>Two heaps that differ in mark bits only.\<close>

definition same_but_marks :: "page_heap \<Rightarrow> page_heap \<Rightarrow> bool" where
  "same_but_marks h h' \<longleftrightarrow> h' = h\<lparr>mark_bits := mark_bits h'\<rparr>"

lemma same_but_marks_refl [simp]: "same_but_marks h h"
  by (simp add: same_but_marks_def)

lemma same_but_marks_update [simp]: "same_but_marks h (h\<lparr>mark_bits := b\<rparr>)"
  by (simp add: same_but_marks_def)

lemma same_but_marks_trans: "same_but_marks h h1 \<Longrightarrow> same_but_marks h1 h2 \<Longrightarrow> same_but_marks h h2"
  unfolding same_but_marks_def by (metis page_heap.surjective page_heap.update_convs(14))

lemma same_but_marks_sel:
  assumes "same_but_marks h h'"
  shows "n_pages h' = n_pages h" "base_ptr h' = base_ptr h" "descs h' = descs h" "cells h' = cells h"
    "start_bits h' = start_bits h" "alloc_regions h' = alloc_regions h" "cards h' = cards h"
    "pinned_cells h' = pinned_cells h" "explicit_pins h' = explicit_pins h"
    "free_page_list h' = free_page_list h" "recycle_live_counts_target h' = recycle_live_counts_target h"
proof -
  have "h' = h\<lparr>mark_bits := mark_bits h'\<rparr>" using assms by (simp add: same_but_marks_def)
  then show "n_pages h' = n_pages h" "base_ptr h' = base_ptr h" "descs h' = descs h" "cells h' = cells h"
    "start_bits h' = start_bits h" "alloc_regions h' = alloc_regions h" "cards h' = cards h"
    "pinned_cells h' = pinned_cells h" "explicit_pins h' = explicit_pins h"
    "free_page_list h' = free_page_list h" "recycle_live_counts_target h' = recycle_live_counts_target h"
    by (metis page_heap.select_convs page_heap.surjective page_heap.update_convs(14))+
qed

lemma same_but_marks_cong:
  assumes "same_but_marks h h'"
  shows "mark_gate L h' target w = mark_gate L h target w"
    "marked_payload L h' c = marked_payload L h c"
    "object_pointer_cells L h' c = object_pointer_cells L h c"
    "object_start_at_or_before h' c = object_start_at_or_before h c"
proof -
  note s = same_but_marks_sel [OF assms]
  have e: "page_of h' = page_of h" "desc h' = desc h" "cell_index h' = cell_index h"
    using s by (simp_all add: fun_eq_iff page_of_def desc_def cell_index_def reserved_bytes_def)
  show "mark_gate L h' target w = mark_gate L h target w"
    "marked_payload L h' c = marked_payload L h c"
    "object_pointer_cells L h' c = object_pointer_cells L h c"
    "object_start_at_or_before h' c = object_start_at_or_before h c"
    unfolding mark_gate_def marked_payload_def object_pointer_cells_def object_start_at_or_before_def
      e s(3,4,5) by (rule refl)+
qed

section \<open>The gate accepts object starts only\<close>

lemma mark_gate_Some:
  assumes "mark_gate L h target w = Some c"
  obtains a where "pointer_target L w = Some (a, if is_cons_start_at (start_bits h) c then PK_Cons else PK_Header)"
    "page_of h a = Some (c div PAGE_SIZE_CELLS)" "c = cell_index h a" "c < total_cells_of h"
    "pgen (descs h ! (c div PAGE_SIZE_CELLS)) = target"
    "kind (descs h ! (c div PAGE_SIZE_CELLS)) \<in> {Kind_Cons, Kind_Boxed, Kind_Large}"
    "is_start_at (start_bits h) c"
proof -
  obtain a k where a: "pointer_target L w = Some (a, k)"
    using assms by (auto simp: mark_gate_def  split: option.splits)
  obtain p where p: "page_of h a = Some p"
    using assms a by (auto simp: mark_gate_def  split: option.splits)
  note c = page_of_cell_index [OF p]
  have "c = cell_index h a \<and> pgen (descs h ! p) = target \<and>
      kind (descs h ! p) \<in> {Kind_Cons, Kind_Boxed, Kind_Large} \<and> is_start_at (start_bits h) c \<and>
      (k = PK_Cons) = is_cons_start_at (start_bits h) c"
    using assms a p
    by (auto simp: mark_gate_def desc_def Let_def 
        split: if_splits pointer_kind.splits bool.splits)
  then show ?thesis
    using that [of a] a p c by (cases k) auto
qed

lemma mark_gate_bound: "mark_gate L h target w = Some c \<Longrightarrow> c < total_cells_of h"
  by (erule mark_gate_Some)

definition marks :: "page_heap \<Rightarrow> nat set" where
  "marks h = {c. is_marked h c}"

lemma marks_mark_cell [simp]: "marks (snd (mark_cell h c)) = insert c (marks h)"
  by (auto simp: marks_def mark_cell_def is_marked_def Let_def bitmap_simps)

lemma mark_cell_eq: "mark_cell h c = (c \<in> marks h, h\<lparr>mark_bits := bit1_set (mark_bits h) c\<rparr>)"
  by (simp add: mark_cell_def marks_def is_marked_def Let_def)

lemma marks_update: "marks (h\<lparr>mark_bits := bit1_set (mark_bits h) c\<rparr>) = insert c (marks h)"
  using marks_mark_cell [of h c] by (simp add: mark_cell_eq)

text \<open>Offering a list of cells: what is marked and what is pushed.\<close>

definition targets :: "heap_layout \<Rightarrow> generation \<Rightarrow> page_heap \<Rightarrow> nat list \<Rightarrow> nat set" where
  "targets L target h cs = {d. \<exists>c \<in> set cs. mark_gate L h target (cells h c) = Some d}"

lemma finite_targets [simp]: "finite (targets L target h cs)"
proof -
  have "targets L target h cs \<subseteq> (\<lambda>c. the (mark_gate L h target (cells h c))) ` set cs"
    by (force simp: targets_def image_iff)
  then show ?thesis by (rule finite_subset) simp
qed

lemma targets_cong: "same_but_marks h h' \<Longrightarrow> targets L target h' cs = targets L target h cs"
  by (simp add: targets_def same_but_marks_cong same_but_marks_sel)

lemma try_mark_root_cases:
  "try_mark_root L target w (h, q) =
     (case mark_gate L h target w of
        None \<Rightarrow> (h, q)
      | Some c \<Rightarrow> (h\<lparr>mark_bits := bit1_set (mark_bits h) c\<rparr>, if c \<in> marks h then q else c # q))"
  by (simp add: try_mark_root_def mark_cell_eq split: option.split)

lemma try_mark_root_same: "try_mark_root L target w (h, q) = (h', q') \<Longrightarrow> same_but_marks h h'"
  by (auto simp: try_mark_root_cases split: option.splits)

interpretation mark_offers: offers marks "\<lambda>h. mark_gate L h target" "try_mark_root L target" cells total_cells_of
  for L target
proof unfold_locales
  fix w h q h' q' assume o: "try_mark_root L target w (h, q) = (h', q')"
  note s = try_mark_root_same [OF o]
  show "marks h' = marks h \<union> set_option (mark_gate L h target w)"
    using o by (auto simp: try_mark_root_cases marks_update split: option.splits)
  show "q' = (case mark_gate L h target w of None \<Rightarrow> q | Some c \<Rightarrow> if c \<in> marks h then q else c # q)"
    using o by (auto simp: try_mark_root_cases split: option.splits)
  show "mark_gate L h' target = mark_gate L h target \<and> cells h' = cells h \<and> total_cells_of h' = total_cells_of h"
    using same_but_marks_cong(1) [OF s] same_but_marks_sel [OF s] by (simp add: fun_eq_iff total_cells_of_def)
qed (rule mark_gate_bound)

lemma visit_cells_words:
  "visit_cells L target cs (h, q) = fold (try_mark_root L target) (map (cells h) cs) (h, q)"
  using mark_offers.offer_cells_words [of L target cs h q]
  by (simp add: visit_cells_def case_prod_beta')

lemma offer_words_same:
  "fold (try_mark_root L target) ws (h, q) = (h', q') \<Longrightarrow> same_but_marks h h'"
proof (induction ws arbitrary: h q)
  case (Cons w ws)
  obtain h1 q1 where o: "try_mark_root L target w (h, q) = (h1, q1)" by fastforce
  then show ?case
    using Cons same_but_marks_trans [OF try_mark_root_same [OF o]] by simp
qed simp

lemma visit_cells_facts:
  assumes "visit_cells L target cs (h, q) = (h', q')"
  shows "same_but_marks h h'" "marks h' = marks h \<union> targets L target h cs"
    "set q' = set q \<union> (targets L target h cs - marks h)"
    "length q' + card ({..<total_cells_of h} - marks h') \<le> length q + card ({..<total_cells_of h} - marks h)"
proof -
  note f = mark_offers.offer_words [OF assms [unfolded visit_cells_words]]
  have "{d. \<exists>w \<in> set (map (cells h) cs). mark_gate L h target w = Some d} = targets L target h cs"
    by (auto simp: targets_def)
  then show "marks h' = marks h \<union> targets L target h cs"
    "set q' = set q \<union> (targets L target h cs - marks h)"
    "length q' + card ({..<total_cells_of h} - marks h') \<le> length q + card ({..<total_cells_of h} - marks h)"
    using f by simp_all
  show "same_but_marks h h'" using assms unfolding visit_cells_words by (rule offer_words_same)
qed

lemma scan_marked_object_facts:
  assumes "scan_marked_object L target c (h, q) = Some (h', q')"
  obtains cs where "marked_payload L h c = Some cs" "visit_cells L target cs (h, q) = (h', q')"
  using assms by (auto simp: scan_marked_object_def)

section \<open>Draining\<close>

text \<open>
  The loop ends because every push marks a cell of the reservation that was not marked: the
  list's length and the number of unmarked cells together go down with every pop.
\<close>

function drain :: "heap_layout \<Rightarrow> generation \<Rightarrow> page_heap \<times> nat list \<Rightarrow> page_heap option" where
  "drain L target (h, []) = Some h"
| "drain L target (h, cell_idx # queue) =
     (case scan_marked_object L target cell_idx (h, queue) of
        None \<Rightarrow> None
      | Some st \<Rightarrow> drain L target st)"
  by pat_completeness auto

termination drain
proof (relation "measure (\<lambda>(L, target, h, q). length q + card ({..<total_cells_of h} - marks h))")
  fix L target h c q st
  assume st: "scan_marked_object L target c (h, q) = Some st"
  obtain h' q' where s: "st = (h', q')" by (cases st)
  obtain cs where "visit_cells L target cs (h, q) = (h', q')"
    using st [unfolded s] by (rule scan_marked_object_facts)
  note f = visit_cells_facts [OF this]
  have "total_cells_of h' = total_cells_of h" by (simp add: total_cells_of_def same_but_marks_sel [OF f(1)])
  then show "((L, target, st), (L, target, h, c # q)) \<in>
      measure (\<lambda>(L, target, h, q). length q + card ({..<total_cells_of h} - marks h))"
    using f(4) by (simp add: s)
qed simp

section \<open>Marking as a trace\<close>

text \<open>The graph marking follows, and the marks that belong to the target generation.\<close>

definition succs :: "heap_layout \<Rightarrow> generation \<Rightarrow> page_heap \<Rightarrow> nat \<Rightarrow> nat set" where
  "succs L target h c = (case marked_payload L h c of None \<Rightarrow> {} | Some cs \<Rightarrow> targets L target h cs)"

definition in_gen :: "page_heap \<Rightarrow> generation \<Rightarrow> nat \<Rightarrow> bool" where
  "in_gen h g c \<longleftrightarrow> c div PAGE_SIZE_CELLS < n_pages h \<and> pgen (descs h ! (c div PAGE_SIZE_CELLS)) = g"

definition gen_marks :: "generation \<Rightarrow> page_heap \<Rightarrow> nat set" where
  "gen_marks g h = {c \<in> marks h. in_gen h g c}"

lemma succs_cong: "same_but_marks h h' \<Longrightarrow> succs L target h' = succs L target h"
  by (rule ext) (simp add: succs_def same_but_marks_cong targets_cong split: option.splits)

lemma in_gen_cong: "same_but_marks h h' \<Longrightarrow> in_gen h' g c = in_gen h g c"
  by (simp add: in_gen_def same_but_marks_sel)

lemma mark_gate_in_gen:
  assumes "mark_gate L h target w = Some d"
  shows "in_gen h target d"
proof -
  obtain a where "page_of h a = Some (d div PAGE_SIZE_CELLS)" "pgen (descs h ! (d div PAGE_SIZE_CELLS)) = target"
    using assms by (rule mark_gate_Some)
  then show ?thesis using page_of_bound by (simp add: in_gen_def)
qed

lemma targets_in_gen: "targets L target h cs \<subseteq> {c. in_gen h target c}"
  using mark_gate_in_gen by (auto simp: targets_def)

lemma scan_facts:
  assumes "scan_marked_object L target c (h, q) = Some (h', q')"
  shows "same_but_marks h h'" "marks h' = marks h \<union> succs L target h c"
    "set q' = set q \<union> (succs L target h c - marks h)"
proof -
  obtain cs where cs: "marked_payload L h c = Some cs" and v: "visit_cells L target cs (h, q) = (h', q')"
    using assms by (rule scan_marked_object_facts)
  have s: "succs L target h c = targets L target h cs" by (simp add: succs_def cs)
  show "same_but_marks h h'" "marks h' = marks h \<union> succs L target h c"
    "set q' = set q \<union> (succs L target h c - marks h)"
    using visit_cells_facts [OF v] by (simp_all add: s)
qed

lemma succs_in_gen: "d \<in> succs L target h c \<Longrightarrow> in_gen h target d"
  using targets_in_gen by (fastforce simp: succs_def split: option.splits)

lemma gen_marks_extend:
  assumes "same_but_marks h h'" "marks h' = marks h \<union> D" "\<And>d. d \<in> D \<Longrightarrow> in_gen h g d"
  shows "gen_marks g h' = gen_marks g h \<union> D"
  using assms in_gen_cong [OF assms(1)] by (auto simp: gen_marks_def)

text \<open>The scan keeps the contract of a tracer: this interpretation carries all of marking.\<close>

interpretation page_marker: tracer "gen_marks target" "succs L target" "scan_marked_object L target"
  for L target
proof unfold_locales
  fix c s q s' q' assume a: "scan_marked_object L target c (s, q) = Some (s', q')"
  note f = scan_facts [OF a]
  show "gen_marks target s' = gen_marks target s \<union> succs L target s c"
    by (rule gen_marks_extend [OF f(1,2)]) (rule succs_in_gen)
  show "set q' = set q \<union> (succs L target s c - gen_marks target s)"
    using f(3) succs_in_gen by (auto simp: gen_marks_def)
  show "succs L target s' = succs L target s" by (rule succs_cong [OF f(1)])
qed

lemma drain_same: "drain L target st = Some h' \<Longrightarrow> same_but_marks (fst st) h'"
proof (induction L target st rule: drain.induct)
  case (2 L target h c q)
  obtain st where s: "scan_marked_object L target c (h, q) = Some st" "drain L target st = Some h'"
    using "2.prems" by (auto split: option.splits)
  then show ?case
    using "2.IH" [OF s] scan_facts(1) [of L target c h q "fst st" "snd st"] same_but_marks_trans by simp
qed simp

lemma drain_other_marks:
  "drain L target st = Some h' \<Longrightarrow> \<not> in_gen (fst st) target c \<Longrightarrow> c \<in> marks h' \<longleftrightarrow> c \<in> marks (fst st)"
proof (induction L target st rule: drain.induct)
  case (2 L target h c' q)
  obtain st where s: "scan_marked_object L target c' (h, q) = Some st" "drain L target st = Some h'"
    using "2.prems" by (auto split: option.splits)
  then have f: "scan_marked_object L target c' (h, q) = Some (fst st, snd st)" by simp
  have "c \<notin> succs L target h c'" using "2.prems"(2) succs_in_gen [of c L target h c'] by auto
  then show ?case
    using "2.IH" [OF s] "2.prems"(2) scan_facts(1,2) [OF f] in_gen_cong [OF scan_facts(1) [OF f]] by simp
qed simp

lemma drain_tracing:
  assumes "drain L target (h, q) = Some h'" "tracing (succs L target h) M0 S (gen_marks target h) (set q)"
  shows "tracing (succs L target h') M0 S (gen_marks target h') (set [])"
  using assms
proof (induction L target "(h, q)" arbitrary: h q rule: drain.induct)
  case (2 L target h c q)
  obtain h1 q1 where s: "scan_marked_object L target c (h, q) = Some (h1, q1)" "drain L target (h1, q1) = Some h'"
    using "2.prems" by (auto split: option.splits)
  show ?case
    using "2.hyps" [OF s] page_marker.scan_keeps_tracing [OF "2.prems"(2) s(1)] by blast
qed simp

text \<open>Marking returns unless a header on the way is undecodable.\<close>

definition decodable :: "heap_layout \<Rightarrow> page_heap \<Rightarrow> nat \<Rightarrow> bool" where
  "decodable L h c \<longleftrightarrow> marked_payload L h c \<noteq> None"

lemma drain_defined:
  assumes "\<And>c. c \<in> set (snd st) \<Longrightarrow> reaches (succs L target (fst st)) S c"
    "\<And>c. reaches (succs L target (fst st)) S c \<Longrightarrow> decodable L (fst st) c"
  shows "drain L target st \<noteq> None"
  using assms
proof (induction L target st rule: drain.induct)
  case (2 L target h c q)
  have c: "reaches (succs L target h) S c" using "2.prems"(1) [of c] by simp
  then obtain cs where "marked_payload L h c = Some cs"
    using "2.prems"(2) by (auto simp: decodable_def)
  then obtain h1 q1 where s: "scan_marked_object L target c (h, q) = Some (h1, q1)"
    by (auto simp: scan_marked_object_def intro: prod.exhaust)
  note f = scan_facts [OF s]
  have g: "succs L target h1 = succs L target h" by (rule succs_cong [OF f(1)])
  have q: "reaches (succs L target h) S d" if "d \<in> set q1" for d
    using that f(3) "2.prems"(1) [of d] c reaches.edge [of "succs L target h" S c d] by auto
  have d: "decodable L h1 d = decodable L h d" for d
    using same_but_marks_cong(2) [OF f(1)] by (simp add: decodable_def)
  have "drain L target (h1, q1) \<noteq> None"
    using "2.IH" [OF s] q "2.prems"(2) unfolding fst_conv snd_conv g d by blast
  then show ?case using s by simp
qed simp

section \<open>Entry points\<close>

definition visit_word_roots ::
  "heap_layout \<Rightarrow> generation \<Rightarrow> u64 list \<Rightarrow> page_heap \<times> nat list \<Rightarrow> page_heap \<times> nat list" where
  "visit_word_roots L target roots st = fold (try_mark_root L target) roots st"

definition mark_from_roots ::
  "heap_layout \<Rightarrow> page_heap \<Rightarrow> generation \<Rightarrow> u64 list \<Rightarrow> page_heap option" where
  "mark_from_roots L h target roots =
     drain L target (visit_word_roots L target roots (clear_mark_bits_in_gen h target, []))"

text \<open>
  The object-aware card scan, the same loop in \<open>PageMarker\<close> and \<open>PageEvacuator\<close>: \<open>visit\<close> is
  what is done with each pointer cell, \<open>hp\<close> the heap inside the scanner's state.
\<close>

function first_start :: "bitmap \<Rightarrow> nat \<Rightarrow> nat \<Rightarrow> nat" where
  "first_start bits t e = (if t < e \<and> \<not> is_start_at bits t then first_start bits (t + 1) e else t)"
  by auto
termination by (relation "measure (\<lambda>(bits, t, e). e - t)") auto

declare first_start.simps [simp del]

function card_loop ::
  "heap_layout \<Rightarrow> (nat \<Rightarrow> 's \<Rightarrow> 's) \<Rightarrow> ('s \<Rightarrow> page_heap) \<Rightarrow> nat \<Rightarrow> nat \<Rightarrow> 's \<Rightarrow> 's option" where
  "card_loop L visit hp s e st =
     (if \<not> s < e then Some st
      else if \<not> is_start_at (start_bits (hp st)) s then Some st
      else (case object_pointer_cells L (hp st) s of
              None \<Rightarrow> None
            | Some (sz, p_start, p_end) \<Rightarrow>
                (let st = fold visit [s + p_start..<s + p_end] st in
                 if sz = 0 then Some st
                 else card_loop L visit hp (s + sz) e st)))"
  by auto
termination by (relation "measure (\<lambda>(L, visit, hp, s, e, st). e - s)") auto

declare card_loop.simps [simp del]

definition visit_card_pointer_cells ::
  "heap_layout \<Rightarrow> (nat \<Rightarrow> 's \<Rightarrow> 's) \<Rightarrow> ('s \<Rightarrow> page_heap) \<Rightarrow> nat \<Rightarrow> nat \<Rightarrow> 's \<Rightarrow> 's option" where
  "visit_card_pointer_cells L visit hp start e st =
     (let s = (case object_start_at_or_before (hp st) start of
                 Some s \<Rightarrow> s
               | None \<Rightarrow> first_start (start_bits (hp st)) start e)
      in card_loop L visit hp s e st)"

definition mark_visit_card ::
  "heap_layout \<Rightarrow> generation \<Rightarrow> nat \<Rightarrow> nat \<Rightarrow> page_heap \<times> nat list \<Rightarrow> (page_heap \<times> nat list) option" where
  "mark_visit_card L target start e st =
     visit_card_pointer_cells L (\<lambda>c st. try_mark_root L target (cells (fst st) c) st) fst start e st"

text \<open>The pinned objects of other generations: their pointer cells are offered as roots.\<close>

definition cross_gen_payload :: "heap_layout \<Rightarrow> page_heap \<Rightarrow> nat \<Rightarrow> nat list option" where
  "cross_gen_payload L h cell_idx =
     (if is_cons_start_at (start_bits h) cell_idx then Some [cell_idx..<cell_idx + 2]
      else (case header_layout L (cells h cell_idx) of
              None \<Rightarrow> None
            | Some layout \<Rightarrow>
                if pointer_cell_count layout = 0 then Some []
                else Some [cell_idx + pointer_cells_start layout..<cell_idx + pointer_cells_end layout]))"

definition offer_cross_gen_pin ::
  "heap_layout \<Rightarrow> generation \<Rightarrow> nat \<Rightarrow> nat \<times> page_heap \<times> nat list \<Rightarrow> (nat \<times> page_heap \<times> nat list) option" where
  "offer_cross_gen_pin L target cell_idx = (\<lambda>(new_seeds, h, q).
     (let page_idx = cell_idx div PAGE_SIZE_CELLS; pinned_gen = pgen (desc h page_idx) in
      if pinned_gen = target then Some (new_seeds, h, q)
      else if pinned_gen \<notin> {G0, G1, Tenured} then Some (new_seeds, h, q)
      else if kind (desc h page_idx) \<notin> {Kind_Cons, Kind_Boxed, Kind_Large} then Some (new_seeds, h, q)
      else if \<not> is_start_at (start_bits h) cell_idx then Some (new_seeds, h, q)
      else (case cross_gen_payload L h cell_idx of
              None \<Rightarrow> None
            | Some cs \<Rightarrow>
                Some (fold (\<lambda>c (n, h, q).
                        (let before = length q; (h, q') = try_mark_root L target (cells h c) (h, q)
                         in (if length q' > before then n + (length q' - before) else n, h, q')))
                      cs (new_seeds, h, q)))))"

definition extend_mark_from_cross_gen_pinned ::
  "heap_layout \<Rightarrow> page_heap \<Rightarrow> generation \<Rightarrow> (nat \<times> page_heap) option" where
  "extend_mark_from_cross_gen_pinned L h target =
     (if pinned_cells h = [] then Some (0, h)
      else (case fold_opt (offer_cross_gen_pin L target) (pinned_cells h) (0, h, []) of
              None \<Rightarrow> None
            | Some (new_seeds, h, q) \<Rightarrow> map_option (\<lambda>h. (new_seeds, h)) (drain L target (h, q))))"

definition offer_pin ::
  "generation \<Rightarrow> nat \<Rightarrow> nat \<times> page_heap \<times> nat list \<Rightarrow> nat \<times> page_heap \<times> nat list" where
  "offer_pin target cell_idx = (\<lambda>(newly_marked, h, q).
     (let page_idx = cell_idx div PAGE_SIZE_CELLS in
      if pgen (desc h page_idx) \<noteq> target then (newly_marked, h, q)
      else if kind (desc h page_idx) \<notin> {Kind_Cons, Kind_Boxed, Kind_Large} then (newly_marked, h, q)
      else if \<not> is_start_at (start_bits h) cell_idx then (newly_marked, h, q)
      else
        (let (was_marked, h) = mark_cell h cell_idx in
         if was_marked then (newly_marked, h, q) else (newly_marked + 1, h, cell_idx # q))))"

definition extend_mark_from_pinned ::
  "heap_layout \<Rightarrow> page_heap \<Rightarrow> generation \<Rightarrow> (nat \<times> page_heap) option" where
  "extend_mark_from_pinned L h target =
     (if pinned_cells h = [] then Some (0, h)
      else
        (let (newly_marked, h, q) = fold (offer_pin target) (pinned_cells h) (0, h, [])
         in map_option (\<lambda>h. (newly_marked, h)) (drain L target (h, q))))"

definition marked_cells_in_gen :: "page_heap \<Rightarrow> generation \<Rightarrow> nat list" where
  "marked_cells_in_gen h target =
     concat (map (\<lambda>page_idx.
       (let d = descs h ! page_idx in
        if pgen d \<noteq> target then []
        else
          (let first_cell = page_idx * PAGE_SIZE_CELLS;
               last_cell = first_cell + PAGE_SIZE_CELLS;
               cap = first_cell + unat (words_used d)
           in filter (is_marked h) [first_cell..<min cap last_cell])))
       [0..<length (descs h)])"

section \<open>Properties\<close>

definition root_targets :: "heap_layout \<Rightarrow> generation \<Rightarrow> page_heap \<Rightarrow> u64 list \<Rightarrow> nat set" where
  "root_targets L target h roots = {d. \<exists>w \<in> set roots. mark_gate L h target w = Some d}"

lemma visit_roots_facts:
  assumes "visit_word_roots L target roots (h, q) = (h', q')"
  shows "same_but_marks h h' \<and> marks h' = marks h \<union> root_targets L target h roots \<and>
    set q' = set q \<union> (root_targets L target h roots - marks h)"
  using mark_offers.offer_words(1,2) [OF assms [unfolded visit_word_roots_def]]
    offer_words_same [OF assms [unfolded visit_word_roots_def]]
  by (simp add: root_targets_def)

lemma finite_root_targets [simp]: "finite (root_targets L target h roots)"
proof -
  have "root_targets L target h roots \<subseteq> (\<lambda>w. the (mark_gate L h target w)) ` set roots"
    by (force simp: root_targets_def image_iff)
  then show ?thesis by (rule finite_subset) simp
qed

lemma root_targets_in_gen: "d \<in> root_targets L target h roots \<Longrightarrow> in_gen h target d"
  using mark_gate_in_gen by (auto simp: root_targets_def)

lemma clear_marks_facts:
  assumes "length (descs h) = n_pages h"
  shows "same_but_marks h (clear_mark_bits_in_gen h g)"
    "c \<in> marks (clear_mark_bits_in_gen h g) \<longleftrightarrow> c \<in> marks h \<and> \<not> in_gen h g c"
  using assms
  by (auto simp: clear_mark_bits_in_gen_def marks_def is_marked_def mark_map.test_clear_list
      pages_in_gen_def in_gen_def)

text \<open>Where the drain of \<open>mark_from_roots\<close> starts.\<close>

lemma mark_start:
  assumes len: "length (descs h) = n_pages h"
    and v: "visit_word_roots L target roots (clear_mark_bits_in_gen h target, []) = (h1, q1)"
  shows "same_but_marks h h1"
    "tracing (succs L target h) {} (root_targets L target h roots) (gen_marks target h1) (set q1)"
    "\<not> in_gen h target c \<Longrightarrow> c \<in> marks h1 \<longleftrightarrow> c \<in> marks h"
    "set q1 \<subseteq> root_targets L target h roots"
proof -
  let ?h0 = "clear_mark_bits_in_gen h target" and ?R = "root_targets L target h roots"
  note c = clear_marks_facts [OF len]
  have R: "root_targets L target ?h0 roots = ?R"
    by (simp add: root_targets_def same_but_marks_cong(1) [OF c(1)])
  note f = visit_roots_facts [OF v, unfolded R]
  show s: "same_but_marks h h1" using same_but_marks_trans [OF c(1)] f by blast
  have g0: "gen_marks target ?h0 = {}" using c(2) in_gen_cong [OF c(1)] by (auto simp: gen_marks_def)
  have h1: "gen_marks target h1 = gen_marks target ?h0 \<union> ?R"
    using f root_targets_in_gen in_gen_cong [OF c(1)]
    by (intro gen_marks_extend) (auto)
  have q: "set q1 = ?R" using f c(2) root_targets_in_gen by auto
  show "set q1 \<subseteq> ?R" by (simp add: q)
  have "tracing (succs L target h) {} ({} \<union> ?R) ({} \<union> ?R) ({} \<union> (?R - {}))"
    by (rule tracing_seeds [OF tracing_start]) simp
  then show "tracing (succs L target h) {} ?R (gen_marks target h1) (set q1)"
    by (simp add: h1 g0 q)
  show "\<not> in_gen h target c \<Longrightarrow> c \<in> marks h1 \<longleftrightarrow> c \<in> marks h"
    using f c(2) root_targets_in_gen by auto
qed

text \<open>A cons that points to itself, the smallest cyclic heap.\<close>

definition self_cons_heap :: page_heap where
  "self_cons_heap = (with_reservation 65536 (\<lambda>_. True) 65536)\<lparr>
     descs := [(desc_fresh G0 Kind_Cons)\<lparr>words_used := 2\<rparr>],
     start_bits := set_cons_start_bit_at (\<lambda>_. 0) 0,
     cells := (\<lambda>_. 0)(0 := lisp_make_pointer 65536 PK_Cons, 1 := lisp_make_pointer 65536 PK_Cons)\<rparr>"

lemma self_cons_sel:
  "n_pages self_cons_heap = 1" "length (descs self_cons_heap) = n_pages self_cons_heap"
  "base_ptr self_cons_heap = 65536" "descs self_cons_heap = [(desc_fresh G0 Kind_Cons)\<lparr>words_used := 2\<rparr>]"
  by (simp_all add: self_cons_heap_def div_ceil_def PAGE_SIZE_BYTES_def)

lemma self_cons_cells:
  "cells self_cons_heap 0 = lisp_make_pointer 65536 PK_Cons"
  "cells self_cons_heap (Suc 0) = lisp_make_pointer 65536 PK_Cons"
  by (simp_all add: self_cons_heap_def)

lemma self_cons_decodable: "decodable L self_cons_heap c" if "in_gen self_cons_heap G0 c"
proof -
  have "c div PAGE_SIZE_CELLS = 0" using that by (simp add: in_gen_def self_cons_sel)
  then show ?thesis by (simp add: decodable_def marked_payload_def Let_def desc_def self_cons_sel)
qed

lemma self_cons_pointer:
  "pointer_target lisp_layout (lisp_make_pointer 65536 PK_Cons) = Some (65536, PK_Cons)"
  "page_of self_cons_heap 65536 = Some 0" "cell_index self_cons_heap 65536 = 0"
  "is_start_at (start_bits self_cons_heap) 0" "is_cons_start_at (start_bits self_cons_heap) 0"
proof -
  have "lisp_classify (lisp_make_pointer 65536 PK_Cons) = PointerCons 65536"
    using lisp.classify_pointer [of 65536 PK_Cons] by simp
  then show "pointer_target lisp_layout (lisp_make_pointer 65536 PK_Cons) = Some (65536, PK_Cons)"
    by (simp add: pointer_target_def)
  show "page_of self_cons_heap 65536 = Some 0" "cell_index self_cons_heap 65536 = 0"
    by (simp_all add: page_of_def cell_index_def self_cons_sel reserved_bytes_def Let_def PAGE_SIZE_BYTES_def)
  show "is_start_at (start_bits self_cons_heap) 0" "is_cons_start_at (start_bits self_cons_heap) 0"
    by (simp_all add: self_cons_heap_def bitmap_simps)
qed

lemma self_cons_gate: "mark_gate lisp_layout self_cons_heap G0 (lisp_make_pointer 65536 PK_Cons) = Some 0"
  by (simp add: mark_gate_def self_cons_pointer desc_def self_cons_sel)

lemma self_cons_reach:
  assumes "reaches (succs lisp_layout G0 self_cons_heap) (root_targets lisp_layout G0 self_cons_heap roots) c"
  shows "in_gen self_cons_heap G0 c"
  using assms by (cases rule: reaches.cases) (auto dest: root_targets_in_gen succs_in_gen)

lemma mark_from_roots_exact:
  assumes "length (descs h) = n_pages h" "mark_from_roots L h target roots = Some h'"
  shows "same_but_marks h h'"
    and "in_gen h target c \<Longrightarrow>
      is_marked h' c \<longleftrightarrow> reaches (succs L target h) (root_targets L target h roots) c"
    and "\<not> in_gen h target c \<Longrightarrow> is_marked h' c \<longleftrightarrow> is_marked h c"
proof -
  obtain h1 q1 where v: "visit_word_roots L target roots (clear_mark_bits_in_gen h target, []) = (h1, q1)"
    by fastforce
  note m = mark_start [OF assms(1) v]
  have d: "drain L target (h1, q1) = Some h'" using assms(2) v by (simp add: mark_from_roots_def)
  have g: "succs L target h1 = succs L target h" by (rule succs_cong [OF m(1)])
  show s: "same_but_marks h h'" using same_but_marks_trans [OF m(1)] drain_same [OF d] by simp
  then have g': "succs L target h' = succs L target h" by (rule succs_cong)
  have "gen_marks target h' = {} \<union> {c. reaches (succs L target h') (root_targets L target h roots) c}"
    using drain_tracing [OF d m(2) [folded g]] by (rule page_marker.drained) simp
  then show "is_marked h' c \<longleftrightarrow> reaches (succs L target h) (root_targets L target h roots) c"
    if "in_gen h target c"
    using that in_gen_cong [OF s] by (auto simp: gen_marks_def marks_def g')
  show "is_marked h' c \<longleftrightarrow> is_marked h c" if "\<not> in_gen h target c"
    using that drain_other_marks [OF d, of c] m(3) [OF that] in_gen_cong [OF m(1)] by (simp add: marks_def)
qed

lemma mark_from_roots_defined:
  assumes "length (descs h) = n_pages h"
    "\<And>c. reaches (succs L target h) (root_targets L target h roots) c \<Longrightarrow> decodable L h c"
  shows "\<exists>h'. mark_from_roots L h target roots = Some h'"
proof -
  obtain h1 q1 where v: "visit_word_roots L target roots (clear_mark_bits_in_gen h target, []) = (h1, q1)"
    by fastforce
  note m = mark_start [OF assms(1) v]
  have "drain L target (h1, q1) \<noteq> None"
  proof (rule drain_defined)
    fix c
    show "reaches (succs L target (fst (h1, q1))) (root_targets L target h roots) c" if "c \<in> set (snd (h1, q1))"
      using that m(4) by (auto intro: reaches.seed)
    show "decodable L (fst (h1, q1)) c"
      if "reaches (succs L target (fst (h1, q1))) (root_targets L target h roots) c"
      using that assms(2) same_but_marks_cong(2) [OF m(1)] succs_cong [OF m(1)] by (simp add: decodable_def)
  qed
  then show ?thesis using v by (simp add: mark_from_roots_def)
qed

text \<open>
  C1. The mark pass marks exactly what is live: when it returns, an object start of the target
  generation is marked if and only if it is reachable from the roots through the pointer cells
  of objects of that generation. Nothing but mark bits is written, and the marks of other
  generations are kept.
\<close>

theorem marked_iff_reachable:
  assumes "length (descs h) = n_pages h" "mark_from_roots L h target roots = Some h'"
  shows "same_but_marks h h' \<and>
    (\<forall>c. is_marked h' c \<longleftrightarrow>
       (if in_gen h target c then reaches (succs L target h) (root_targets L target h roots) c
        else is_marked h c))"
  using mark_from_roots_exact [OF assms] by simp

theorem marked_iff_reachable_witness:
  "\<exists>h'. mark_from_roots lisp_layout self_cons_heap G0 [lisp_make_pointer 65536 PK_Cons] = Some h' \<and>
     is_marked h' 0 \<and> \<not> is_marked h' 1"
proof -
  have "\<exists>h'. mark_from_roots lisp_layout self_cons_heap G0 [lisp_make_pointer 65536 PK_Cons] = Some h'"
    by (rule mark_from_roots_defined [OF self_cons_sel(2)]) (rule self_cons_decodable [OF self_cons_reach])
  then obtain h' where m: "mark_from_roots lisp_layout self_cons_heap G0 [lisp_make_pointer 65536 PK_Cons] = Some h'"
    by blast
  let ?R = "root_targets lisp_layout G0 self_cons_heap [lisp_make_pointer 65536 PK_Cons]"
  let ?G = "succs lisp_layout G0 self_cons_heap"
  note t = marked_iff_reachable [OF self_cons_sel(2) m]
  have R: "?R = {0}" by (auto simp: root_targets_def self_cons_gate)
  have g: "in_gen self_cons_heap G0 0" "in_gen self_cons_heap G0 1"
    by (simp_all add: in_gen_def self_cons_sel PAGE_SIZE_CELLS_num)
  have "?G 0 \<subseteq> {0}"
    by (auto simp: succs_def marked_payload_def desc_def self_cons_sel targets_def self_cons_cells
        upt_rec self_cons_gate split: if_splits)
  then have "reaches ?G ?R c \<Longrightarrow> c \<in> {0}" for c
    using reaches_closed [of ?G ?R c "{0}"] R by auto
  then have "\<not> reaches ?G ?R 1" by fastforce
  moreover have "reaches ?G ?R 0" by (rule reaches.seed) (simp add: R)
  ultimately show ?thesis using t g m by auto
qed

text \<open>
  C19. The mark pass always returns: the work list runs empty whatever the shape of the graph,
  cycles included, and the only way not to get a result is an undecodable header on a reachable
  object.
\<close>

theorem marking_returns:
  assumes "length (descs h) = n_pages h"
    "\<And>c. reaches (succs L target h) (root_targets L target h roots) c \<Longrightarrow> decodable L h c"
  shows "\<exists>h'. mark_from_roots L h target roots = Some h'"
  by (rule mark_from_roots_defined [OF assms])

theorem marking_returns_witness:
  "\<exists>h'. mark_from_roots lisp_layout self_cons_heap G0 [lisp_make_pointer 65536 PK_Cons] = Some h'"
  by (rule marking_returns [OF self_cons_sel(2)]) (rule self_cons_decodable [OF self_cons_reach])

end
