(* ===== verification/Trigger.thy ===== *)
theory Trigger
  imports Page_Heap
begin

text \<open>
  The parts of \<^verbatim>\<open>space.rs\<close> that decide when and what to collect, the statistics snapshot,
  the write barrier \<open>mark_card_at\<close> and the end-of-cycle rebuild of the card table.
\<close>

section \<open>Trigger policy\<close>

text \<open>\<open>usize::saturating_mul\<close>.\<close>

definition saturating_mul_usize :: "nat \<Rightarrow> nat \<Rightarrow> nat" where
  "saturating_mul_usize a b = min (a * b) (2 ^ 64 - 1)"

definition desc_bytes :: "page_desc \<Rightarrow> nat" where
  "desc_bytes d = unat (words_used d) * 8"

definition tenured_used_bytes :: "page_heap \<Rightarrow> nat" where
  "tenured_used_bytes h =
     sum_list (map desc_bytes (filter (\<lambda>d. pgen d = Tenured) (descs h)))"

definition should_collect :: "page_heap \<Rightarrow> bool" where
  "should_collect h \<longleftrightarrow> auto_gc_trigger_bytes h \<le> bytes_alloc_since_gc h"

definition should_collect_major :: "page_heap \<Rightarrow> bool" where
  "should_collect_major h \<longleftrightarrow>
     saturating_mul_usize (reserved_bytes h) (unat (tenured_full_threshold_bps h))
       \<le> saturating_mul_usize (tenured_used_bytes h) 10000"

definition recompute_auto_trigger :: "page_heap \<Rightarrow> page_heap" where
  "recompute_auto_trigger h =
     (let tenured_used = tenured_used_bytes h;
          budget = max (tenured_used div 2) (gc_budget_min_bytes h)
      in h\<lparr>bytes_alloc_since_gc := 0, auto_gc_trigger_bytes := budget\<rparr>)"

definition set_gc_budget_min_bytes :: "page_heap \<Rightarrow> nat \<Rightarrow> page_heap" where
  "set_gc_budget_min_bytes h bytes =
     recompute_auto_trigger (h\<lparr>gc_budget_min_bytes := max bytes 1\<rparr>)"

definition set_tenured_full_threshold_bps :: "page_heap \<Rightarrow> u32 \<Rightarrow> page_heap" where
  "set_tenured_full_threshold_bps h bps = h\<lparr>tenured_full_threshold_bps := min bps 10000\<rparr>"

section \<open>Statistics\<close>

record gc_stats =
  st_reserved_bytes :: nat
  st_committed_bytes :: nat
  st_page_count :: nat
  st_committed_pages :: nat
  st_g0_pages :: nat
  st_g1_pages :: nat
  st_tenured_pages :: nat
  st_free_pages :: nat
  st_g0_used_bytes :: nat
  st_g1_used_bytes :: nat
  st_tenured_used_bytes :: nat
  st_total_used_bytes :: nat
  st_bytes_alloc_since_gc :: nat
  st_auto_gc_trigger_bytes :: nat
  st_gc_budget_min_bytes :: nat
  st_tenured_full_threshold_bps :: u32
  st_last_mark_live_bytes :: nat
  st_last_mark_live_pages :: nat
  st_last_zero_live_pages_released :: nat
  st_last_pin_summary_objects :: nat
  st_last_pin_summary_cells :: nat
  st_minors_since_g0_promote :: u32
  st_g0_promotes_since_g1_promote :: u32

text \<open>The walk over the descriptors with its seven accumulators.\<close>

record occupancy =
  g0_pages_acc :: nat
  g1_pages_acc :: nat
  tenured_pages_acc :: nat
  free_pages_acc :: nat
  g0_bytes_acc :: nat
  g1_bytes_acc :: nat
  tenured_bytes_acc :: nat

fun occupancy_walk :: "page_desc list \<Rightarrow> occupancy \<Rightarrow> occupancy" where
  "occupancy_walk [] a = a"
| "occupancy_walk (d # ds) a =
     (let bytes = unat (words_used d) * 8 in
      occupancy_walk ds
        (case pgen d of
           G0 \<Rightarrow> a\<lparr>g0_pages_acc := g0_pages_acc a + 1, g0_bytes_acc := g0_bytes_acc a + bytes\<rparr>
         | G1 \<Rightarrow> a\<lparr>g1_pages_acc := g1_pages_acc a + 1, g1_bytes_acc := g1_bytes_acc a + bytes\<rparr>
         | Tenured \<Rightarrow> a\<lparr>tenured_pages_acc := tenured_pages_acc a + 1,
                       tenured_bytes_acc := tenured_bytes_acc a + bytes\<rparr>
         | Gen_Free \<Rightarrow> a\<lparr>free_pages_acc := free_pages_acc a + 1\<rparr>))"

definition stats :: "page_heap \<Rightarrow> gc_stats" where
  "stats h =
     (let a = occupancy_walk (descs h)
                \<lparr>g0_pages_acc = 0, g1_pages_acc = 0, tenured_pages_acc = 0, free_pages_acc = 0,
                 g0_bytes_acc = 0, g1_bytes_acc = 0, tenured_bytes_acc = 0\<rparr> in
      \<lparr>st_reserved_bytes = reserved_bytes h, st_committed_bytes = committed_bytes h,
       st_page_count = n_pages h, st_committed_pages = committed_count h,
       st_g0_pages = g0_pages_acc a, st_g1_pages = g1_pages_acc a,
       st_tenured_pages = tenured_pages_acc a, st_free_pages = free_pages_acc a,
       st_g0_used_bytes = g0_bytes_acc a, st_g1_used_bytes = g1_bytes_acc a,
       st_tenured_used_bytes = tenured_bytes_acc a,
       st_total_used_bytes = g0_bytes_acc a + g1_bytes_acc a + tenured_bytes_acc a,
       st_bytes_alloc_since_gc = bytes_alloc_since_gc h,
       st_auto_gc_trigger_bytes = auto_gc_trigger_bytes h,
       st_gc_budget_min_bytes = gc_budget_min_bytes h,
       st_tenured_full_threshold_bps = tenured_full_threshold_bps h,
       st_last_mark_live_bytes = last_mark_live_cells h * 8,
       st_last_mark_live_pages = last_mark_live_pages h,
       st_last_zero_live_pages_released = last_zero_live_pages_released h,
       st_last_pin_summary_objects = fst (last_pin_summary h),
       st_last_pin_summary_cells = snd (last_pin_summary h),
       st_minors_since_g0_promote = minors_since_g0_promote h,
       st_g0_promotes_since_g1_promote = g0_promotes_since_g1_promote h\<rparr>)"

section \<open>Cards\<close>

definition mark_card_at :: "page_heap \<Rightarrow> u64 \<Rightarrow> page_heap" where
  "mark_card_at h slot_addr =
     (let b = unat (base_ptr h); p = unat slot_addr in
      if p < b then h
      else
        (let byte_offset = p - b in
         if byte_offset < reserved_bytes h
         then h\<lparr>cards := mark_offset (cards h) byte_offset\<rparr>
         else h))"

text \<open>Does a cell classify as a heap pointer?\<close>

definition is_pointer_word :: "heap_layout \<Rightarrow> u64 \<Rightarrow> bool" where
  "is_pointer_word L w =
     (case classify L w of PointerCons _ \<Rightarrow> True | PointerHeader _ \<Rightarrow> True | _ \<Rightarrow> False)"

definition card_has_pointer :: "heap_layout \<Rightarrow> (nat \<Rightarrow> u64) \<Rightarrow> nat \<Rightarrow> bool" where
  "card_has_pointer L m card_first_cell =
     list_ex (\<lambda>c. is_pointer_word L (m c)) [card_first_cell..<card_first_cell + CARD_SIZE_CELLS]"

definition rebuild_card :: "heap_layout \<Rightarrow> page_heap \<Rightarrow> nat \<Rightarrow> nat \<Rightarrow> card_table \<Rightarrow> card_table" where
  "rebuild_card L h page_idx card_offset_in_page ct =
     (let page_base_cell = page_idx * PAGE_SIZE_CELLS;
          card_first_cell = page_base_cell + card_offset_in_page * CARD_SIZE_CELLS;
          card_idx = page_idx * cards_per_page + card_offset_in_page
      in if card_has_pointer L (cells h) card_first_cell
         then mark_offset ct (card_first_cell * 8)
         else clear_card ct card_idx)"

definition rebuild_page_cards :: "heap_layout \<Rightarrow> page_heap \<Rightarrow> nat \<Rightarrow> card_table \<Rightarrow> card_table" where
  "rebuild_page_cards L h page_idx ct =
     (if pgen (descs h ! page_idx) = Gen_Free
      then fold (\<lambda>c ct. clear_card ct (page_idx * cards_per_page + c)) [0..<cards_per_page] ct
      else fold (rebuild_card L h page_idx) [0..<cards_per_page] ct)"

definition rebuild_cards_for_old_gens :: "heap_layout \<Rightarrow> page_heap \<Rightarrow> page_heap" where
  "rebuild_cards_for_old_gens L h =
     h\<lparr>cards := fold (rebuild_page_cards L h) [0..<pages_high_water h] (cards h)\<rparr>"

section \<open>Facts\<close>

lemma occupancy_walk_sums:
  "occupancy_walk ds a =
     a\<lparr>g0_pages_acc := g0_pages_acc a + length (filter (\<lambda>d. pgen d = G0) ds),
       g1_pages_acc := g1_pages_acc a + length (filter (\<lambda>d. pgen d = G1) ds),
       tenured_pages_acc := tenured_pages_acc a + length (filter (\<lambda>d. pgen d = Tenured) ds),
       free_pages_acc := free_pages_acc a + length (filter (\<lambda>d. pgen d = Gen_Free) ds),
       g0_bytes_acc := g0_bytes_acc a + sum_list (map desc_bytes (filter (\<lambda>d. pgen d = G0) ds)),
       g1_bytes_acc := g1_bytes_acc a + sum_list (map desc_bytes (filter (\<lambda>d. pgen d = G1) ds)),
       tenured_bytes_acc := tenured_bytes_acc a
         + sum_list (map desc_bytes (filter (\<lambda>d. pgen d = Tenured) ds))\<rparr>"
  by (induction ds arbitrary: a) (auto simp: desc_bytes_def Let_def split: generation.splits)

lemma generation_partition:
  "length (filter (\<lambda>d. pgen d = G0) ds) + length (filter (\<lambda>d. pgen d = G1) ds)
     + length (filter (\<lambda>d. pgen d = Tenured) ds) + length (filter (\<lambda>d. pgen d = Gen_Free) ds)
   = length ds"
proof (induction ds)
  case (Cons d ds)
  then show ?case by (cases "pgen d") simp_all
qed simp

text \<open>
  The statistics snapshot agrees with the heap's own counters: the four page counts are
  \<open>count_pages_in_gen\<close> of the four generations and add up to the page count, the Tenured byte
  count is the one the trigger policy uses, and the total is the sum of the three.
\<close>

theorem stats_consistent:
  assumes "length (descs h) = n_pages h"
  shows "st_g0_pages (stats h) = count_pages_in_gen h G0 \<and>
    st_g1_pages (stats h) = count_pages_in_gen h G1 \<and>
    st_tenured_pages (stats h) = count_pages_in_gen h Tenured \<and>
    st_free_pages (stats h) = count_pages_in_gen h Gen_Free \<and>
    st_g0_pages (stats h) + st_g1_pages (stats h) + st_tenured_pages (stats h)
      + st_free_pages (stats h) = st_page_count (stats h) \<and>
    st_tenured_used_bytes (stats h) = tenured_used_bytes h \<and>
    st_total_used_bytes (stats h)
      = st_g0_used_bytes (stats h) + st_g1_used_bytes (stats h) + st_tenured_used_bytes (stats h)"
  using assms generation_partition [of "descs h"]
  by (simp add: stats_def Let_def occupancy_walk_sums count_pages_in_gen_def tenured_used_bytes_def)

theorem stats_consistent_witness:
  "st_free_pages (stats (with_reservation 65536 (\<lambda>_. True) 131072)) = 2"
proof -
  have "length (descs (with_reservation 65536 (\<lambda>_. True) 131072))
      = n_pages (with_reservation 65536 (\<lambda>_. True) 131072)"
    by simp
  from stats_consistent [OF this] show ?thesis
    by (simp add: count_pages_in_gen_def div_ceil_def PAGE_SIZE_BYTES_def)
qed

text \<open>
  C33. After a collection the next trigger fires after exactly the recomputed budget: the
  budget is half the Tenured bytes or the configured minimum, whichever is larger; the
  trigger does not fire at once when the minimum is positive (which the setter enforces), and
  fires as soon as that many bytes have been allocated.
\<close>

theorem auto_trigger_budget:
  "auto_gc_trigger_bytes (recompute_auto_trigger h)
     = max (tenured_used_bytes h div 2) (gc_budget_min_bytes h) \<and>
   \<not> should_collect (set_gc_budget_min_bytes h b) \<and>
   should_collect ((recompute_auto_trigger h)\<lparr>bytes_alloc_since_gc := n\<rparr>)
     = (tenured_used_bytes h div 2 \<le> n \<and> gc_budget_min_bytes h \<le> n) \<and>
   unat (tenured_full_threshold_bps (set_tenured_full_threshold_bps h bps)) \<le> 10000"
proof -
  have t: "tenured_used_bytes (h\<lparr>gc_budget_min_bytes := k\<rparr>) = tenured_used_bytes h" for k
    by (simp add: tenured_used_bytes_def)
  have "unat (min bps 10000) \<le> 10000"
    by (metis min.cobounded2 unat_numeral word_le_nat_alt
        unat_bintrunc mod_less_eq_dividend order_trans)
  then show ?thesis
    by (auto simp: recompute_auto_trigger_def should_collect_def set_gc_budget_min_bytes_def
        set_tenured_full_threshold_bps_def Let_def t)
qed

text \<open>
  The scaled comparison without its saturation: below \<open>2 ^ 48\<close> bytes, the size of a user address
  space, only the right-hand side can saturate, and then it is larger either way.
\<close>

lemma tenured_used_bound:
  assumes "length (descs h) = n_pages h" "\<forall>d \<in> set (descs h). unat (words_used d) \<le> PAGE_SIZE_CELLS"
  shows "tenured_used_bytes h \<le> reserved_bytes h"
proof -
  have "sum_list (map desc_bytes (filter P ds)) \<le> length ds * PAGE_SIZE_BYTES"
    if "\<forall>d \<in> set ds. unat (words_used d) \<le> PAGE_SIZE_CELLS" for P ds
    using that
  proof (induction ds)
    case (Cons d ds)
    then have "desc_bytes d \<le> PAGE_SIZE_BYTES" by (simp add: desc_bytes_def PAGE_SIZE_CELLS_num PAGE_SIZE_BYTES_def)
    then show ?case using Cons by simp
  qed simp
  from this [OF assms(2), of "\<lambda>d. pgen d = Tenured"] show ?thesis
    using assms(1) by (simp add: tenured_used_bytes_def reserved_bytes_def)
qed

lemma should_collect_major_exact:
  assumes "length (descs h) = n_pages h" "\<forall>d \<in> set (descs h). unat (words_used d) \<le> PAGE_SIZE_CELLS"
    "reserved_bytes h \<le> 2 ^ 48"
  shows "should_collect_major h \<longleftrightarrow>
    reserved_bytes h * unat (tenured_full_threshold_bps h) \<le> tenured_used_bytes h * 10000"
  using tenured_used_bound [OF assms(1,2)] assms(3)
  by (simp add: should_collect_major_def saturating_mul_usize_def min_def)

section \<open>The rebuilt card table\<close>

lemma cards_per_page_num: "cards_per_page = 128"
  by (simp add: cards_per_page_def PAGE_SIZE_CELLS_num CARD_SIZE_CELLS_def CARD_SIZE_BYTES_def)

lemma card_of_rebuild:
  "((p * PAGE_SIZE_CELLS + k * CARD_SIZE_CELLS) * 8) div CARD_SIZE_BYTES = p * cards_per_page + k"
proof -
  have "(p * 8192 + k * 64) * 8 = (p * 128 + k) * 512" for p k :: nat by simp
  then show ?thesis
    unfolding PAGE_SIZE_CELLS_num CARD_SIZE_CELLS_def CARD_SIZE_BYTES_def cards_per_page_num
    by simp
qed

lemma n_cards_rebuild_card [simp]: "n_cards (rebuild_card L h p k ct) = n_cards ct"
  by (simp add: rebuild_card_def Let_def)

lemma is_dirty_rebuild_card:
  "is_dirty (rebuild_card L h p k ct) c \<longleftrightarrow>
     (if c = p * cards_per_page + k
      then c < n_cards ct \<and> card_has_pointer L (cells h) (p * PAGE_SIZE_CELLS + k * CARD_SIZE_CELLS)
      else is_dirty ct c)"
proof -
  let ?c = "p * cards_per_page + k"
  have m: "is_dirty (mark_offset ct' ((p * PAGE_SIZE_CELLS + k * CARD_SIZE_CELLS) * 8)) c \<longleftrightarrow>
      (c < n_cards ct' \<and> c = ?c) \<or> is_dirty ct' c" for ct'
    unfolding is_dirty_mark_offset card_of_rebuild by auto
  show ?thesis
    unfolding rebuild_card_def Let_def
    by (cases "card_has_pointer L (cells h) (p * PAGE_SIZE_CELLS + k * CARD_SIZE_CELLS)")
      (simp_all only: if_True if_False m is_dirty_clear_card, auto simp: is_dirty_def)
qed

lemma is_dirty_rebuild_fold:
  assumes "distinct ks"
  shows "is_dirty (fold (rebuild_card L h p) ks ct) c \<longleftrightarrow>
     (if \<exists>k \<in> set ks. c = p * cards_per_page + k
      then c < n_cards ct \<and> card_has_pointer L (cells h) (c * CARD_SIZE_CELLS)
      else is_dirty ct c)"
  using assms
proof (induction ks arbitrary: ct)
  case (Cons k ks)
  have cell: "p * PAGE_SIZE_CELLS + k * CARD_SIZE_CELLS = (p * cards_per_page + k) * CARD_SIZE_CELLS" for k
    by (simp add: cards_per_page_num PAGE_SIZE_CELLS_num CARD_SIZE_CELLS_def CARD_SIZE_BYTES_def)
  show ?case
    using Cons by (auto simp: is_dirty_rebuild_card cell)
qed simp

lemma n_cards_rebuild_fold: "n_cards (fold (rebuild_card L h p) ks ct) = n_cards ct"
  by (induction ks arbitrary: ct) simp_all

lemma clear_fold_shift:
  "fold (\<lambda>c ct. clear_card ct (a + c)) ks ct = fold (\<lambda>c ct. clear_card ct c) (map ((+) a) ks) ct"
  by (induction ks arbitrary: ct) simp_all

lemma n_cards_clear_fold: "n_cards (fold (\<lambda>c ct. clear_card ct c) ks ct) = n_cards ct"
  by (induction ks arbitrary: ct) simp_all

lemma n_cards_rebuild_page [simp]: "n_cards (rebuild_page_cards L h p ct) = n_cards ct"
  by (simp add: rebuild_page_cards_def n_cards_rebuild_fold clear_fold_shift n_cards_clear_fold)

lemma card_in_page: "(\<exists>k < 128. c = p * 128 + k) \<longleftrightarrow> c div 128 = p" for c p :: nat
proof
  assume "c div 128 = p"
  then have "c = p * 128 + c mod 128" "c mod 128 < 128" by auto
  then show "\<exists>k < 128. c = p * 128 + k" by blast
qed auto

lemma is_dirty_rebuild_page:
  "is_dirty (rebuild_page_cards L h p ct) c \<longleftrightarrow>
     (if c div cards_per_page = p
      then c < n_cards ct \<and> pgen (descs h ! p) \<noteq> Gen_Free \<and>
        card_has_pointer L (cells h) (c * CARD_SIZE_CELLS)
      else is_dirty ct c)"
proof -
  have ex: "(\<exists>k \<in> set [0..<cards_per_page]. c = p * cards_per_page + k) \<longleftrightarrow> c div cards_per_page = p"
    using card_in_page [of c p] by (auto simp: cards_per_page_num)
  have mem: "c \<in> set (map ((+) (p * cards_per_page)) [0..<cards_per_page]) \<longleftrightarrow> c div cards_per_page = p"
    unfolding cards_per_page_num by (auto simp: div_nat_eqI)
  have clr: "is_dirty (fold (\<lambda>c ct. clear_card ct (p * cards_per_page + c)) [0..<cards_per_page] ct) c
      \<longleftrightarrow> is_dirty ct c \<and> c div cards_per_page \<noteq> p"
    unfolding clear_fold_shift is_dirty_clear_cards mem ..
  show ?thesis
  proof (cases "pgen (descs h ! p) = Gen_Free")
    case True
    show ?thesis
      unfolding rebuild_page_cards_def Let_def using True clr by simp
  next
    case False
    show ?thesis
      unfolding rebuild_page_cards_def Let_def is_dirty_rebuild_fold [OF distinct_upt] ex clr
      using False by (simp add: clear_fold_shift n_cards_clear_fold is_dirty_rebuild_fold ex clr del: set_upt)
  qed
qed

lemma is_dirty_rebuild_pages:
  assumes "distinct ps"
  shows "is_dirty (fold (rebuild_page_cards L h) ps ct) c \<longleftrightarrow>
     (if c div cards_per_page \<in> set ps
      then c < n_cards ct \<and> pgen (descs h ! (c div cards_per_page)) \<noteq> Gen_Free \<and>
        card_has_pointer L (cells h) (c * CARD_SIZE_CELLS)
      else is_dirty ct c)"
  using assms by (induction ps arbitrary: ct) (auto simp: is_dirty_rebuild_page)

text \<open>
  C26. The end-of-cycle rebuild leaves the remembered set complete and tight on the touched
  prefix: a card of a page below the high-water mark is dirty exactly when the page is in use
  and one of the card's 64 cells classifies as a heap pointer, and cards above keep their
  state. In particular no cell holding a pointer on a live page is left on a clean card.
\<close>

theorem rebuilt_cards:
  assumes "reservation_ok h" "pages_high_water h \<le> n_pages h"
  shows "is_dirty (cards (rebuild_cards_for_old_gens L h)) c \<longleftrightarrow>
    (if c div cards_per_page < pages_high_water h
     then pgen (desc h (c div cards_per_page)) \<noteq> Gen_Free \<and>
       (\<exists>k < CARD_SIZE_CELLS. is_pointer_word L (cells h (c * CARD_SIZE_CELLS + k)))
     else is_dirty (cards h) c)"
proof -
  have ex: "card_has_pointer L (cells h) a \<longleftrightarrow> (\<exists>k < CARD_SIZE_CELLS. is_pointer_word L (cells h (a + k)))" for a
  proof -
    have "set [a..<a + CARD_SIZE_CELLS] = (\<lambda>k. a + k) ` {..< CARD_SIZE_CELLS}"
      by (simp add: lessThan_atLeast0 add.commute)
    then show ?thesis by (auto simp: card_has_pointer_def list_ex_iff)
  qed
  have "c < n_cards (cards h)" if "c div cards_per_page < pages_high_water h"
  proof -
    have "c div 128 < n_pages h" using that assms(2) by (simp add: cards_per_page_num)
    then have "c < n_pages h * 128" by (simp add: div_less_iff_less_mult)
    then show ?thesis using assms(1) by (simp add: reservation_ok_def cards_per_page_num)
  qed
  then show ?thesis
    by (auto simp: rebuild_cards_for_old_gens_def is_dirty_rebuild_pages ex desc_def)
qed

text \<open>A page of G1 whose first cell is a pointer, with no card dirty yet.\<close>

definition pointer_page_heap :: page_heap where
  "pointer_page_heap = (with_reservation 65536 (\<lambda>_. True) 65536)\<lparr>
     committed_bits := bit1_set (\<lambda>_. 0) 0, committed_count := 1, pages_high_water := 1, free_page_list := [],
     descs := [(desc_fresh G1 Kind_Boxed)\<lparr>words_used := 1\<rparr>],
     cells := (\<lambda>_. 0)(0 := lisp_make_pointer 65536 PK_Cons)\<rparr>"

lemma pointer_page_ok: "reservation_ok pointer_page_heap"
proof -
  have n: "n_pages pointer_page_heap = 1" "base_ptr pointer_page_heap = 65536" "length (descs pointer_page_heap) = 1"
    by (simp_all add: pointer_page_heap_def div_ceil_def PAGE_SIZE_BYTES_def)
  have c: "is_committed pointer_page_heap i = (i = 0)" for i
    by (simp add: pointer_page_heap_def is_committed_def bitmap_simps div_ceil_def PAGE_SIZE_BYTES_def)
      (simp add: bit1_test_bit)
  then have card1: "{i. is_committed pointer_page_heap i} = {0}" by simp
  have count: "committed_count pointer_page_heap = 1" by (simp add: pointer_page_heap_def)
  have cards: "n_cards (cards pointer_page_heap) = cards_per_page"
    by (simp add: pointer_page_heap_def card_table_new_def cards_per_page_def div_ceil_def PAGE_SIZE_BYTES_def
        PAGE_SIZE_CELLS_num CARD_SIZE_BYTES_def CARD_SIZE_CELLS_def)
  have "cells pointer_page_heap c = 0" if "c div PAGE_SIZE_CELLS \<noteq> 0" for c
    using that by (auto simp: pointer_page_heap_def)
  then show ?thesis
    unfolding reservation_ok_def card1 count cards
    by (auto simp: n c reserved_bytes_def PAGE_SIZE_BYTES_def)
qed

theorem rebuilt_cards_witness:
  "\<not> is_dirty (cards pointer_page_heap) 0 \<and>
   is_dirty (cards (rebuild_cards_for_old_gens lisp_layout pointer_page_heap)) 0 \<and>
   \<not> is_dirty (cards (rebuild_cards_for_old_gens lisp_layout pointer_page_heap)) 1"
proof -
  have p: "lisp_classify (lisp_make_pointer 65536 PK_Cons) = PointerCons 65536"
    using lisp.classify_pointer [of 65536 PK_Cons] by simp
  have z: "lisp_classify 0 = WK_Immediate" by (simp add: lisp_classify_def word_tag_def tag_from_bits_def)
  have m: "pages_high_water pointer_page_heap \<le> n_pages pointer_page_heap" "pages_high_water pointer_page_heap = 1"
    "desc pointer_page_heap 0 = (desc_fresh G1 Kind_Boxed)\<lparr>words_used := 1\<rparr>"
    "cells pointer_page_heap c = (if c = 0 then lisp_make_pointer 65536 PK_Cons else 0)" for c
    by (simp_all add: pointer_page_heap_def div_ceil_def PAGE_SIZE_BYTES_def desc_def)
  note r = rebuilt_cards [OF pointer_page_ok m(1), of lisp_layout]
  have "\<not> is_dirty (cards pointer_page_heap) 0" by (simp add: pointer_page_heap_def bitmap_simps)
  then show ?thesis
    by (auto simp: r m cards_per_page_num is_pointer_word_def p z CARD_SIZE_CELLS_def CARD_SIZE_BYTES_def)
qed

end
