(* ===== verification/Pin.thy ===== *)
theory Pin
  imports Mark Trigger "HOL-Library.AList"
begin

text \<open>
  Pinning (\<^verbatim>\<open>page_heap/pin.rs\<close>): the conservative scan of stack ranges, the refcounted
  explicit pins, and the reconciliation at the start of an evacuation; and the per-page live
  counts of \<^verbatim>\<open>coordinator_api.rs\<close> the reconciliation re-seeds. The \<open>HashSet\<close> of pinned cells
  is a list without duplicates (its order is any order), the \<open>HashMap\<close> of explicit pins an
  association list. The stack words a scan reads are a parameter, \<open>mem\<close>.
\<close>

section \<open>The conservative scan\<close>

definition PIN_SLOTS_PER_PAGE :: nat where "PIN_SLOTS_PER_PAGE = 8"

definition CELLS_PER_PIN_SLOT :: nat where
  "CELLS_PER_PIN_SLOT = PAGE_SIZE_CELLS div PIN_SLOTS_PER_PAGE"

record pin_scan_result =
  n_objects :: nat
  n_cells :: nat

record pin_stats =
  candidates :: nat
  tag_pass :: nat
  in_range_pass :: nat
  in_heap_pass :: nat
  in_gen_pass :: nat
  start_bit_pass :: nat
  new_pins :: nat

definition pin_stats_default :: pin_stats where
  "pin_stats_default = \<lparr>candidates = 0, tag_pass = 0, in_range_pass = 0, in_heap_pass = 0,
     in_gen_pass = 0, start_bit_pass = 0, new_pins = 0\<rparr>"

definition pin_slot :: "nat \<Rightarrow> nat" where
  "pin_slot cell_idx = (cell_idx mod PAGE_SIZE_CELLS) div CELLS_PER_PIN_SLOT"

text \<open>\<open>HashSet::insert\<close>, with its answer whether the entry is new.\<close>

definition insert_pinned :: "page_heap \<Rightarrow> nat \<Rightarrow> bool \<times> page_heap" where
  "insert_pinned h cell_idx =
     (if cell_idx \<in> set (pinned_cells h) then (False, h)
      else (True, h\<lparr>pinned_cells := cell_idx # pinned_cells h\<rparr>))"

definition pin_word ::
  "heap_layout \<Rightarrow> generation \<Rightarrow> u64 \<Rightarrow> u64 \<Rightarrow> u64 \<Rightarrow> page_heap \<times> pin_stats \<Rightarrow> page_heap \<times> pin_stats" where
  "pin_word L target range_lo range_hi raw = (\<lambda>(h, stats).
     (let stats = stats\<lparr>candidates := candidates stats + 1\<rparr> in
      case pointer_target L raw of
        None \<Rightarrow> (h, stats)
      | Some (target_addr, k) \<Rightarrow>
          (let stats = stats\<lparr>tag_pass := tag_pass stats + 1\<rparr> in
           if range_lo \<le> target_addr \<and> target_addr < range_hi then (h, stats)
           else
             (let stats = stats\<lparr>in_range_pass := in_range_pass stats + 1\<rparr> in
              case page_of h target_addr of
                None \<Rightarrow> (h, stats)
              | Some page_idx \<Rightarrow>
                  (let stats = stats\<lparr>in_heap_pass := in_heap_pass stats + 1\<rparr> in
                   if pgen (desc h page_idx) \<noteq> target then (h, stats)
                   else
                     (let stats = stats\<lparr>in_gen_pass := in_gen_pass stats + 1\<rparr>;
                          cell_idx = cell_index h target_addr in
                      if \<not> is_start_at (start_bits h) cell_idx then (h, stats)
                      else
                        (let stats = stats\<lparr>start_bit_pass := start_bit_pass stats + 1\<rparr>;
                             (fresh, h) = insert_pinned h cell_idx;
                             stats = (if fresh then stats\<lparr>new_pins := new_pins stats + 1\<rparr> else stats);
                             h = desc_update h page_idx (\<lambda>d. set_pin d (pin_slot cell_idx))
                         in (h, stats))))))))"

text \<open>The aligned addresses of \<open>[range_lo, range_hi)\<close>, by steps of a word.\<close>

definition scan_addresses :: "u64 \<Rightarrow> u64 \<Rightarrow> u64 list" where
  "scan_addresses range_lo range_hi =
     (let scan_start = unat ((range_lo + 7) AND NOT 7); scan_end = unat (range_hi AND NOT 7)
      in map (\<lambda>k. of_nat (scan_start + 8 * k)) [0..<(scan_end - scan_start) div 8])"

definition pin_range_one ::
  "heap_layout \<Rightarrow> (u64 \<Rightarrow> u64) \<Rightarrow> generation \<Rightarrow> u64 \<times> u64 \<Rightarrow> page_heap \<times> pin_stats \<Rightarrow> page_heap \<times> pin_stats" where
  "pin_range_one L mem target = (\<lambda>(range_lo, range_hi) st.
     if range_lo \<ge> range_hi then st
     else fold (\<lambda>a. pin_word L target range_lo range_hi (mem a)) (scan_addresses range_lo range_hi) st)"

definition pin_pointers_in_ranges ::
  "heap_layout \<Rightarrow> bool \<Rightarrow> (u64 \<Rightarrow> u64) \<Rightarrow> page_heap \<Rightarrow> generation \<Rightarrow> (u64 \<times> u64) list \<Rightarrow> pin_scan_result \<times> page_heap" where
  "pin_pointers_in_ranges L no_conservative_pin mem h target ranges =
     (if no_conservative_pin then (\<lparr>n_objects = 0, n_cells = 0\<rparr>, h)
      else
        (let (h, stats) = fold (pin_range_one L mem target) ranges (h, pin_stats_default)
         in (\<lparr>n_objects = new_pins stats, n_cells = 0\<rparr>, h)))"

definition is_pinned_cell :: "page_heap \<Rightarrow> nat \<Rightarrow> bool" where
  "is_pinned_cell h cell_idx =
     (let page_idx = cell_idx div PAGE_SIZE_CELLS in
      if page_idx \<ge> n_pages h then False
      else if \<not> is_pinned (desc h page_idx) (pin_slot cell_idx) then False
      else cell_idx \<in> set (pinned_cells h))"

definition clear_all_pins :: "page_heap \<Rightarrow> page_heap" where
  "clear_all_pins h = h\<lparr>descs := map clear_pins (descs h), pinned_cells := []\<rparr>"

definition pinned_count :: "page_heap \<Rightarrow> nat" where
  "pinned_count h = length (pinned_cells h)"

section \<open>Explicit pins\<close>

definition pin_target_cell :: "heap_layout \<Rightarrow> page_heap \<Rightarrow> u64 \<Rightarrow> nat option" where
  "pin_target_cell L h w =
     (case pointer_target L w of
        None \<Rightarrow> None
      | Some (target_addr, k) \<Rightarrow>
          (case page_of h target_addr of
             None \<Rightarrow> None
           | Some page_idx \<Rightarrow>
               if pgen (desc h page_idx) = Gen_Free then None
               else
                 (let cell_idx = cell_index h target_addr in
                  if \<not> is_start_at (start_bits h) cell_idx then None else Some cell_idx)))"

type_synonym pin_handle = "nat option"

definition pin :: "heap_layout \<Rightarrow> page_heap \<Rightarrow> u64 \<Rightarrow> pin_handle \<times> page_heap" where
  "pin L h w =
     (case pin_target_cell L h w of
        Some cell_idx \<Rightarrow>
          (let n = (case map_of (explicit_pins h) cell_idx of None \<Rightarrow> 0 | Some n \<Rightarrow> n)
           in (Some cell_idx, h\<lparr>explicit_pins := AList.update cell_idx (n + 1) (explicit_pins h)\<rparr>))
      | None \<Rightarrow> (None, h))"

definition unpin :: "page_heap \<Rightarrow> pin_handle \<Rightarrow> page_heap" where
  "unpin h handle =
     (case handle of
        None \<Rightarrow> h
      | Some cell_idx \<Rightarrow>
          (case map_of (explicit_pins h) cell_idx of
             None \<Rightarrow> h
           | Some count \<Rightarrow>
               (let count = saturating_sub count 1 in
                if count = 0 then h\<lparr>explicit_pins := AList.delete cell_idx (explicit_pins h)\<rparr>
                else h\<lparr>explicit_pins := AList.update cell_idx count (explicit_pins h)\<rparr>)))"

definition pinned_explicit_count :: "page_heap \<Rightarrow> nat" where
  "pinned_explicit_count h = length (explicit_pins h)"

section \<open>Live counts\<close>

definition page_mark_count :: "page_heap \<Rightarrow> nat \<Rightarrow> nat" where
  "page_mark_count h page_idx =
     (let first_word = page_idx * PAGE_SIZE_CELLS div 64; words_per_page = PAGE_SIZE_CELLS div 64
      in \<Sum>w \<leftarrow> [first_word..<first_word + words_per_page]. length (filter (bit (mark_bits h w)) [0..<64]))"

definition prepare_recycle_live_counts_from_marks :: "page_heap \<Rightarrow> generation \<Rightarrow> page_heap" where
  "prepare_recycle_live_counts_from_marks h target =
     (let target_pages = pages_in_gen h target;
          (counts, live_cells, live_pages) =
            fold (\<lambda>page_idx (counts, live_cells, live_pages).
                    (let count = page_mark_count h page_idx
                     in (counts(page_idx := of_nat count), live_cells + count,
                         if count > 0 then live_pages + 1 else live_pages)))
              target_pages (\<lambda>_. 0, 0, 0)
      in h\<lparr>recycle_live_counts := counts, last_mark_live_cells := live_cells,
            last_mark_live_pages := live_pages, last_zero_live_pages_released := 0,
            recycle_live_counts_target := Some target\<rparr>)"

definition clear_recycle_live_counts :: "page_heap \<Rightarrow> page_heap" where
  "clear_recycle_live_counts h = h\<lparr>recycle_live_counts := (\<lambda>_. 0), recycle_live_counts_target := None\<rparr>"

definition release_zero_live_unpinned_pages :: "page_heap \<Rightarrow> generation \<Rightarrow> page_heap" where
  "release_zero_live_unpinned_pages h target =
     (let releasable = filter (\<lambda>p. \<not> has_pins (desc h p) \<and> recycle_live_counts h p = 0) (pages_in_gen h target);
          h = h\<lparr>last_zero_live_pages_released := length releasable\<rparr>
      in fold (\<lambda>p h. (release_page_to_free h p False)\<lparr>recycle_live_counts :=
                 (recycle_live_counts (release_page_to_free h p False))(p := 0)\<rparr>) releasable h)"

section \<open>Reconciliation\<close>

definition fold_explicit_pin :: "nat \<Rightarrow> page_heap \<Rightarrow> page_heap" where
  "fold_explicit_pin cell_idx h =
     (let page_idx = cell_idx div PAGE_SIZE_CELLS in
      if pgen (desc h page_idx) = Gen_Free then h
      else desc_update (snd (insert_pinned h cell_idx)) page_idx (\<lambda>d. set_pin d (pin_slot cell_idx)))"

definition apply_pins_and_extend_mark :: "heap_layout \<Rightarrow> page_heap \<Rightarrow> generation \<Rightarrow> page_heap option" where
  "apply_pins_and_extend_mark L h from_gen =
     (let h = fold fold_explicit_pin (map fst (explicit_pins h)) h in
      if recycle_live_counts_active_for h from_gen \<and> pinned_cells h \<noteq> []
      then (case extend_mark_from_pinned L h from_gen of
              None \<Rightarrow> None
            | Some (n, h) \<Rightarrow>
                (case extend_mark_from_cross_gen_pinned L h from_gen of
                   None \<Rightarrow> None
                 | Some (n, h) \<Rightarrow> Some (prepare_recycle_live_counts_from_marks h from_gen)))
      else Some h)"

section \<open>Pins are consistent\<close>

text \<open>
  Every recorded cell has its page's slot bit set, so the page byte never rejects a pinned cell;
  two heaps that differ in pins only agree on everything a gate looks at.
\<close>

definition pins_ok :: "page_heap \<Rightarrow> bool" where
  "pins_ok h \<longleftrightarrow> distinct (pinned_cells h) \<and>
     (\<forall>c \<in> set (pinned_cells h). c div PAGE_SIZE_CELLS < n_pages h \<and>
        is_pinned (descs h ! (c div PAGE_SIZE_CELLS)) (pin_slot c))"

definition same_but_pins :: "page_heap \<Rightarrow> page_heap \<Rightarrow> bool" where
  "same_but_pins h h' \<longleftrightarrow>
     h' = h\<lparr>descs := descs h', pinned_cells := pinned_cells h'\<rparr> \<and>
     map clear_pins (descs h') = map clear_pins (descs h)"

lemma pin_slot_bound [simp]: "pin_slot c < 8"
proof -
  have "c mod 8192 < 8192" by simp
  then show ?thesis by (simp add: pin_slot_def CELLS_PER_PIN_SLOT_def PIN_SLOTS_PER_PAGE_def PAGE_SIZE_CELLS_num
        div_less_iff_less_mult)
qed

lemma is_pinned_cell_iff:
  assumes "pins_ok h"
  shows "is_pinned_cell h c \<longleftrightarrow> c \<in> set (pinned_cells h)"
  using assms by (auto simp: is_pinned_cell_def pins_ok_def Let_def desc_def)

lemma same_but_pins_refl [simp]: "same_but_pins h h"
  by (simp add: same_but_pins_def)

lemma same_but_pins_trans: "same_but_pins h h1 \<Longrightarrow> same_but_pins h1 h2 \<Longrightarrow> same_but_pins h h2"
  unfolding same_but_pins_def by (cases h; cases h1; cases h2) simp

lemma same_but_pins_sel:
  assumes "same_but_pins h h'"
  shows "n_pages h' = n_pages h" "base_ptr h' = base_ptr h" "cells h' = cells h"
    "start_bits h' = start_bits h" "mark_bits h' = mark_bits h" "length (descs h') = length (descs h)"
    "explicit_pins h' = explicit_pins h" "recycle_live_counts_target h' = recycle_live_counts_target h"
proof -
  show "length (descs h') = length (descs h)"
    using assms map_eq_imp_length_eq unfolding same_but_pins_def by blast
qed (use assms in \<open>cases h; cases h'; simp add: same_but_pins_def\<close>)+

lemma clear_pins_fields:
  "clear_pins d = clear_pins d' \<Longrightarrow> pgen d = pgen d' \<and> kind d = kind d' \<and> words_used d = words_used d' \<and>
     n_span d = n_span d' \<and> zeroed d = zeroed d'"
  by (cases d; cases d') (simp add: clear_pins_def)

lemma same_but_pins_desc:
  assumes "same_but_pins h h'" "p < length (descs h)"
  shows "pgen (descs h' ! p) = pgen (descs h ! p)" "kind (descs h' ! p) = kind (descs h ! p)"
    "words_used (descs h' ! p) = words_used (descs h ! p)" "n_span (descs h' ! p) = n_span (descs h ! p)"
proof -
  have "clear_pins (descs h' ! p) = clear_pins (descs h ! p)"
    using assms same_but_pins_sel(6) [OF assms(1)] unfolding same_but_pins_def by (metis nth_map)
  then show "pgen (descs h' ! p) = pgen (descs h ! p)" "kind (descs h' ! p) = kind (descs h ! p)"
    "words_used (descs h' ! p) = words_used (descs h ! p)" "n_span (descs h' ! p) = n_span (descs h ! p)"
    using clear_pins_fields by blast+
qed

lemma clear_pins_set_pin [simp]: "clear_pins (set_pin d s) = clear_pins d"
  by (simp add: clear_pins_def set_pin_def)

text \<open>Recording one pin: the cell enters the set and its slot bit is set.\<close>

definition record_pin :: "nat \<Rightarrow> page_heap \<Rightarrow> page_heap" where
  "record_pin c h = desc_update (snd (insert_pinned h c)) (c div PAGE_SIZE_CELLS) (\<lambda>d. set_pin d (pin_slot c))"

lemma record_pin_facts:
  assumes "c div PAGE_SIZE_CELLS < n_pages h" "length (descs h) = n_pages h"
  shows "same_but_pins h (record_pin c h)" "set (pinned_cells (record_pin c h)) = insert c (set (pinned_cells h))"
    "pins_ok h \<Longrightarrow> pins_ok (record_pin c h)"
proof -
  let ?p = "c div PAGE_SIZE_CELLS"
  have d: "descs (record_pin c h) = (descs h)[?p := set_pin (descs h ! ?p) (pin_slot c)]"
    by (simp add: record_pin_def insert_pinned_def)
  have "map clear_pins (descs (record_pin c h)) = map clear_pins (descs h)"
    unfolding d map_update clear_pins_set_pin using assms
    by (metis list_update_id map_update)
  then show "same_but_pins h (record_pin c h)"
    by (simp add: same_but_pins_def record_pin_def insert_pinned_def desc_update_def)
  show s: "set (pinned_cells (record_pin c h)) = insert c (set (pinned_cells h))"
    by (auto simp: record_pin_def insert_pinned_def)
  show "pins_ok (record_pin c h)" if "pins_ok h"
  proof -
    have dist: "distinct (pinned_cells (record_pin c h))"
      using that by (auto simp: record_pin_def insert_pinned_def pins_ok_def)
    have n: "n_pages (record_pin c h) = n_pages h" by (simp add: record_pin_def insert_pinned_def)
    have "is_pinned (descs (record_pin c h) ! (x div PAGE_SIZE_CELLS)) (pin_slot x)"
      if "x \<in> insert c (set (pinned_cells h))" for x
      using that \<open>pins_ok h\<close> assms unfolding d pins_ok_def
      by (cases "x div PAGE_SIZE_CELLS = ?p") (auto simp: is_pinned_set_pin)
    then show ?thesis
      using dist that assms unfolding pins_ok_def s n by auto
  qed
qed

text \<open>The cell a stack word pins, if it passes every gate.\<close>

definition pin_gate ::
  "heap_layout \<Rightarrow> page_heap \<Rightarrow> generation \<Rightarrow> u64 \<times> u64 \<Rightarrow> u64 \<Rightarrow> nat option" where
  "pin_gate L h target = (\<lambda>(lo, hi) raw.
     (case pin_target_cell L h raw of
        None \<Rightarrow> None
      | Some c \<Rightarrow>
          if pgen (desc h (c div PAGE_SIZE_CELLS)) = target \<and>
             \<not> (lo \<le> fst (the (pointer_target L raw)) \<and> fst (the (pointer_target L raw)) < hi)
          then Some c else None))"

lemma pin_gate_bound: "pin_gate L h target r raw = Some c \<Longrightarrow> c div PAGE_SIZE_CELLS < n_pages h"
  using page_of_bound page_of_cell_index(1)
  by (fastforce simp: pin_gate_def pin_target_cell_def Let_def split: option.splits if_splits prod.splits)

lemma pin_word_eq:
  assumes "target \<noteq> Gen_Free"
  shows "fst (pin_word L target lo hi raw (h, st)) =
      (case pin_gate L h target (lo, hi) raw of None \<Rightarrow> h | Some c \<Rightarrow> record_pin c h)"
    "new_pins (snd (pin_word L target lo hi raw (h, st))) = new_pins st +
      (case pin_gate L h target (lo, hi) raw of None \<Rightarrow> 0 | Some c \<Rightarrow> if c \<in> set (pinned_cells h) then 0 else 1)"
proof -
  have c: "cell_index h a div PAGE_SIZE_CELLS = p" if "page_of h a = Some p" for a p
    by (rule page_of_cell_index [OF that])
  show "fst (pin_word L target lo hi raw (h, st)) =
      (case pin_gate L h target (lo, hi) raw of None \<Rightarrow> h | Some c \<Rightarrow> record_pin c h)"
    "new_pins (snd (pin_word L target lo hi raw (h, st))) = new_pins st +
      (case pin_gate L h target (lo, hi) raw of None \<Rightarrow> 0 | Some c \<Rightarrow> if c \<in> set (pinned_cells h) then 0 else 1)"
    using assms
    by (auto simp: pin_word_def pin_gate_def pin_target_cell_def Let_def c record_pin_def insert_pinned_def
        split: option.splits if_splits prod.splits)
qed

lemma same_but_pins_cong:
  assumes "same_but_pins h h'"
  shows "page_of h' a = page_of h a" "cell_index h' a = cell_index h a"
  by (simp_all add: page_of_def cell_index_def reserved_bytes_def same_but_pins_sel [OF assms])

lemma pin_gate_cong:
  assumes s: "same_but_pins h h'" and len: "length (descs h) = n_pages h"
  shows "pin_gate L h' target r raw = pin_gate L h target r raw"
proof -
  have d: "pgen (desc h' p) = pgen (desc h p)" if "page_of h a = Some p" for a p
    using same_but_pins_desc(1) [OF s, of p] page_of_bound [OF that] len by (simp add: desc_def)
  have c: "cell_index h a div PAGE_SIZE_CELLS = p" if "page_of h a = Some p" for a p
    by (rule page_of_cell_index [OF that])
  show ?thesis
    by (auto simp: pin_gate_def pin_target_cell_def Let_def same_but_pins_cong [OF s] same_but_pins_sel [OF s] d c
        split: option.splits prod.splits)
qed

text \<open>A scan of a list of words.\<close>

lemma pin_words_facts:
  assumes t: "target \<noteq> Gen_Free" and len: "length (descs h) = n_pages h" and ok: "pins_ok h"
    and f: "fold (\<lambda>a. pin_word L target lo hi (mem a)) as (h, st) = (h', st')"
  defines "P \<equiv> {c. \<exists>a \<in> set as. pin_gate L h target (lo, hi) (mem a) = Some c}"
  shows "same_but_pins h h' \<and> pins_ok h' \<and> set (pinned_cells h') = set (pinned_cells h) \<union> P \<and>
    new_pins st' + card (set (pinned_cells h)) = new_pins st + card (set (pinned_cells h'))"
  using len ok f unfolding P_def
proof (induction as arbitrary: h st)
  case (Cons a as)
  obtain h1 st1 where w: "pin_word L target lo hi (mem a) (h, st) = (h1, st1)" by fastforce
  have f1: "fold (\<lambda>a. pin_word L target lo hi (mem a)) as (h1, st1) = (h', st')"
    using Cons.prems(3) w by simp
  define og where "og = pin_gate L h target (lo, hi) (mem a)"
  have h1: "h1 = (case og of None \<Rightarrow> h | Some c \<Rightarrow> record_pin c h)"
    and n1: "new_pins st1 = new_pins st + (case og of None \<Rightarrow> 0 | Some c \<Rightarrow> if c \<in> set (pinned_cells h) then 0 else 1)"
    using pin_word_eq [OF t, of L lo hi "mem a" h st] w by (simp_all add: og_def)
  have step: "same_but_pins h h1" "pins_ok h1" "set (pinned_cells h1) = set (pinned_cells h) \<union> set_option og"
    using record_pin_facts [OF pin_gate_bound Cons.prems(1)] Cons.prems(2) by (auto simp: h1 og_def split: option.splits)
  have len1: "length (descs h1) = n_pages h1" using same_but_pins_sel [OF step(1)] Cons.prems(1) by simp
  note IH = Cons.IH [OF len1 step(2) f1, unfolded pin_gate_cong [OF step(1) Cons.prems(1)]]
  have "card (set (pinned_cells h1)) = card (set (pinned_cells h)) +
      (case og of None \<Rightarrow> 0 | Some c \<Rightarrow> if c \<in> set (pinned_cells h) then 0 else 1)"
    unfolding step(3) by (auto simp: card_insert_if split: option.splits)
  moreover have "set (pinned_cells h') = set (pinned_cells h) \<union>
      {c. \<exists>x \<in> set (a # as). pin_gate L h target (lo, hi) (mem x) = Some c}"
    using IH step(3) by (auto simp: og_def)
  ultimately show ?case
    using IH n1 same_but_pins_trans [OF step(1)] by simp
qed simp

lemma pin_ranges_facts:
  assumes t: "target \<noteq> Gen_Free" and len: "length (descs h) = n_pages h" and ok: "pins_ok h"
    and f: "fold (pin_range_one L mem target) rs (h, st) = (h', st')"
  defines "P \<equiv> {c. \<exists>(lo, hi) \<in> set rs. lo < hi \<and>
      (\<exists>a \<in> set (scan_addresses lo hi). pin_gate L h target (lo, hi) (mem a) = Some c)}"
  shows "same_but_pins h h' \<and> pins_ok h' \<and> set (pinned_cells h') = set (pinned_cells h) \<union> P \<and>
    new_pins st' + card (set (pinned_cells h)) = new_pins st + card (set (pinned_cells h'))"
  using len ok f unfolding P_def
proof (induction rs arbitrary: h st)
  case (Cons r rs)
  obtain lo hi where r: "r = (lo, hi)" by fastforce
  obtain h1 st1 where w: "pin_range_one L mem target r (h, st) = (h1, st1)" by fastforce
  have f1: "fold (pin_range_one L mem target) rs (h1, st1) = (h', st')"
    using Cons.prems(3) w by simp
  define P where "P = {c. lo < hi \<and> (\<exists>a \<in> set (scan_addresses lo hi). pin_gate L h target (lo, hi) (mem a) = Some c)}"
  have step: "same_but_pins h h1 \<and> pins_ok h1 \<and> set (pinned_cells h1) = set (pinned_cells h) \<union> P \<and>
    new_pins st1 + card (set (pinned_cells h)) = new_pins st + card (set (pinned_cells h1))"
  proof (cases "lo < hi")
    case True
    then have "\<not> hi \<le> lo" by simp
    then show ?thesis
      using True pin_words_facts [OF t Cons.prems(1,2), of L lo hi mem "scan_addresses lo hi" st h1 st1] w r
      by (simp add: pin_range_one_def P_def)
  next
    case False
    then have "hi \<le> lo" by simp
    then have "h1 = h" "st1 = st" "P = {}" using w r False by (simp_all add: pin_range_one_def P_def)
    then show ?thesis using Cons.prems(2) by simp
  qed
  then have s1: "same_but_pins h h1" by simp
  have len1: "length (descs h1) = n_pages h1" using same_but_pins_sel [OF s1] Cons.prems(1) by simp
  note IH = Cons.IH [OF len1 _ f1, unfolded pin_gate_cong [OF s1 Cons.prems(1)]]
  have eq: "{c. \<exists>(lo, hi) \<in> set (r # rs). lo < hi \<and>
      (\<exists>a \<in> set (scan_addresses lo hi). pin_gate L h target (lo, hi) (mem a) = Some c)} =
    P \<union> {c. \<exists>(lo, hi) \<in> set rs. lo < hi \<and>
      (\<exists>a \<in> set (scan_addresses lo hi). pin_gate L h target (lo, hi) (mem a) = Some c)}"
    by (auto simp: r P_def)
  have "new_pins st' + card (set (pinned_cells h)) = new_pins st + card (set (pinned_cells h'))"
    using IH step by (elim conjE) linarith
  then show ?case
    unfolding eq using IH step same_but_pins_trans [OF s1] by (simp add: Un_assoc)
qed simp

text \<open>The addresses a scan reads: the aligned words that lie in the range.\<close>

lemma word_unat_bound: "unat w < 2 ^ 64" for w :: u64
proof -
  have "unat w < 2 ^ LENGTH(64)" by (rule unsigned_less)
  then show ?thesis by simp
qed

lemma and_not_7: "unat (w AND NOT 7) = unat w div 8 * 8" for w :: u64
proof -
  have m: "(7 :: u64) = mask 3" by (simp add: mask_eq_exp_minus_1)
  have "(w AND NOT 7) = push_bit 3 (drop_bit 3 w)"
    unfolding m by (rule bit_word_eqI) (auto simp: bit_simps)
  moreover have "unat (push_bit 3 (drop_bit 3 w)) = (unat w div 8 * 8) mod 2 ^ 64"
    by (simp add: push_bit_eq_mult drop_bit_eq_div unat_word_ariths unat_div mod_mult_left_eq)
  moreover have "unat w div 8 * 8 < 2 ^ 64"
    by (rule le_less_trans [OF div_times_less_eq_dividend word_unat_bound])
  ultimately show ?thesis by simp
qed

lemma scan_addresses_set:
  assumes "unat lo + 7 < 2 ^ 64"
  shows "set (scan_addresses lo hi) = {a. 8 dvd unat a \<and> unat lo \<le> unat a \<and> unat a + 8 \<le> unat hi}"
proof -
  let ?s = "(unat lo + 7) div 8" and ?e = "unat hi div 8"
  have s: "unat ((lo + 7) AND NOT 7) = ?s * 8"
    unfolding and_not_7 using assms by (simp add: unat_word_ariths)
  have e: "unat (hi AND NOT 7) = ?e * 8" by (rule and_not_7)
  have S: "scan_addresses lo hi = map (\<lambda>k. of_nat (?s * 8 + 8 * k)) [0..<?e - ?s]"
  proof -
    have "(?e * 8 - ?s * 8) div 8 = ?e - ?s" by (simp add: diff_mult_distrib [symmetric])
    then show ?thesis unfolding scan_addresses_def s e Let_def by (simp only:)
  qed
  have hi: "?e * 8 \<le> unat hi" "unat hi < 2 ^ 64" using word_unat_bound [of hi] by simp_all
  show ?thesis
  proof (intro set_eqI iffI)
    fix a assume "a \<in> set (scan_addresses lo hi)"
    then obtain k where k: "k < ?e - ?s" "a = of_nat (?s * 8 + 8 * k)" by (auto simp: S)
    then have "?s * 8 + 8 * k + 8 \<le> ?e * 8" by linarith
    then have "?s * 8 + 8 * k < 2 ^ LENGTH(64)" using hi by simp
    then have "unat a = ?s * 8 + 8 * k" unfolding k(2) unat_of_nat take_bit_eq_mod by (rule mod_less)
    then show "a \<in> {a. 8 dvd unat a \<and> unat lo \<le> unat a \<and> unat a + 8 \<le> unat hi}"
      using \<open>?s * 8 + 8 * k + 8 \<le> ?e * 8\<close> hi by auto
  next
    fix a :: u64 assume a: "a \<in> {a. 8 dvd unat a \<and> unat lo \<le> unat a \<and> unat a + 8 \<le> unat hi}"
    then have "8 dvd unat a" by auto
    then obtain q where q: "unat a = 8 * q" by (elim dvdE)
    then have b: "?s \<le> q" "q < ?e" using a by auto
    have "unat a = ?s * 8 + 8 * (q - ?s)" using q b(1) by simp
    then have "a = of_nat (?s * 8 + 8 * (q - ?s))" by (metis of_nat_unat ucast_id)
    then show "a \<in> set (scan_addresses lo hi)"
      using b by (auto simp: S image_iff intro!: bexI [of _ "q - ?s"])
  qed
qed

section \<open>Properties of pins\<close>



definition pin_refs :: "page_heap \<Rightarrow> nat \<Rightarrow> nat" where
  "pin_refs h c = (case map_of (explicit_pins h) c of None \<Rightarrow> 0 | Some n \<Rightarrow> unat n)"

definition explicit_ok :: "page_heap \<Rightarrow> bool" where
  "explicit_ok h \<longleftrightarrow> (\<forall>c. map_of (explicit_pins h) c \<noteq> Some 0)"

text \<open>
  C32. Explicit pins are counted: a pin adds one reference to the object it resolves to and to
  no other, its handle's unpin takes exactly that reference back, an unpin of any handle takes
  at most one and never goes below zero, and a value that is no live object start is pinned by
  nobody. (The counter is a \<open>u32\<close>; the statement stops before it overflows.)
\<close>

theorem explicit_pin_refcount:
  assumes "explicit_ok h" "\<And>c. pin_refs h c < 2 ^ 32 - 1" "pin L h w = (handle, h1)"
  shows "handle = pin_target_cell L h w \<and> explicit_ok h1 \<and> explicit_ok (unpin h k) \<and>
    (\<forall>c. pin_refs h1 c = pin_refs h c + (if handle = Some c then 1 else 0)) \<and>
    (\<forall>c. pin_refs (unpin h1 handle) c = pin_refs h c) \<and>
    (\<forall>c. pin_refs (unpin h k) c = pin_refs h c - (if k = Some c then 1 else 0))"
proof -
  have un: "pin_refs (unpin g k) c = pin_refs g c - (if k = Some c then 1 else 0) \<and> explicit_ok (unpin g k)"
    if "explicit_ok g" for g k c
  proof (cases k)
    case None
    then show ?thesis using that by (simp add: unpin_def)
  next
    case (Some d)
    show ?thesis
    proof (cases "map_of (explicit_pins g) d")
      case None
      then show ?thesis using that Some by (auto simp: unpin_def pin_refs_def)
    next
      case n: (Some n)
      have z: "saturating_sub n 1 = 0 \<longleftrightarrow> unat n - 1 = 0"
        using unat_saturating_sub [of n 1] by (metis unat_0 unat_1 unat_eq_zero)
      show ?thesis
        using that Some n z unat_saturating_sub [of n 1]
        by (auto simp: unpin_def pin_refs_def explicit_ok_def Let_def AList.update_conv' AList.delete_conv'
            split: option.splits if_splits)
    qed
  qed
  show ?thesis
  proof (cases "pin_target_cell L h w")
    case None
    then show ?thesis using assms un [OF assms(1)] by (auto simp: pin_def unpin_def)
  next
    case (Some c)
    define n where "n = (case map_of (explicit_pins h) c of None \<Rightarrow> 0 | Some n \<Rightarrow> n)"
    have h1: "h1 = h\<lparr>explicit_pins := AList.update c (n + 1) (explicit_pins h)\<rparr>" "handle = Some c"
      using assms(3) Some by (auto simp: pin_def n_def)
    have nr: "unat n = pin_refs h c" by (simp add: n_def pin_refs_def split: option.splits)
    then have n1: "unat (n + 1) = pin_refs h c + 1"
      using assms(2) [of c] by (simp add: unat_word_ariths)
    then have ne: "n + 1 \<noteq> 0" by (metis add_is_0 one_neq_zero unat_0)
    have refs: "pin_refs h1 d = pin_refs h d + (if handle = Some d then 1 else 0)" for d
      using n1 by (simp add: h1 pin_refs_def AList.update_conv')
    have ok1: "explicit_ok h1"
      using assms(1) ne by (simp add: h1 explicit_ok_def AList.update_conv')
    show ?thesis
      using un [OF ok1, of handle] un [OF assms(1), of k] refs ok1 Some h1(2) by simp
  qed
qed

theorem explicit_pin_refcount_witness:
  "pin_refs (snd (pin lisp_layout self_cons_heap (lisp_make_pointer 65536 PK_Cons))) 0 = 1"
proof -
  have ok: "explicit_ok self_cons_heap" "pin_refs self_cons_heap c = 0" for c
    by (simp_all add: explicit_ok_def pin_refs_def self_cons_heap_def)
  have "pin_target_cell lisp_layout self_cons_heap (lisp_make_pointer 65536 PK_Cons) = Some 0"
    by (simp add: pin_target_cell_def self_cons_pointer desc_def self_cons_sel)
  moreover obtain handle h1 where p: "pin lisp_layout self_cons_heap (lisp_make_pointer 65536 PK_Cons) = (handle, h1)"
    by fastforce
  ultimately show ?thesis
    using explicit_pin_refcount [OF ok(1) _ p] by (simp add: ok(2))
qed

end
