(* ===== verification/Pin_Marks.thy ===== *)
theory Pin_Marks
  imports Pin
begin

text \<open>
  What pins do to the mark bits and what marks do to pages: the extension of the mark from the
  pin set, the per-page live counts, and the release of pages with no live and no pinned object.
\<close>

section \<open>Seeds\<close>

text \<open>The pinned objects of the target generation, and the targets of the pinned objects of others.\<close>

definition pin_seeds :: "page_heap \<Rightarrow> generation \<Rightarrow> nat set" where
  "pin_seeds h target = {c \<in> set (pinned_cells h).
     pgen (desc h (c div PAGE_SIZE_CELLS)) = target \<and>
     kind (desc h (c div PAGE_SIZE_CELLS)) \<in> {Kind_Cons, Kind_Boxed, Kind_Large} \<and>
     is_start_at (start_bits h) c}"

definition cross_source :: "page_heap \<Rightarrow> generation \<Rightarrow> nat \<Rightarrow> bool" where
  "cross_source h target c \<longleftrightarrow>
     pgen (desc h (c div PAGE_SIZE_CELLS)) \<noteq> target \<and>
     pgen (desc h (c div PAGE_SIZE_CELLS)) \<in> {G0, G1, Tenured} \<and>
     kind (desc h (c div PAGE_SIZE_CELLS)) \<in> {Kind_Cons, Kind_Boxed, Kind_Large} \<and>
     is_start_at (start_bits h) c"

definition cross_seeds :: "heap_layout \<Rightarrow> page_heap \<Rightarrow> generation \<Rightarrow> nat set" where
  "cross_seeds L h target = {d. \<exists>c \<in> set (pinned_cells h). cross_source h target c \<and>
     (\<exists>cs. cross_gen_payload L h c = Some cs \<and> d \<in> targets L target h cs)}"

lemma pins_cong:
  assumes "same_but_marks h h'"
  shows "pin_seeds h' target = pin_seeds h target" "cross_source h' target c = cross_source h target c"
    "cross_gen_payload L h' c = cross_gen_payload L h c" "cross_seeds L h' target = cross_seeds L h target"
  using same_but_marks_sel [OF assms] targets_cong [OF assms]
  by (simp_all add: pin_seeds_def cross_source_def cross_gen_payload_def cross_seeds_def desc_def)

section \<open>Same-generation pins\<close>

definition seed_pin_ok :: "page_heap \<Rightarrow> generation \<Rightarrow> nat \<Rightarrow> bool" where
  "seed_pin_ok h target c \<longleftrightarrow>
     pgen (desc h (c div PAGE_SIZE_CELLS)) = target \<and>
     kind (desc h (c div PAGE_SIZE_CELLS)) \<in> {Kind_Cons, Kind_Boxed, Kind_Large} \<and>
     is_start_at (start_bits h) c"

lemma offer_pin_eq:
  "offer_pin target c (n, h, q) =
     (if seed_pin_ok h target c
      then if c \<in> marks h then (n, h\<lparr>mark_bits := bit1_set (mark_bits h) c\<rparr>, q)
           else (n + 1, h\<lparr>mark_bits := bit1_set (mark_bits h) c\<rparr>, c # q)
      else (n, h, q))"
  by (simp add: offer_pin_def seed_pin_ok_def mark_cell_eq Let_def)

lemma offer_pins_facts:
  assumes "fold (offer_pin target) cs (n, h, q) = (n', h', q')"
  shows "same_but_marks h h' \<and> marks h' = marks h \<union> {c \<in> set cs. seed_pin_ok h target c} \<and>
    set q' = set q \<union> ({c \<in> set cs. seed_pin_ok h target c} - marks h)"
  using assms
proof (induction cs arbitrary: n h q)
  case (Cons c cs)
  obtain n1 h1 q1 where o: "offer_pin target c (n, h, q) = (n1, h1, q1)" by (metis prod_cases3)
  have s: "same_but_marks h h1" and m: "marks h1 = marks h \<union> (if seed_pin_ok h target c then {c} else {})"
    and q: "set q1 = set q \<union> ((if seed_pin_ok h target c then {c} else {}) - marks h)"
    using o by (auto simp: offer_pin_eq marks_update split: if_splits)
  have k: "seed_pin_ok h1 target d = seed_pin_ok h target d" for d
    using same_but_marks_sel [OF s] by (simp add: seed_pin_ok_def desc_def)
  have "fold (offer_pin target) cs (n1, h1, q1) = (n', h', q')" using Cons.prems o by simp
  note IH = Cons.IH [OF this, unfolded k]
  have "{d \<in> set (c # cs). seed_pin_ok h target d} =
      (if seed_pin_ok h target c then {c} else {}) \<union> {d \<in> set cs. seed_pin_ok h target d}"
    by auto
  then show ?case
    using IH m q same_but_marks_trans [OF s] by auto
qed simp

text \<open>A drain that starts from marks \<open>h\<close> and newly marked, queued seeds \<open>D\<close>.\<close>

lemma drain_extends:
  assumes s: "same_but_marks h h1" and m: "marks h1 = marks h \<union> D" and q: "set q = D - marks h"
    and fin: "finite D" and D: "\<And>d. d \<in> D \<Longrightarrow> in_gen h target d"
    and d: "drain L target (h1, q) = Some h'"
    and closed: "\<And>c. c \<in> gen_marks target h \<Longrightarrow> succs L target h c \<subseteq> gen_marks target h"
  shows "same_but_marks h h'"
    "gen_marks target h' = gen_marks target h \<union> {c. reaches (succs L target h) D c}"
    "\<not> in_gen h target c \<Longrightarrow> c \<in> marks h' \<longleftrightarrow> c \<in> marks h"
proof -
  have g: "succs L target h1 = succs L target h" by (rule succs_cong [OF s])
  show s': "same_but_marks h h'" using same_but_marks_trans [OF s] drain_same [OF d] by simp
  then have g': "succs L target h' = succs L target h" by (rule succs_cong)
  have gm: "gen_marks target h1 = gen_marks target h \<union> D"
    by (rule gen_marks_extend [OF s m D])
  have "tracing (succs L target h) (gen_marks target h) ({} \<union> D) (gen_marks target h \<union> D)
      ({} \<union> (D - gen_marks target h))"
    by (rule tracing_seeds [OF tracing_start fin])
  moreover have "D - gen_marks target h = set q" using q D by (auto simp: gen_marks_def)
  ultimately have t: "tracing (succs L target h1) (gen_marks target h) D (gen_marks target h1) (set q)"
    by (simp add: gm g)
  show "gen_marks target h' = gen_marks target h \<union> {c. reaches (succs L target h) D c}"
    using page_marker.drained [OF drain_tracing [OF d t]] closed unfolding g' by blast
  show "\<not> in_gen h target c \<Longrightarrow> c \<in> marks h' \<longleftrightarrow> c \<in> marks h"
    using drain_other_marks [OF d, of c] m D in_gen_cong [OF s] by auto
qed

definition marks_closed :: "heap_layout \<Rightarrow> generation \<Rightarrow> page_heap \<Rightarrow> bool" where
  "marks_closed L target h \<longleftrightarrow> (\<forall>c \<in> gen_marks target h. succs L target h c \<subseteq> gen_marks target h)"

lemma extend_from_pinned_facts:
  assumes e: "extend_mark_from_pinned L h target = Some (n, h')"
    and pins: "\<forall>c \<in> set (pinned_cells h). c div PAGE_SIZE_CELLS < n_pages h"
    and closed: "marks_closed L target h"
  shows "same_but_marks h h'"
    "gen_marks target h' = gen_marks target h \<union> {c. reaches (succs L target h) (pin_seeds h target) c}"
proof -
  have both: "same_but_marks h h' \<and>
      gen_marks target h' = gen_marks target h \<union> {c. reaches (succs L target h) (pin_seeds h target) c}"
  proof (cases "pinned_cells h = []")
    case True
    then have "pin_seeds h target = {}" by (simp add: pin_seeds_def)
    moreover have "\<not> reaches G {} c" for G c
      using reaches_closed [of G "{}" c "{}"] by auto
    ultimately show ?thesis using e True by (simp add: extend_mark_from_pinned_def)
  next
    case False
    obtain m h1 q where f: "fold (offer_pin target) (pinned_cells h) (0, h, []) = (m, h1, q)"
      by (metis prod_cases3)
    have d: "drain L target (h1, q) = Some h'"
      using e False f by (auto simp: extend_mark_from_pinned_def)
    have D: "{c \<in> set (pinned_cells h). seed_pin_ok h target c} = pin_seeds h target"
      by (auto simp: pin_seeds_def seed_pin_ok_def)
    note o = offer_pins_facts [OF f, unfolded D]
    have "in_gen h target c" if "c \<in> pin_seeds h target" for c
      using that pins by (auto simp: pin_seeds_def in_gen_def desc_def)
    moreover have "finite (pin_seeds h target)" by (simp add: pin_seeds_def)
    ultimately show ?thesis
      using drain_extends [of h h1 "pin_seeds h target" q target L h'] o d closed
      by (auto simp: marks_closed_def)
  qed
  then show "same_but_marks h h'"
    "gen_marks target h' = gen_marks target h \<union> {c. reaches (succs L target h) (pin_seeds h target) c}"
    by blast+
qed

section \<open>Pins of other generations\<close>

text \<open>Counting aside, the offered cells are visited as any payload.\<close>

lemma cross_fold_visit:
  "snd (fold (\<lambda>c (n, h, q).
          (let before = length q; (h, q') = try_mark_root L target (cells h c) (h, q)
           in (if length q' > before then n + (length q' - before) else n, h, q')))
        cs (n, h, q)) = visit_cells L target cs (h, q)"
proof (induction cs arbitrary: n h q)
  case Nil
  then show ?case by (simp add: visit_cells_def)
next
  case (Cons c cs)
  obtain h1 q1 where "try_mark_root L target (cells h c) (h, q) = (h1, q1)" by fastforce
  then show ?case
    using Cons.IH [of _ h1 q1] by (simp add: visit_cells_def Let_def)
qed

lemma offer_cross_facts:
  assumes o: "offer_cross_gen_pin L target c (n, h, q) = Some (n', h', q')"
  defines "D \<equiv> if cross_source h target c then
      (case cross_gen_payload L h c of None \<Rightarrow> {} | Some cs \<Rightarrow> targets L target h cs) else {}"
  shows "same_but_marks h h' \<and> marks h' = marks h \<union> D \<and> set q' = set q \<union> (D - marks h)"
proof (cases "cross_source h target c")
  case False
  then have "h' = h \<and> q' = q" using o
    by (auto simp: offer_cross_gen_pin_def cross_source_def Let_def simp del: insert_iff split: if_splits option.splits)
  then show ?thesis using False by (simp add: D_def)
next
  case True
  have "offer_cross_gen_pin L target c (n, h, q) =
      (case cross_gen_payload L h c of
              None \<Rightarrow> None
            | Some cs \<Rightarrow>
                Some (fold (\<lambda>c (n, h, q).
                        (let before = length q; (h, q') = try_mark_root L target (cells h c) (h, q)
                         in (if length q' > before then n + (length q' - before) else n, h, q')))
                      cs (n, h, q)))"
    using True unfolding offer_cross_gen_pin_def cross_source_def Let_def prod.case by presburger
  then obtain cs where cs: "cross_gen_payload L h c = Some cs"
    and "fold (\<lambda>c (n, h, q).
                        (let before = length q; (h, q') = try_mark_root L target (cells h c) (h, q)
                         in (if length q' > before then n + (length q' - before) else n, h, q')))
                      cs (n, h, q) = (n', h', q')"
    using o by (auto split: option.splits)
  then have "visit_cells L target cs (h, q) = (h', q')"
    using cross_fold_visit [of L target cs n h q] by simp
  note v = visit_cells_facts [OF this]
  show ?thesis using v True cs by (simp add: D_def)
qed

lemma offer_crosses_facts:
  assumes "fold_opt (offer_cross_gen_pin L target) cs (n, h, q) = Some (n', h', q')"
  defines "D \<equiv> {d. \<exists>c \<in> set cs. cross_source h target c \<and>
     (\<exists>ps. cross_gen_payload L h c = Some ps \<and> d \<in> targets L target h ps)}"
  shows "same_but_marks h h' \<and> marks h' = marks h \<union> D \<and> set q' = set q \<union> (D - marks h)"
  using assms(1) unfolding D_def
proof (induction cs arbitrary: n h q)
  case (Cons c cs)
  obtain n1 h1 q1 where o: "offer_cross_gen_pin L target c (n, h, q) = Some (n1, h1, q1)"
    and f: "fold_opt (offer_cross_gen_pin L target) cs (n1, h1, q1) = Some (n', h', q')"
    using Cons.prems by (auto split: option.splits)
  define E where "E = (if cross_source h target c then
      (case cross_gen_payload L h c of None \<Rightarrow> {} | Some cs \<Rightarrow> targets L target h cs) else {})"
  note oc = offer_cross_facts [OF o, folded E_def]
  then have s: "same_but_marks h h1" by simp
  note IH = Cons.IH [OF f, unfolded pins_cong [OF s] targets_cong [OF s]]
  have "{d. \<exists>x \<in> set (c # cs). cross_source h target x \<and>
     (\<exists>ps. cross_gen_payload L h x = Some ps \<and> d \<in> targets L target h ps)} = E \<union>
    {d. \<exists>x \<in> set cs. cross_source h target x \<and>
     (\<exists>ps. cross_gen_payload L h x = Some ps \<and> d \<in> targets L target h ps)}"
    by (auto simp: E_def split: option.splits)
  then show ?case
    using IH oc same_but_marks_trans [OF s] by auto
qed simp

lemma cross_seeds_facts: "finite (cross_seeds L h target)" "d \<in> cross_seeds L h target \<Longrightarrow> in_gen h target d"
proof -
  have "cross_seeds L h target \<subseteq> (\<Union>c \<in> set (pinned_cells h).
      case cross_gen_payload L h c of None \<Rightarrow> {} | Some cs \<Rightarrow> targets L target h cs)"
    by (auto simp: cross_seeds_def)
  moreover have "finite (case cross_gen_payload L h c of None \<Rightarrow> {} | Some cs \<Rightarrow> targets L target h cs)" for c
    by (simp split: option.splits)
  ultimately show "finite (cross_seeds L h target)" by (meson finite_UN_I finite_set finite_subset)
  show "d \<in> cross_seeds L h target \<Longrightarrow> in_gen h target d"
    using targets_in_gen by (fastforce simp: cross_seeds_def)
qed

lemma extend_cross_facts:
  assumes e: "extend_mark_from_cross_gen_pinned L h target = Some (n, h')"
    and closed: "marks_closed L target h"
  shows "same_but_marks h h'"
    "gen_marks target h' = gen_marks target h \<union> {c. reaches (succs L target h) (cross_seeds L h target) c}"
proof -
  have both: "same_but_marks h h' \<and>
      gen_marks target h' = gen_marks target h \<union> {c. reaches (succs L target h) (cross_seeds L h target) c}"
  proof (cases "pinned_cells h = []")
    case True
    then have "cross_seeds L h target = {}" by (simp add: cross_seeds_def)
    moreover have "\<not> reaches G {} c" for G c
      using reaches_closed [of G "{}" c "{}"] by auto
    ultimately show ?thesis using e True by (simp add: extend_mark_from_cross_gen_pinned_def)
  next
    case False
    obtain m h1 q where f: "fold_opt (offer_cross_gen_pin L target) (pinned_cells h) (0, h, []) = Some (m, h1, q)"
      and d: "drain L target (h1, q) = Some h'"
      using e False by (auto simp: extend_mark_from_cross_gen_pinned_def split: option.splits)
    note o = offer_crosses_facts [OF f, folded cross_seeds_def]
    show ?thesis
      using drain_extends [of h h1 "cross_seeds L h target" q target L h'] o d closed cross_seeds_facts(1) [of L h target] cross_seeds_facts(2) [of _ L h target]
      by (auto simp: marks_closed_def)
  qed
  then show "same_but_marks h h'"
    "gen_marks target h' = gen_marks target h \<union> {c. reaches (succs L target h) (cross_seeds L h target) c}"
    by blast+
qed

text \<open>Closed marks stay closed when closed sets of reachable objects join them.\<close>

lemma marks_closed_extend:
  assumes "marks_closed L target h" "same_but_marks h h'"
    "gen_marks target h' = gen_marks target h \<union> {c. reaches (succs L target h) S c}"
  shows "marks_closed L target h'"
  using assms(1) unfolding marks_closed_def assms(3) succs_cong [OF assms(2)]
  by (auto intro: reaches.edge)

lemma reaches_Un: "{c. reaches G (S \<union> T) c} = {c. reaches G S c} \<union> {c. reaches G T c}"
proof (intro equalityI subsetI)
  fix c assume "c \<in> {c. reaches G (S \<union> T) c}"
  then have "reaches G (S \<union> T) c" by simp
  then show "c \<in> {c. reaches G S c} \<union> {c. reaches G T c}"
    by (induction rule: reaches.induct) (auto intro: reaches.intros)
qed (auto intro: reaches_mono)

section \<open>Reconciliation\<close>

definition with_explicit_pins :: "page_heap \<Rightarrow> page_heap" where
  "with_explicit_pins h = fold fold_explicit_pin (map fst (explicit_pins h)) h"

lemma fold_explicit_pin_eq:
  "fold_explicit_pin c h =
     (if pgen (desc h (c div PAGE_SIZE_CELLS)) = Gen_Free then h else record_pin c h)"
  by (simp add: fold_explicit_pin_def record_pin_def Let_def)

lemma fold_explicit_facts:
  assumes "length (descs h) = n_pages h" "\<forall>c \<in> set cs. c div PAGE_SIZE_CELLS < n_pages h"
  shows "same_but_pins h (fold fold_explicit_pin cs h) \<and>
    (pins_ok h \<longrightarrow> pins_ok (fold fold_explicit_pin cs h)) \<and>
    set (pinned_cells (fold fold_explicit_pin cs h)) =
      set (pinned_cells h) \<union> {c \<in> set cs. pgen (desc h (c div PAGE_SIZE_CELLS)) \<noteq> Gen_Free}"
  using assms
proof (induction cs arbitrary: h)
  case (Cons c cs)
  define h1 where "h1 = fold_explicit_pin c h"
  have c: "c div PAGE_SIZE_CELLS < n_pages h" using Cons.prems(2) by simp
  note r = record_pin_facts [OF c Cons.prems(1)]
  have s: "same_but_pins h h1" and ok: "pins_ok h \<longrightarrow> pins_ok h1"
    and p: "set (pinned_cells h1) = set (pinned_cells h) \<union>
      (if pgen (desc h (c div PAGE_SIZE_CELLS)) \<noteq> Gen_Free then {c} else {})"
    using r by (auto simp: h1_def fold_explicit_pin_eq)
  have len: "length (descs h1) = n_pages h1" "n_pages h1 = n_pages h"
    using same_but_pins_sel [OF s] Cons.prems(1) by simp_all
  have g: "pgen (desc h1 (x div PAGE_SIZE_CELLS)) = pgen (desc h (x div PAGE_SIZE_CELLS))" if "x \<in> set cs" for x
    using same_but_pins_desc(1) [OF s, of "x div PAGE_SIZE_CELLS"] that Cons.prems by (simp add: desc_def)
  have "{x \<in> set cs. pgen (desc h1 (x div PAGE_SIZE_CELLS)) \<noteq> Gen_Free} =
      {x \<in> set cs. pgen (desc h (x div PAGE_SIZE_CELLS)) \<noteq> Gen_Free}"
    using g by auto
  then show ?case
    using Cons.IH [of h1] len Cons.prems(2) ok p same_but_pins_trans [OF s]
    by (auto simp: h1_def [symmetric])
qed simp

lemma prepare_sel [simp]:
  "n_pages (prepare_recycle_live_counts_from_marks h g) = n_pages h"
  "descs (prepare_recycle_live_counts_from_marks h g) = descs h"
  "mark_bits (prepare_recycle_live_counts_from_marks h g) = mark_bits h"
  "pinned_cells (prepare_recycle_live_counts_from_marks h g) = pinned_cells h"
  "cells (prepare_recycle_live_counts_from_marks h g) = cells h"
  "start_bits (prepare_recycle_live_counts_from_marks h g) = start_bits h"
  "free_page_list (prepare_recycle_live_counts_from_marks h g) = free_page_list h"
  "recycle_live_counts_target (prepare_recycle_live_counts_from_marks h g) = Some g"
  by (simp_all add: prepare_recycle_live_counts_from_marks_def Let_def split: prod.splits)

lemma gen_marks_prepare [simp]: "gen_marks g (prepare_recycle_live_counts_from_marks h t) = gen_marks g h"
  by (auto simp: gen_marks_def marks_def is_marked_def in_gen_def)

text \<open>
  C14. Every pinned object keeps its children: after the reconciliation the explicit pins of
  live pages are in the pin set, and on top of the marks of the precise pass exactly the objects
  reachable from pinned objects are marked, from those of the evacuated generation themselves
  and from the pointer cells of those of other generations. The page table is only changed in
  its pin bytes.
\<close>

theorem pins_keep_their_children:
  assumes "length (descs h) = n_pages h" "pins_ok h"
    "\<forall>c \<in> fst ` set (explicit_pins h). c div PAGE_SIZE_CELLS < n_pages h"
    "marks_closed L from_gen (with_explicit_pins h)" "recycle_live_counts_active_for h from_gen"
    "apply_pins_and_extend_mark L h from_gen = Some h'"
  shows "same_but_pins h (with_explicit_pins h) \<and> pins_ok (with_explicit_pins h) \<and>
    set (pinned_cells h') = set (pinned_cells h) \<union>
      {c \<in> fst ` set (explicit_pins h). pgen (desc h (c div PAGE_SIZE_CELLS)) \<noteq> Gen_Free} \<and>
    descs h' = descs (with_explicit_pins h) \<and>
    gen_marks from_gen h' = gen_marks from_gen (with_explicit_pins h) \<union>
      {c. reaches (succs L from_gen (with_explicit_pins h))
            (pin_seeds (with_explicit_pins h) from_gen \<union> cross_seeds L (with_explicit_pins h) from_gen) c}"
proof -
  define h0 where "h0 = with_explicit_pins h"
  have f: "same_but_pins h h0" "pins_ok h0"
    "set (pinned_cells h0) = set (pinned_cells h) \<union>
      {c \<in> fst ` set (explicit_pins h). pgen (desc h (c div PAGE_SIZE_CELLS)) \<noteq> Gen_Free}"
    using fold_explicit_facts [OF assms(1), of "map fst (explicit_pins h)"] assms(2,3)
    by (simp_all add: h0_def with_explicit_pins_def)
  have act: "recycle_live_counts_active_for h0 from_gen"
    using assms(5) same_but_pins_sel [OF f(1)] by (simp add: recycle_live_counts_active_for_def)
  have none: "\<not> reaches G {} c" for G c using reaches_closed [of G "{}" c "{}"] by auto
  have res: "set (pinned_cells h') = set (pinned_cells h0) \<and> descs h' = descs h0 \<and>
    gen_marks from_gen h' = gen_marks from_gen h0 \<union>
      {c. reaches (succs L from_gen h0) (pin_seeds h0 from_gen \<union> cross_seeds L h0 from_gen) c}"
  proof (cases "pinned_cells h0 = []")
    case True
    then have "h' = h0"
      using assms(6) by (simp add: apply_pins_and_extend_mark_def h0_def [unfolded with_explicit_pins_def])
    then show ?thesis using True none by (simp add: pin_seeds_def cross_seeds_def)
  next
    case False
    obtain n h1 m h2 where e1: "extend_mark_from_pinned L h0 from_gen = Some (n, h1)"
      and e2: "extend_mark_from_cross_gen_pinned L h1 from_gen = Some (m, h2)"
      and h': "h' = prepare_recycle_live_counts_from_marks h2 from_gen"
      using assms(6) False act
      by (auto simp: apply_pins_and_extend_mark_def h0_def [unfolded with_explicit_pins_def] split: option.splits)
    have closed: "marks_closed L from_gen h0" using assms(4) by (simp add: h0_def)
    have pins: "\<forall>c \<in> set (pinned_cells h0). c div PAGE_SIZE_CELLS < n_pages h0"
      using f(2) by (simp add: pins_ok_def)
    note x1 = extend_from_pinned_facts [OF e1 pins closed]
    note x2 = extend_cross_facts [OF e2 marks_closed_extend [OF closed x1]]
    show ?thesis
      using x1(2) x2(2) same_but_marks_sel [OF same_but_marks_trans [OF x1(1) x2(1)]]
      by (simp add: h' reaches_Un pins_cong [OF x1(1)] succs_cong [OF x1(1)] Un_assoc)
  qed
  show ?thesis using f res unfolding h0_def by simp
qed

text \<open>The self-referential cons again, held by an explicit pin only.\<close>

definition pinned_cons_heap :: page_heap where
  "pinned_cons_heap = self_cons_heap\<lparr>explicit_pins := [(0, 1)], recycle_live_counts_target := Some G0\<rparr>"

lemma pinned_cons_sel:
  "n_pages pinned_cons_heap = 1" "descs pinned_cons_heap = [(desc_fresh G0 Kind_Cons)\<lparr>words_used := 2\<rparr>]"
  "start_bits pinned_cons_heap = start_bits self_cons_heap" "pinned_cells pinned_cons_heap = []"
  "explicit_pins pinned_cons_heap = [(0, 1)]" "mark_bits pinned_cons_heap = (\<lambda>_. 0)"
  "recycle_live_counts_target pinned_cons_heap = Some G0"
  by (simp_all add: pinned_cons_heap_def self_cons_heap_def div_ceil_def PAGE_SIZE_BYTES_def)

lemma pinned_cons_explicit:
  "with_explicit_pins pinned_cons_heap =
     pinned_cons_heap\<lparr>descs := [set_pin ((desc_fresh G0 Kind_Cons)\<lparr>words_used := 2\<rparr>) 0], pinned_cells := [0]\<rparr>"
  by (simp add: with_explicit_pins_def fold_explicit_pin_eq record_pin_def insert_pinned_def desc_update_def
      desc_def pinned_cons_sel pin_slot_def)

lemma pinned_cons_decodable:
  "in_gen (with_explicit_pins pinned_cons_heap) G0 c \<Longrightarrow> decodable L (with_explicit_pins pinned_cons_heap) c"
  by (simp add: pinned_cons_explicit decodable_def marked_payload_def Let_def desc_def in_gen_def pinned_cons_sel)

lemma pinned_cons_seeds: "pin_seeds (with_explicit_pins pinned_cons_heap) G0 = {0}"
  by (auto simp: pin_seeds_def pinned_cons_explicit desc_def pinned_cons_sel self_cons_pointer)

lemma pinned_cons_applies:
  "\<exists>h'. apply_pins_and_extend_mark lisp_layout pinned_cons_heap G0 = Some h'"
proof -
  let ?h = "with_explicit_pins pinned_cons_heap"
  have pins: "pinned_cells ?h = [0]" by (simp add: pinned_cons_explicit)
  have act: "recycle_live_counts_active_for ?h G0"
    by (simp add: recycle_live_counts_active_for_def pinned_cons_explicit pinned_cons_sel)
  obtain n h1 q where f: "fold (offer_pin G0) (pinned_cells ?h) (0, ?h, []) = (n, h1, q)" by (metis prod_cases3)
  note o = offer_pins_facts [OF f]
  have s: "same_but_marks ?h h1" using o by simp
  have D: "{c \<in> set (pinned_cells ?h). seed_pin_ok ?h G0 c} = {0}"
    using pinned_cons_seeds by (auto simp: pin_seeds_def seed_pin_ok_def)
  have "drain lisp_layout G0 (h1, q) \<noteq> None"
  proof (rule drain_defined)
    fix c
    show "reaches (succs lisp_layout G0 (fst (h1, q))) {0} c" if "c \<in> set (snd (h1, q))"
      using that o D by (auto intro: reaches.seed)
    show "decodable lisp_layout (fst (h1, q)) c" if "reaches (succs lisp_layout G0 (fst (h1, q))) {0} c"
    proof -
      have g: "in_gen ?h G0 0" by (simp add: in_gen_def pinned_cons_explicit pinned_cons_sel)
      have "reaches (succs lisp_layout G0 ?h) {0} c" using that succs_cong [OF s] by simp
      then have "in_gen ?h G0 c"
        by (cases rule: reaches.cases) (use g succs_in_gen in auto)
      then show ?thesis
        using pinned_cons_decodable same_but_marks_cong(2) [OF s] by (simp add: decodable_def)
    qed
  qed
  then obtain h2 where d: "drain lisp_layout G0 (h1, q) = Some h2" by blast
  then have e1: "extend_mark_from_pinned lisp_layout ?h G0 = Some (n, h2)"
    using f by (simp add: extend_mark_from_pinned_def pins)
  have s2: "same_but_marks ?h h2" using same_but_marks_trans [OF s] drain_same [OF d] by simp
  have "offer_cross_gen_pin lisp_layout G0 0 (0, h2, []) = Some (0, h2, [])"
    using same_but_marks_sel(3) [OF s2] by (simp add: offer_cross_gen_pin_def desc_def pinned_cons_explicit)
  then have e2: "extend_mark_from_cross_gen_pinned lisp_layout h2 G0 = Some (0, h2)"
    using same_but_marks_sel(8) [OF s2] pins by (simp add: extend_mark_from_cross_gen_pinned_def)
  show ?thesis
    unfolding apply_pins_and_extend_mark_def with_explicit_pins_def [symmetric] Let_def
    using act pins e1 e2 by simp
qed

theorem pins_keep_their_children_witness:
  "\<exists>h'. apply_pins_and_extend_mark lisp_layout pinned_cons_heap G0 = Some h' \<and> 0 \<in> gen_marks G0 h'"
proof -
  obtain h' where a: "apply_pins_and_extend_mark lisp_layout pinned_cons_heap G0 = Some h'"
    using pinned_cons_applies by blast
  have "gen_marks G0 (with_explicit_pins pinned_cons_heap) = {}"
    by (simp add: gen_marks_def marks_def is_marked_def pinned_cons_explicit pinned_cons_sel bit1_test_bit)
  then have c: "marks_closed lisp_layout G0 (with_explicit_pins pinned_cons_heap)"
    by (simp add: marks_closed_def)
  have "length (descs pinned_cons_heap) = n_pages pinned_cons_heap" "pins_ok pinned_cons_heap"
    "\<forall>c \<in> fst ` set (explicit_pins pinned_cons_heap). c div PAGE_SIZE_CELLS < n_pages pinned_cons_heap"
    "recycle_live_counts_active_for pinned_cons_heap G0"
    by (simp_all add: pins_ok_def pinned_cons_sel recycle_live_counts_active_for_def)
  from pins_keep_their_children [OF this(1,2,3) c this(4) a]
  have "gen_marks G0 h' = gen_marks G0 (with_explicit_pins pinned_cons_heap) \<union>
      {c. reaches (succs lisp_layout G0 (with_explicit_pins pinned_cons_heap))
        (pin_seeds (with_explicit_pins pinned_cons_heap) G0 \<union>
         cross_seeds lisp_layout (with_explicit_pins pinned_cons_heap) G0) c}"
    by (elim conjE)
  then have "0 \<in> gen_marks G0 h'" by (auto simp: pinned_cons_seeds intro: reaches.seed)
  then show ?thesis using a by blast
qed

section \<open>Live counts and the release of dead pages\<close>

lemma length_filter_le_64: "length (filter P [0..<64]) \<le> 64"
  using length_filter_le [of P "[0..<64]"] by simp

lemma page_mark_count_bound: "page_mark_count h p \<le> PAGE_SIZE_CELLS"
proof -
  have "(\<Sum>w \<leftarrow> ws. length (filter (bit (mark_bits h w)) [0..<64])) \<le> 64 * length ws" for ws
    by (induction ws) (use length_filter_le_64 in \<open>simp_all add: add_mono\<close>)
  from this [of "[p * PAGE_SIZE_CELLS div 64..<p * PAGE_SIZE_CELLS div 64 + PAGE_SIZE_CELLS div 64]"]
  show ?thesis by (simp add: page_mark_count_def PAGE_SIZE_CELLS_num Let_def)
qed

lemma page_mark_count_zero:
  "page_mark_count h p = 0 \<longleftrightarrow> (\<forall>c. c div PAGE_SIZE_CELLS = p \<longrightarrow> c \<notin> marks h)"
proof -
  have e: "page_mark_count h p = 0 \<longleftrightarrow>
      (\<forall>w. p * 128 \<le> w \<and> w < p * 128 + 128 \<longrightarrow> (\<forall>i < 64. \<not> bit (mark_bits h w) i))"
    by (auto simp: page_mark_count_def PAGE_SIZE_CELLS_num Let_def filter_empty_conv)
  show ?thesis
    unfolding e
  proof (intro iffI allI impI)
    fix c assume a: "\<forall>w. p * 128 \<le> w \<and> w < p * 128 + 128 \<longrightarrow> (\<forall>i < 64. \<not> bit (mark_bits h w) i)"
      and c: "c div PAGE_SIZE_CELLS = p"
    have "p * 128 \<le> c div 64 \<and> c div 64 < p * 128 + 128"
      using c page_word_range [of p c] by (simp add: PAGE_SIZE_CELLS_num)
    then have "\<not> bit (mark_bits h (c div 64)) (c mod 64)" using a by simp
    then show "c \<notin> marks h" by (simp add: marks_def is_marked_def bit1_test_bit)
  next
    fix w i :: nat
    assume a: "\<forall>c. c div PAGE_SIZE_CELLS = p \<longrightarrow> c \<notin> marks h" and w: "p * 128 \<le> w \<and> w < p * 128 + 128"
      and i: "i < 64"
    have d: "(w * 64 + i) div 64 = w" "(w * 64 + i) mod 64 = i" using i by simp_all
    then have "(w * 64 + i) div PAGE_SIZE_CELLS = p"
      using w page_word_range [of p "w * 64 + i"] by (simp add: PAGE_SIZE_CELLS_num)
    then have "w * 64 + i \<notin> marks h" using a by blast
    then show "\<not> bit (mark_bits h w) i" using d by (simp add: marks_def is_marked_def bit1_test_bit)
  qed
qed

lemma prepare_fold:
  "fold (\<lambda>page_idx (counts, live_cells, live_pages).
          (counts(page_idx := (of_nat (page_mark_count h page_idx) :: u16)),
           live_cells + page_mark_count h page_idx,
           if 0 < page_mark_count h page_idx then live_pages + 1 else live_pages))
      ps (counts, a, b) =
    ((\<lambda>p. if p \<in> set ps then of_nat (page_mark_count h p) else counts p),
     a + (\<Sum>p \<leftarrow> ps. page_mark_count h p), b + length (filter (\<lambda>p. 0 < page_mark_count h p) ps))"
  by (induction ps arbitrary: counts a b) (auto simp: fun_eq_iff)

lemma prepare_counts:
  "recycle_live_counts (prepare_recycle_live_counts_from_marks h g) p =
    (if p \<in> set (pages_in_gen h g) then of_nat (page_mark_count h p) else 0)"
  "last_mark_live_cells (prepare_recycle_live_counts_from_marks h g) = count_marked_in_gen h g"
  "last_mark_live_pages (prepare_recycle_live_counts_from_marks h g) =
    length (filter (\<lambda>p. 0 < page_mark_count h p) (pages_in_gen h g))"
proof -
  note p = prepare_fold [of h "pages_in_gen h g" "\<lambda>_. 0" 0 0]
  have "prepare_recycle_live_counts_from_marks h g =
      h\<lparr>recycle_live_counts := (\<lambda>p. if p \<in> set (pages_in_gen h g) then of_nat (page_mark_count h p) else 0),
        last_mark_live_cells := (\<Sum>p \<leftarrow> pages_in_gen h g. page_mark_count h p),
        last_mark_live_pages := length (filter (\<lambda>p. 0 < page_mark_count h p) (pages_in_gen h g)),
        last_zero_live_pages_released := 0, recycle_live_counts_target := Some g\<rparr>"
    by (simp add: prepare_recycle_live_counts_from_marks_def Let_def p)
  then show "recycle_live_counts (prepare_recycle_live_counts_from_marks h g) p =
      (if p \<in> set (pages_in_gen h g) then of_nat (page_mark_count h p) else 0)"
    "last_mark_live_cells (prepare_recycle_live_counts_from_marks h g) = count_marked_in_gen h g"
    "last_mark_live_pages (prepare_recycle_live_counts_from_marks h g) =
      length (filter (\<lambda>p. 0 < page_mark_count h p) (pages_in_gen h g))"
    by (simp_all add: count_marked_in_gen_def page_mark_count_def Let_def)
qed

lemma set_pages_in_gen:
  "set (pages_in_gen h g) = {p. p < length (descs h) \<and> pgen (descs h ! p) = g}"
  by (auto simp: pages_in_gen_def)

text \<open>The bits counted word by word are the marked cells of the page.\<close>

lemma popcount_words:
  "(\<Sum>w \<leftarrow> [q..<q + m]. length (filter (bit (b w)) [0..<64])) = length (filter (bit1_test b) [64 * q..<64 * (q + m)])"
proof (induction m)
  case (Suc m)
  have shift: "map (\<lambda>i. i + 64 * (q + m)) [0..<64] = [64 * (q + m)..<64 * (q + m) + 64]"
    unfolding map_add_upt by (simp only: add.commute)
  have bit: "bit1_test b (i + 64 * (q + m)) = bit (b (q + m)) i" if "i \<in> set [0..<64]" for i
    using that unfolding bit1_test_bit by (simp del: distrib_left_numeral)
  have "length (filter (bit1_test b) [64 * (q + m)..<64 * (q + m) + 64]) = length (filter (bit (b (q + m))) [0..<64])"
    unfolding shift [symmetric] filter_map length_map comp_def
    by (rule arg_cong [where f = length], rule filter_cong [OF refl bit])
  moreover have "[64 * q..<64 * (q + Suc m)] = [64 * q..<64 * (q + m)] @ [64 * (q + m)..<64 * (q + m) + 64]"
    using upt_add_eq_append [of "64 * q" "64 * (q + m)" 64] by (simp add: algebra_simps)
  ultimately show ?case using Suc by simp
qed simp

lemma page_mark_count_card: "page_mark_count h p = card {c \<in> marks h. c div PAGE_SIZE_CELLS = p}"
proof -
  have "page_mark_count h p = length (filter (bit1_test (mark_bits h)) [64 * (p * 128)..<64 * (p * 128 + 128)])"
    unfolding popcount_words [symmetric] by (simp add: page_mark_count_def PAGE_SIZE_CELLS_num Let_def mult.commute)
  also have "\<dots> = card ({c. bit1_test (mark_bits h) c} \<inter> set [64 * (p * 128)..<64 * (p * 128 + 128)])"
    by (rule distinct_length_filter) simp
  also have "set [64 * (p * 128)..<64 * (p * 128 + 128)] = {c. c div PAGE_SIZE_CELLS = p}"
    unfolding set_upt using whole_page_iff [of p] by (simp add: PAGE_SIZE_CELLS_num atLeastLessThan_def atLeast_def lessThan_def Int_def mult.commute)
  also have "{c. bit1_test (mark_bits h) c} \<inter> {c. c div PAGE_SIZE_CELLS = p} = {c \<in> marks h. c div PAGE_SIZE_CELLS = p}"
    by (simp add: marks_def is_marked_def Int_def)
  finally show ?thesis .
qed

definition live_cells :: "page_heap \<Rightarrow> generation \<Rightarrow> nat set" where
  "live_cells h g = {c \<in> marks h. c div PAGE_SIZE_CELLS < length (descs h) \<and>
     pgen (descs h ! (c div PAGE_SIZE_CELLS)) = g}"

lemma live_cells_page:
  "{c \<in> live_cells h g. c div PAGE_SIZE_CELLS = p} =
    (if p \<in> set (pages_in_gen h g) then {c \<in> marks h. c div PAGE_SIZE_CELLS = p} else {})"
  by (auto simp: live_cells_def set_pages_in_gen)

lemma live_cells_count: "(\<Sum>p \<leftarrow> pages_in_gen h g. page_mark_count h p) = card (live_cells h g)"
proof -
  have d: "distinct (pages_in_gen h g)" by (simp add: pages_in_gen_def)
  have "live_cells h g = (\<Union>p \<in> set (pages_in_gen h g). {c \<in> marks h. c div PAGE_SIZE_CELLS = p})"
    by (auto simp: live_cells_def set_pages_in_gen)
  moreover have "finite {c \<in> marks h. c div PAGE_SIZE_CELLS = p}" for p
    by (rule finite_subset [of _ "{..< Suc p * PAGE_SIZE_CELLS}"])
      (auto simp: PAGE_SIZE_CELLS_num div_less_iff_less_mult [symmetric])
  ultimately show ?thesis
    by (simp add: sum_list_distinct_conv_sum_set [OF d] page_mark_count_card card_UN_disjoint disjoint_iff)
qed

lemma live_pages_count:
  "length (filter (\<lambda>p. 0 < page_mark_count h p) (pages_in_gen h g)) = card ((\<lambda>c. c div PAGE_SIZE_CELLS) ` live_cells h g)"
proof -
  have "{p. 0 < page_mark_count h p} \<inter> set (pages_in_gen h g) = (\<lambda>c. c div PAGE_SIZE_CELLS) ` live_cells h g"
    by (auto simp: live_cells_def set_pages_in_gen page_mark_count_zero [unfolded neq0_conv [symmetric]] neq0_conv [symmetric]
        simp del: neq0_conv)
  then show ?thesis
    by (subst distinct_length_filter) (simp_all add: pages_in_gen_def)
qed

text \<open>
  C22. The live counts are exact: with the live cells the marked cells on the pages of the target
  generation, the \<open>u16\<close> count of every page is the number of live cells on it (no count is cut
  off, and pages of other generations have none), the two diagnostics and \<open>count_marked_in_gen\<close> are
  the numbers of live cells and of pages that have one, and the marks themselves are untouched.
\<close>

theorem live_counts_exact:
  "(let h' = prepare_recycle_live_counts_from_marks h g in
     (\<forall>p. unat (recycle_live_counts h' p) = card {c \<in> live_cells h g. c div PAGE_SIZE_CELLS = p}) \<and>
     last_mark_live_cells h' = card (live_cells h g) \<and>
     last_mark_live_pages h' = card ((\<lambda>c. c div PAGE_SIZE_CELLS) ` live_cells h g) \<and>
     count_marked_in_gen h g = card (live_cells h g) \<and>
     recycle_live_counts_active_for h' g \<and> marks h' = marks h)"
proof -
  have "unat (of_nat (page_mark_count h p) :: u16) = page_mark_count h p" for p
    using page_mark_count_bound [of h p] by (simp add: unat_of_nat PAGE_SIZE_CELLS_num)
  moreover have "marks (prepare_recycle_live_counts_from_marks h g) = marks h"
    by (simp add: marks_def is_marked_def)
  moreover have "count_marked_in_gen h g = card (live_cells h g)"
    by (simp add: live_cells_count [symmetric] count_marked_in_gen_def page_mark_count_def Let_def)
  moreover have "recycle_live_counts_active_for (prepare_recycle_live_counts_from_marks h g) g"
    by (simp add: recycle_live_counts_active_for_def prepare_recycle_live_counts_from_marks_def Let_def split: prod.split)
  ultimately show ?thesis
    unfolding Let_def prepare_counts live_cells_page live_pages_count by (simp add: page_mark_count_card)
qed

lemma release_fold:
  assumes "length (descs h) = n_pages h" "set ps \<subseteq> {..< n_pages h}" "distinct ps"
  defines "step \<equiv> \<lambda>p h. (release_page_to_free h p False)\<lparr>recycle_live_counts :=
                 (recycle_live_counts (release_page_to_free h p False))(p := 0)\<rparr>"
  shows "length (descs (fold step ps h)) = n_pages h \<and> n_pages (fold step ps h) = n_pages h \<and>
    (\<forall>p < n_pages h. descs (fold step ps h) ! p = (if p \<in> set ps then desc_FREE else descs h ! p)) \<and>
    set (free_page_list (fold step ps h)) = set ps \<union> set (free_page_list h) \<and>
    cells (fold step ps h) = cells h \<and> start_bits (fold step ps h) = start_bits h \<and>
    mark_bits (fold step ps h) = mark_bits h \<and> pinned_cells (fold step ps h) = pinned_cells h"
  using assms(1-3)
proof (induction ps arbitrary: h)
  case (Cons p ps)
  have s: "descs (step p h) = (descs h)[p := desc_FREE]" "n_pages (step p h) = n_pages h"
    "free_page_list (step p h) = p # free_page_list h" "cells (step p h) = cells h"
    "start_bits (step p h) = start_bits h" "mark_bits (step p h) = mark_bits h"
    "pinned_cells (step p h) = pinned_cells h"
    by (simp_all add: step_def release_page_to_free_def desc_release_def Let_def)
  have "length (descs (step p h)) = n_pages (step p h)" using Cons.prems(1) by (simp add: s)
  note IH = Cons.IH [OF this]
  have "set ps \<subseteq> {..< n_pages (step p h)}" "distinct ps" "p < n_pages h" "p \<notin> set ps"
    using Cons.prems by (simp_all add: s)
  then show ?case
    using IH Cons.prems(1) by (auto simp: s nth_list_update)
qed simp

lemma release_zero_live_facts:
  fixes g :: generation
  assumes "length (descs h) = n_pages h"
  defines "R \<equiv> {p. p < n_pages h \<and> pgen (descs h ! p) = g \<and> \<not> has_pins (descs h ! p) \<and> recycle_live_counts h p = 0}"
  shows "(\<forall>p < n_pages h. descs (release_zero_live_unpinned_pages h g) ! p = (if p \<in> R then desc_FREE else descs h ! p))
    \<and> set (free_page_list (release_zero_live_unpinned_pages h g)) = R \<union> set (free_page_list h)
    \<and> cells (release_zero_live_unpinned_pages h g) = cells h
    \<and> start_bits (release_zero_live_unpinned_pages h g) = start_bits h
    \<and> mark_bits (release_zero_live_unpinned_pages h g) = mark_bits h"
proof -
  define ps where "ps = filter (\<lambda>p. \<not> has_pins (desc h p) \<and> recycle_live_counts h p = 0) (pages_in_gen h g)"
  have ps: "set ps = R" "distinct ps" "set ps \<subseteq> {..< n_pages h}"
    using assms(1) by (auto simp: ps_def R_def desc_def pages_in_gen_def)
  have eq: "release_zero_live_unpinned_pages h g =
      fold (\<lambda>p h. (release_page_to_free h p False)\<lparr>recycle_live_counts :=
                 (recycle_live_counts (release_page_to_free h p False))(p := 0)\<rparr>) ps
        (h\<lparr>last_zero_live_pages_released := length ps\<rparr>)"
    unfolding release_zero_live_unpinned_pages_def ps_def Let_def ..
  show ?thesis
    unfolding eq
    using release_fold [of "h\<lparr>last_zero_live_pages_released := length ps\<rparr>" ps] ps assms(1) by simp
qed

lemma release_after_mark:
  assumes "length (descs h) = n_pages h"
  shows "(let h' = release_zero_live_unpinned_pages (prepare_recycle_live_counts_from_marks h g) g;
       dead = {p. p < n_pages h \<and> pgen (descs h ! p) = g \<and> \<not> has_pins (descs h ! p) \<and>
                  (\<forall>c. c div PAGE_SIZE_CELLS = p \<longrightarrow> c \<notin> marks h)} in
     (\<forall>p < n_pages h. descs h' ! p = (if p \<in> dead then desc_FREE else descs h ! p)) \<and>
     set (free_page_list h') = dead \<union> set (free_page_list h) \<and>
     cells h' = cells h \<and> start_bits h' = start_bits h \<and> mark_bits h' = mark_bits h)"
proof -
  let ?h = "prepare_recycle_live_counts_from_marks h g"
  have len: "length (descs ?h) = n_pages ?h" using assms by simp
  have z: "recycle_live_counts ?h p = 0 \<longleftrightarrow> (\<forall>c. c div PAGE_SIZE_CELLS = p \<longrightarrow> c \<notin> marks h)"
    if "p < n_pages h" "pgen (descs h ! p) = g" for p
  proof -
    have "unat (of_nat (page_mark_count h p) :: u16) = page_mark_count h p"
      using page_mark_count_bound [of h p] by (simp add: unat_of_nat PAGE_SIZE_CELLS_num)
    then have "(of_nat (page_mark_count h p) :: u16) = 0 \<longleftrightarrow> page_mark_count h p = 0"
      by (metis unat_0 unat_eq_zero)
    then show ?thesis
      using that assms page_mark_count_zero [of h p] by (simp add: prepare_counts set_pages_in_gen)
  qed
  have R: "{p. p < n_pages ?h \<and> pgen (descs ?h ! p) = g \<and> \<not> has_pins (descs ?h ! p) \<and> recycle_live_counts ?h p = 0}
      = {p. p < n_pages h \<and> pgen (descs h ! p) = g \<and> \<not> has_pins (descs h ! p) \<and>
            (\<forall>c. c div PAGE_SIZE_CELLS = p \<longrightarrow> c \<notin> marks h)}"
    using z by auto
  show ?thesis
    using release_zero_live_facts [OF len, of g] unfolding R [unfolded prepare_sel] Let_def prepare_sel .
qed

text \<open>
  C21. Releasing the dead pages after a mark frees exactly the pages of the generation on which
  no cell is marked and no pin is recorded; they are put on the free list, every other
  descriptor is unchanged, and no memory, start bit or mark is touched.
\<close>

theorem release_frees_unmarked_unpinned:
  assumes "length (descs h) = n_pages h"
  shows "(let h' = release_zero_live_unpinned_pages (prepare_recycle_live_counts_from_marks h g) g;
       dead = {p. p < n_pages h \<and> pgen (descs h ! p) = g \<and> \<not> has_pins (descs h ! p) \<and>
                  (\<forall>c. c div PAGE_SIZE_CELLS = p \<longrightarrow> c \<notin> marks h)} in
     (\<forall>p < n_pages h. descs h' ! p = (if p \<in> dead then desc_FREE else descs h ! p)) \<and>
     set (free_page_list h') = dead \<union> set (free_page_list h) \<and>
     cells h' = cells h \<and> start_bits h' = start_bits h \<and> mark_bits h' = mark_bits h)"
  by (rule release_after_mark [OF assms])

theorem release_frees_unmarked_unpinned_witness:
  "pgen (descs (release_zero_live_unpinned_pages
     (prepare_recycle_live_counts_from_marks self_cons_heap G0) G0) ! 0) = Gen_Free"
proof -
  have "marks self_cons_heap = {}" by (simp add: marks_def is_marked_def self_cons_heap_def bit1_test_bit)
  then show ?thesis
    using release_frees_unmarked_unpinned [OF self_cons_sel(2), of G0]
    by (simp add: self_cons_sel Let_def has_pins_def)
qed

text \<open>
  C20. The same release takes the tail of a live large object. Only the head cell of a large run
  carries a start bit, so only it can be marked: after any mark pass the continuation pages have
  no marked cell, and unless they are pinned they are freed and listed as free, while the head
  still records the full run.
\<close>

theorem live_large_tail_released:
  assumes "length (descs h) = n_pages h" "large_placed h s m g" "2 \<le> m" "s + m \<le> n_pages h"
    "mark_from_roots L h g roots = Some h1" "\<not> has_pins (descs h ! (s + 1))"
    "is_marked h1 (s * PAGE_SIZE_CELLS)"
  shows "(let h' = release_zero_live_unpinned_pages (prepare_recycle_live_counts_from_marks h1 g) g in
     pgen (descs h' ! (s + 1)) = Gen_Free \<and> s + 1 \<in> set (free_page_list h') \<and>
     pgen (descs h' ! s) = g \<and> n_span (descs h' ! s) = of_nat m)"
proof -
  note m = mark_from_roots_exact [OF assms(1,5)]
  note s = m(1)
  note sel = same_but_marks_sel [OF s]
  have d1: "pgen (descs h ! (s + 1)) = g" "pgen (descs h ! s) = g" "n_span (descs h ! s) = of_nat m"
    using assms(2,3) by (auto simp: large_placed_def dest: spec [of _ 0] spec [of _ 1])
  have starts: "\<not> is_start_at (start_bits h) c" if "c div PAGE_SIZE_CELLS = s + 1" for c
  proof -
    have "(s + 1) * PAGE_SIZE_CELLS \<le> c \<and> c < (s + 1) * PAGE_SIZE_CELLS + PAGE_SIZE_CELLS"
      using that whole_page_iff [of "s + 1" c] by simp
    moreover have "(s + 2) * PAGE_SIZE_CELLS \<le> (s + m) * PAGE_SIZE_CELLS"
      using assms(3) by (intro mult_le_mono1) simp
    ultimately show ?thesis
      using assms(2) unfolding large_placed_def by (auto simp: PAGE_SIZE_CELLS_num)
  qed
  have "c \<notin> marks h1" if "c div PAGE_SIZE_CELLS = s + 1" for c
  proof
    assume "c \<in> marks h1"
    moreover have "in_gen h g c" using that d1 assms(3,4) by (simp add: in_gen_def)
    ultimately have "reaches (succs L g h) (root_targets L g h roots) c" using m(2) by (simp add: marks_def)
    then have "is_start_at (start_bits h) c"
      by (cases rule: reaches.cases)
        (auto simp: root_targets_def succs_def targets_def elim!: mark_gate_Some split: option.splits)
    then show False using starts [OF that] by simp
  qed
  moreover have "s * PAGE_SIZE_CELLS \<in> marks h1" using assms(7) by (simp add: marks_def)
  moreover have "s * PAGE_SIZE_CELLS div PAGE_SIZE_CELLS = s" by (simp add: PAGE_SIZE_CELLS_num)
  ultimately show ?thesis
    using release_after_mark [of h1 g] assms(1,3,4,6) d1 sel unfolding Let_def by auto
qed

text \<open>A string of 10000 cells over two pages, named by one root.\<close>

definition long_string_heap :: page_heap where
  "long_string_heap = (with_reservation 65536 (\<lambda>_. True) 131072)\<lparr>
     descs := [large_desc G0 2 0, large_desc G0 2 1],
     start_bits := set_start_bit_at (\<lambda>_. 0) 0,
     cells := (\<lambda>_. 0)(0 := header_new HT_String 10000)\<rparr>"

lemma long_string_sel:
  "n_pages long_string_heap = 2" "base_ptr long_string_heap = 65536"
  "descs long_string_heap = [large_desc G0 2 0, large_desc G0 2 1]"
  "is_start_at (start_bits long_string_heap) c = (c = 0)" "\<not> is_cons_start_at (start_bits long_string_heap) 0"
  "cells long_string_heap 0 = header_new HT_String 10000"
  by (simp_all add: long_string_heap_def div_ceil_def PAGE_SIZE_BYTES_def bitmap_simps)

lemma long_string_gate: "mark_gate lisp_layout long_string_heap G0 (lisp_make_pointer 65536 PK_Header) = Some 0"
proof -
  have "lisp_classify (lisp_make_pointer 65536 PK_Header) = PointerHeader 65536"
    using lisp.classify_pointer [of 65536 PK_Header] by simp
  moreover have "page_of long_string_heap 65536 = Some 0" "cell_index long_string_heap 65536 = 0"
    by (simp_all add: page_of_def cell_index_def long_string_sel reserved_bytes_def Let_def PAGE_SIZE_BYTES_def)
  ultimately show ?thesis
    by (simp add: mark_gate_def pointer_target_def desc_def long_string_sel)
qed

lemma long_string_payload: "marked_payload lisp_layout long_string_heap 0 = Some []"
proof -
  have "unat (10000 :: u32) < 2 ^ 24" by simp
  then show ?thesis
    by (simp add: marked_payload_def desc_def long_string_sel lisp_header_layout_def header_ty_new
        header_length_new Let_def layout_opaque_def pointer_cell_count_def)
qed

lemma long_string_marked:
  "\<exists>h1. mark_from_roots lisp_layout long_string_heap G0 [lisp_make_pointer 65536 PK_Header] = Some h1 \<and>
     is_marked h1 0"
proof -
  let ?w = "lisp_make_pointer 65536 PK_Header" and ?h0 = "clear_mark_bits_in_gen long_string_heap G0"
  have s0: "same_but_marks long_string_heap ?h0"
    by (simp add: clear_mark_bits_in_gen_def)
  have "marks ?h0 = {}"
    by (auto simp: clear_mark_bits_in_gen_def marks_def is_marked_def mark_map.test_clear_list)
      (simp add: long_string_heap_def bit1_test_bit)
  then have m: "mark_cell ?h0 0 = (False, ?h0\<lparr>mark_bits := bit1_set (mark_bits ?h0) 0\<rparr>)"
    by (simp add: mark_cell_eq)
  let ?h1 = "?h0\<lparr>mark_bits := bit1_set (mark_bits ?h0) 0\<rparr>"
  have s1: "same_but_marks long_string_heap ?h1" by (rule same_but_marks_trans [OF s0]) simp
  have v: "visit_word_roots lisp_layout G0 [?w] (?h0, []) = (?h1, [0])"
    by (simp add: visit_word_roots_def try_mark_root_def same_but_marks_cong(1) [OF s0] long_string_gate m)
  have "drain lisp_layout G0 (?h1, [0]) = Some ?h1"
    by (simp add: scan_marked_object_def same_but_marks_cong(2) [OF s1] long_string_payload visit_cells_def)
  moreover have "is_marked ?h1 0" using marks_update [of ?h0 0] by (auto simp: marks_def)
  ultimately show ?thesis using v unfolding mark_from_roots_def by (intro exI [of _ ?h1]) simp
qed

theorem live_large_tail_released_witness:
  "\<exists>h1. mark_from_roots lisp_layout long_string_heap G0 [lisp_make_pointer 65536 PK_Header] = Some h1 \<and>
     is_marked h1 0 \<and>
     pgen (descs (release_zero_live_unpinned_pages (prepare_recycle_live_counts_from_marks h1 G0) G0) ! 1) = Gen_Free"
proof -
  obtain h1 where h1: "mark_from_roots lisp_layout long_string_heap G0 [lisp_make_pointer 65536 PK_Header] = Some h1"
    "is_marked h1 0"
    using long_string_marked by blast
  have p: "large_placed long_string_heap 0 2 G0" "\<not> has_pins (descs long_string_heap ! (0 + 1))"
    "length (descs long_string_heap) = n_pages long_string_heap" "0 + 2 \<le> n_pages long_string_heap"
    "is_marked h1 (0 * PAGE_SIZE_CELLS)"
    using h1(2) by (auto simp: large_placed_def long_string_sel less_2_cases_iff nth_Cons'
        has_pins_def large_desc_def desc_fresh_def Let_def)
  show ?thesis
    using live_large_tail_released [OF p(3) p(1) _ p(4) h1(1) p(2,5)] h1
    by (auto simp: Let_def)
qed

end
