(* ===== verification/Evac_Mark.thy ===== *)
theory Evac_Mark
  imports Evacuator
begin

text \<open>
  The internal mark pass of the evacuator (\<open>Mark\<close> mode): the drain loop and its meaning. It
  differs from \<open>PageMarker\<close> in the treatment of large objects, which it also pins, so that the
  reclaim phase flips their run in place.
\<close>

section \<open>What the pass leaves alone\<close>

definition same_but_marks_pins :: "page_heap \<Rightarrow> page_heap \<Rightarrow> bool" where
  "same_but_marks_pins h h' \<longleftrightarrow>
     h' = h\<lparr>mark_bits := mark_bits h', descs := descs h', pinned_cells := pinned_cells h'\<rparr> \<and>
     length (descs h') = length (descs h) \<and>
     (\<forall>p. clear_pins (descs h' ! p) = clear_pins (descs h ! p))"

lemma same_but_marks_pins_refl [simp]: "same_but_marks_pins h h"
  by (simp add: same_but_marks_pins_def)

lemma same_but_marks_pins_trans:
  "same_but_marks_pins h h1 \<Longrightarrow> same_but_marks_pins h1 h2 \<Longrightarrow> same_but_marks_pins h h2"
  unfolding same_but_marks_pins_def by (cases h; cases h1; cases h2) simp

lemma same_but_marks_pins_sel:
  assumes "same_but_marks_pins h h'"
  shows "n_pages h' = n_pages h" "base_ptr h' = base_ptr h" "cells h' = cells h"
    "start_bits h' = start_bits h" "length (descs h') = length (descs h)"
    "pgen (descs h' ! p) = pgen (descs h ! p)" "kind (descs h' ! p) = kind (descs h ! p)"
    "n_span (descs h' ! p) = n_span (descs h ! p)" "words_used (descs h' ! p) = words_used (descs h ! p)"
proof -
  have "clear_pins (descs h' ! p) = clear_pins (descs h ! p)"
    using assms by (simp add: same_but_marks_pins_def)
  then show "pgen (descs h' ! p) = pgen (descs h ! p)" "kind (descs h' ! p) = kind (descs h ! p)"
    "n_span (descs h' ! p) = n_span (descs h ! p)" "words_used (descs h' ! p) = words_used (descs h ! p)"
    using clear_pins_fields by blast+
qed (use assms in \<open>cases h; cases h'; simp add: same_but_marks_pins_def\<close>)+

lemma run_head_cong:
  assumes "\<And>p. kind (ds' ! p) = kind (ds ! p) \<and> n_span (ds' ! p) = n_span (ds ! p)"
  shows "run_head ds' p = run_head ds p"
  by (induction p) (simp_all add: is_large_cont_def assms)

lemma same_but_marks_pins_cong:
  assumes "same_but_marks_pins h h'"
  shows "evac_gate L h' g w = evac_gate L h g w" "marked_payload L h' c = marked_payload L h c"
    "large_head_page h' p = large_head_page h p" "in_gen h' g c = in_gen h g c"
proof -
  note s = same_but_marks_pins_sel [OF assms]
  have e: "page_of h' = page_of h" "cell_index h' = cell_index h"
    using s by (simp_all add: fun_eq_iff page_of_def cell_index_def reserved_bytes_def)
  have l: "large_head_page h' p = large_head_page h p" for p
    using run_head_cong [of "descs h'" "descs h" p] s
    by (simp add: large_head_page_def desc_def is_large_head_def)
  show "large_head_page h' p = large_head_page h p" by (rule l)
  have d: "pgen (desc h' p) = pgen (desc h p)" "kind (desc h' p) = kind (desc h p)" for p
    using s by (simp_all add: desc_def)
  show "evac_gate L h' g w = evac_gate L h g w"
    unfolding evac_gate_def e l d s(4) ..
  show "marked_payload L h' c = marked_payload L h c"
    unfolding marked_payload_def d s(3,4) ..
  show "in_gen h' g c = in_gen h g c" using s by (simp add: in_gen_def)
qed

section \<open>One visit\<close>

lemma pins_fold_descs:
  "descs (fold (\<lambda>i h. desc_update h (p + i) (\<lambda>d. set_pin d 0)) is h) ! j =
     (if j < length (descs h) \<and> (\<exists>i \<in> set is. j = p + i) then set_pin (descs h ! j) 0 else descs h ! j)"
  "length (descs (fold (\<lambda>i h. desc_update h (p + i) (\<lambda>d. set_pin d 0)) is h)) = length (descs h)"
  "fold (\<lambda>i h. desc_update h (p + i) (\<lambda>d. set_pin d 0)) is h =
     h\<lparr>descs := descs (fold (\<lambda>i h. desc_update h (p + i) (\<lambda>d. set_pin d 0)) is h)\<rparr>"
proof (induction "is" arbitrary: h)
  case (Cons i "is")
  have idem: "set_pin (set_pin d 0) 0 = set_pin d 0" for d by (cases d) (simp add: set_pin_def)
  { case 1
    show ?case
      using Cons.IH(1) [of "desc_update h (p + i) (\<lambda>d. set_pin d 0)"]
      by (cases "j = p + i"; cases "j < length (descs h)")
        (auto simp: desc_update_def idem nth_list_update list_update_beyond) }
  { case 2 show ?case using Cons.IH(2) [of "desc_update h (p + i) (\<lambda>d. set_pin d 0)"] by (simp add: desc_update_def) }
  { case 3
    show ?case using Cons.IH(3) [of "desc_update h (p + i) (\<lambda>d. set_pin d 0)"]
      by (simp add: desc_update_def) }
qed simp_all

definition large_pinned :: "page_heap \<Rightarrow> nat \<Rightarrow> bool" where
  "large_pinned h p \<longleftrightarrow> p * PAGE_SIZE_CELLS \<in> set (pinned_cells h) \<and>
     (\<forall>i < unat (n_span (descs h ! p)). p + i < n_pages h \<longrightarrow> is_pinned (descs h ! (p + i)) 0)"

lemma pin_large_run_facts:
  shows "same_but_marks_pins h (pin_large_run h p)" "mark_bits (pin_large_run h p) = mark_bits h"
    "set (pinned_cells (pin_large_run h p)) = insert (p * PAGE_SIZE_CELLS) (set (pinned_cells h))"
    "is_pinned (descs h ! q) k \<Longrightarrow> is_pinned (descs (pin_large_run h p) ! q) k"
    "length (descs h) = n_pages h \<Longrightarrow> large_pinned (pin_large_run h p) p"
proof -
  define ps where "ps = [0..<unat (n_span (desc h p))]"
  let ?F = "fold (\<lambda>i h. desc_update h (p + i) (\<lambda>d. set_pin d 0)) ps h"
  note f = pins_fold_descs [of p ps h]
  have e: "pin_large_run h p = snd (insert_pinned ?F (p * PAGE_SIZE_CELLS))"
    by (simp add: pin_large_run_def ps_def)
  have sel: "mark_bits ?F = mark_bits h" "pinned_cells ?F = pinned_cells h" "n_pages ?F = n_pages h"
    by (subst f(3), simp)+
  have d: "descs (pin_large_run h p) = descs ?F" unfolding e by (simp add: insert_pinned_def)
  show m: "mark_bits (pin_large_run h p) = mark_bits h" unfolding e using sel by (simp add: insert_pinned_def)
  show pc: "set (pinned_cells (pin_large_run h p)) = insert (p * PAGE_SIZE_CELLS) (set (pinned_cells h))"
    unfolding e using sel by (auto simp: insert_pinned_def)
  have cp: "clear_pins (descs ?F ! q) = clear_pins (descs h ! q)" for q by (simp add: f(1))
  obtain ds where F: "?F = h\<lparr>descs := ds\<rparr>" using f(3) by metis
  have "pin_large_run h p =
      h\<lparr>descs := descs (pin_large_run h p), pinned_cells := pinned_cells (pin_large_run h p)\<rparr>"
    unfolding e F by (simp add: insert_pinned_def)
  then show "same_but_marks_pins h (pin_large_run h p)"
    using cp f(2) m by (simp add: same_but_marks_pins_def d)
  show "is_pinned (descs (pin_large_run h p) ! q) k" if "is_pinned (descs h ! q) k"
    using that by (auto simp: d f(1) is_pinned_set_pin)
  have n: "n_pages (pin_large_run h p) = n_pages h" unfolding e by (simp add: insert_pinned_def sel)
  show "large_pinned (pin_large_run h p) p" if "length (descs h) = n_pages h"
  proof -
    have "n_span (descs ?F ! p) = n_span (descs h ! p)" by (simp add: f(1))
    moreover have "i \<in> set ps" if "i < unat (n_span (descs h ! p))" for i
      using that by (simp add: ps_def desc_def)
    ultimately show ?thesis
      using that pc unfolding large_pinned_def d n by (auto simp: f(1) is_pinned_set_pin)
  qed
qed

lemma mark_visit_slot_cases:
  "mark_visit_slot L g w (h, q) =
     (case evac_gate L h g w of
        None \<Rightarrow> (h, q)
      | Some (c, large) \<Rightarrow>
          (let h' = h\<lparr>mark_bits := bit1_set (mark_bits h) c\<rparr> in
           if c \<in> marks h then (h', q)
           else (if large then pin_large_run h' (c div PAGE_SIZE_CELLS) else h', c # q)))"
  by (simp add: mark_visit_slot_def mark_cell_eq Let_def split: option.split)


lemma mark_visit_slot_same: "mark_visit_slot L g w (h, q) = (h', q') \<Longrightarrow> same_but_marks_pins h h'"
proof -
  have m: "same_but_marks_pins h (h\<lparr>mark_bits := b\<rparr>)" for b by (simp add: same_but_marks_pins_def)
  show "mark_visit_slot L g w (h, q) = (h', q') \<Longrightarrow> same_but_marks_pins h h'"
    using m same_but_marks_pins_trans [OF m pin_large_run_facts(1)]
    by (auto simp: mark_visit_slot_cases Let_def split: option.splits if_splits)
qed

lemma marks_pin_large_run [simp]: "marks (pin_large_run h p) = marks h"
  by (simp add: marks_def is_marked_def pin_large_run_facts(2))

lemma run_head_le: "run_head ds p \<le> p"
  by (induction p) auto

lemma large_head_page_le: "large_head_page h p \<le> p"
  by (simp add: large_head_page_def run_head_le)

lemma evac_gate_bound:
  assumes "evac_gate L h g w = Some (c, large)"
  shows "c < total_cells_of h"
proof -
  obtain a k where a: "pointer_target L w = Some (a, k)"
    using assms by (auto simp: evac_gate_def split: option.splits)
  obtain p where p: "page_of h a = Some p"
    using assms a by (auto simp: evac_gate_def split: option.splits)
  note b = page_of_bound [OF p] and c = page_of_cell_index [OF p]
  have "large_head_page h p * PAGE_SIZE_CELLS < n_pages h * PAGE_SIZE_CELLS"
    using large_head_page_le [of h p] b by (simp add: PAGE_SIZE_CELLS_num)
  then show ?thesis
    using assms a p c
    by (auto simp: evac_gate_def Let_def total_cells_of_def split: if_splits pointer_kind.splits bool.splits)
qed

abbreviation evac_target :: "heap_layout \<Rightarrow> generation \<Rightarrow> page_heap \<Rightarrow> u64 \<Rightarrow> nat option" where
  "evac_target L g h w \<equiv> map_option fst (evac_gate L h g w)"

interpretation evac_offers: offers marks "evac_target L g" "mark_visit_slot L g" cells total_cells_of
  for L g
proof unfold_locales
  fix w h q h' q' assume o: "mark_visit_slot L g w (h, q) = (h', q')"
  note s = mark_visit_slot_same [OF o]
  show "marks h' = marks h \<union> set_option (evac_target L g h w)"
    using o by (auto simp: mark_visit_slot_cases Let_def marks_update split: option.splits if_splits)
  show "q' = (case evac_target L g h w of None \<Rightarrow> q | Some c \<Rightarrow> if c \<in> marks h then q else c # q)"
    using o by (auto simp: mark_visit_slot_cases Let_def split: option.splits if_splits)
  show "evac_target L g h' = evac_target L g h \<and> cells h' = cells h \<and> total_cells_of h' = total_cells_of h"
    using same_but_marks_pins_cong(1) [OF s] same_but_marks_pins_sel [OF s]
    by (simp add: fun_eq_iff total_cells_of_def)
next
  fix h w c assume "evac_target L g h w = Some c"
  then show "c < total_cells_of h" using evac_gate_bound by fastforce
qed

section \<open>The drain loop\<close>

definition evac_succs :: "heap_layout \<Rightarrow> generation \<Rightarrow> page_heap \<Rightarrow> nat \<Rightarrow> nat set" where
  "evac_succs L g h c =
     (case marked_payload L h c of
        None \<Rightarrow> {}
      | Some cs \<Rightarrow> {d. \<exists>x \<in> set cs. evac_target L g h (cells h x) = Some d})"

lemma visit_slots_same: "fold (mark_visit_slot L g) ws (h, q) = (h', q') \<Longrightarrow> same_but_marks_pins h h'"
proof (induction ws arbitrary: h q)
  case (Cons w ws)
  obtain h1 q1 where o: "mark_visit_slot L g w (h, q) = (h1, q1)" by fastforce
  then show ?case
    using Cons same_but_marks_pins_trans [OF mark_visit_slot_same [OF o]] by simp
qed simp

lemma mark_scan_object_words:
  assumes "mark_scan_object L g c (h, q) = Some (h', q')"
  obtains cs where "marked_payload L h c = Some cs"
    "fold (mark_visit_slot L g) (map (cells h) cs) (h, q) = (h', q')"
  using assms evac_offers.offer_cells_words [of L g _ h q] by (auto simp: mark_scan_object_def)

lemma evac_scan_facts:
  assumes "mark_scan_object L g c (h, q) = Some (h', q')"
  shows "same_but_marks_pins h h'" "marks h' = marks h \<union> evac_succs L g h c"
    "set q' = set q \<union> (evac_succs L g h c - marks h)" "total_cells_of h' = total_cells_of h"
    "length q' + card ({..<total_cells_of h'} - marks h') \<le> length q + card ({..<total_cells_of h} - marks h)"
proof -
  obtain cs where cs: "marked_payload L h c = Some cs"
    and f: "fold (mark_visit_slot L g) (map (cells h) cs) (h, q) = (h', q')"
    using assms by (rule mark_scan_object_words)
  have s: "{d. \<exists>w \<in> set (map (cells h) cs). evac_target L g h w = Some d} = evac_succs L g h c"
    by (auto simp: evac_succs_def cs)
  show "same_but_marks_pins h h'" using f by (rule visit_slots_same)
  show "marks h' = marks h \<union> evac_succs L g h c"
    "set q' = set q \<union> (evac_succs L g h c - marks h)" "total_cells_of h' = total_cells_of h"
    "length q' + card ({..<total_cells_of h'} - marks h') \<le> length q + card ({..<total_cells_of h} - marks h)"
    using evac_offers.offer_words [OF f] unfolding s by blast+
qed

function mark_drain :: "heap_layout \<Rightarrow> generation \<Rightarrow> page_heap \<times> nat list \<Rightarrow> page_heap option" where
  "mark_drain L g (h, []) = Some h"
| "mark_drain L g (h, cell_idx # q) =
     (case mark_scan_object L g cell_idx (h, q) of
        None \<Rightarrow> None
      | Some st \<Rightarrow> mark_drain L g st)"
  by pat_completeness auto

termination mark_drain
proof (relation "measure (\<lambda>(L, g, h, q). length q + card ({..<total_cells_of h} - marks h))")
  fix L g h c q st
  assume st: "mark_scan_object L g c (h, q) = Some st"
  obtain h' q' where s: "st = (h', q')" by (cases st)
  show "((L, g, st), (L, g, h, c # q)) \<in>
      measure (\<lambda>(L, g, h, q). length q + card ({..<total_cells_of h} - marks h))"
    using evac_scan_facts(5) [OF st [unfolded s]] by (simp add: s)
qed simp


section \<open>What the pass marks and pins\<close>

text \<open>Large runs as the allocator leaves them: head and continuations in one generation.\<close>

definition large_runs_ok :: "page_heap \<Rightarrow> bool" where
  "large_runs_ok h \<longleftrightarrow>
     (\<forall>p < n_pages h. kind (descs h ! p) = Kind_Large \<longrightarrow>
        is_large_head (descs h ! large_head_page h p) \<and>
        pgen (descs h ! large_head_page h p) = pgen (descs h ! p) \<and>
        (\<forall>i < unat (n_span (descs h ! p)). p + i < n_pages h \<and>
           kind (descs h ! (p + i)) = Kind_Large \<and> pgen (descs h ! (p + i)) = pgen (descs h ! p)))"

lemma evac_succs_cong:
  assumes "same_but_marks_pins h h'"
  shows "evac_succs L g h' = evac_succs L g h"
  using same_but_marks_pins_cong(1,2) [OF assms] same_but_marks_pins_sel(3) [OF assms]
  by (simp add: fun_eq_iff evac_succs_def split: option.split)

interpretation evac_marker: tracer marks "evac_succs L g" "mark_scan_object L g" for L g
proof unfold_locales
  fix c s q s' q' assume a: "mark_scan_object L g c (s, q) = Some (s', q')"
  note f = evac_scan_facts [OF a]
  show "marks s' = marks s \<union> evac_succs L g s c" "set q' = set q \<union> (evac_succs L g s c - marks s)"
    by (fact f)+
  show "evac_succs L g s' = evac_succs L g s" by (rule evac_succs_cong [OF f(1)])
qed

lemma mark_drain_facts:
  assumes "mark_drain L g (h, q) = Some h'"
  shows "same_but_marks_pins h h'"
    "tracing (evac_succs L g h) M0 S (marks h) (set q) \<Longrightarrow> tracing (evac_succs L g h') M0 S (marks h') (set [])"
proof -
  have "same_but_marks_pins h h' \<and>
      (tracing (evac_succs L g h) M0 S (marks h) (set q) \<longrightarrow> tracing (evac_succs L g h') M0 S (marks h') (set []))"
    using assms
  proof (induction L g "(h, q)" arbitrary: h q rule: mark_drain.induct)
    case (2 L g h c q)
    obtain h1 q1 where s: "mark_scan_object L g c (h, q) = Some (h1, q1)" "mark_drain L g (h1, q1) = Some h'"
      using "2.prems" by (auto split: option.splits)
    show ?case
      using "2.hyps" [OF s] evac_marker.scan_keeps_tracing [of L g h M0 S c q h1 q1] s(1)
        same_but_marks_pins_trans [OF evac_scan_facts(1) [OF s(1)]] by blast
  qed simp
  then show "same_but_marks_pins h h'"
    "tracing (evac_succs L g h) M0 S (marks h) (set q) \<Longrightarrow> tracing (evac_succs L g h') M0 S (marks h') (set [])"
    by blast+
qed

lemma evac_target_in_gen:
  assumes "large_runs_ok h" "evac_gate L h g w = Some (c, large)"
  shows "in_gen h g c" "large \<longleftrightarrow> kind (descs h ! (c div PAGE_SIZE_CELLS)) = Kind_Large"
    "large \<Longrightarrow> c = c div PAGE_SIZE_CELLS * PAGE_SIZE_CELLS"
proof -
  obtain a k where a: "pointer_target L w = Some (a, k)"
    using assms by (auto simp: evac_gate_def split: option.splits)
  obtain p where p: "page_of h a = Some p"
    using assms a by (auto simp: evac_gate_def split: option.splits)
  note b = page_of_bound [OF p] and c = page_of_cell_index [OF p]
  have g: "pgen (descs h ! p) = g" using assms(2) a p by (auto simp: evac_gate_def desc_def split: if_splits)
  have l: "pgen (descs h ! large_head_page h p) = g" "kind (descs h ! large_head_page h p) = Kind_Large"
    if "kind (descs h ! p) = Kind_Large"
    using assms(1) b that g by (auto simp: large_runs_ok_def is_large_head_def)
  have "large_head_page h p < n_pages h" using large_head_page_le [of h p] b by simp
  then show "in_gen h g c" "large \<longleftrightarrow> kind (descs h ! (c div PAGE_SIZE_CELLS)) = Kind_Large"
    "large \<Longrightarrow> c = c div PAGE_SIZE_CELLS * PAGE_SIZE_CELLS"
    using assms(2) a p c b g l
    by (auto simp: evac_gate_def Let_def in_gen_def desc_def PAGE_SIZE_CELLS_num
        split: if_splits pointer_kind.splits bool.splits)
qed

text \<open>Every large object marked since the marks were \<open>M0\<close> is pinned.\<close>

definition larges_pinned :: "nat set \<Rightarrow> page_heap \<Rightarrow> bool" where
  "larges_pinned M0 h \<longleftrightarrow>
     (\<forall>c \<in> marks h - M0. kind (descs h ! (c div PAGE_SIZE_CELLS)) = Kind_Large \<longrightarrow>
        large_pinned h (c div PAGE_SIZE_CELLS))"

lemma large_runs_ok_cong: "same_but_marks_pins h h' \<Longrightarrow> large_runs_ok h' = large_runs_ok h"
  using same_but_marks_pins_sel [of h h'] same_but_marks_pins_cong(3) [of h h']
  by (simp add: large_runs_ok_def is_large_head_def)

lemma larges_pinned_visit:
  assumes "mark_visit_slot L g w (h, q) = (h', q')" "large_runs_ok h" "length (descs h) = n_pages h"
    "larges_pinned M0 h"
  shows "larges_pinned M0 h'"
proof (cases "\<exists>c large. evac_gate L h g w = Some (c, large) \<and> c \<notin> marks h")
  case False
  then have "marks h' = marks h \<and> descs h' = descs h \<and> pinned_cells h' = pinned_cells h \<and> n_pages h' = n_pages h"
    using assms(1) marks_update [of h]
    by (auto simp: mark_visit_slot_cases Let_def split: option.splits if_splits)
  then show ?thesis using assms(4) by (simp add: larges_pinned_def large_pinned_def)
next
  case True
  then obtain c large where c: "evac_gate L h g w = Some (c, large)" "c \<notin> marks h" by blast
  let ?h1 = "h\<lparr>mark_bits := bit1_set (mark_bits h) c\<rparr>"
  have p1: "large_pinned ?h1 p = large_pinned h p" for p by (simp add: large_pinned_def)
  note t = evac_target_in_gen [OF assms(2) c(1)]
  have h': "h' = (if large then pin_large_run ?h1 (c div PAGE_SIZE_CELLS) else ?h1)"
    using assms(1) c by (simp add: mark_visit_slot_cases Let_def)
  have m: "marks h' = insert c (marks h)" by (simp add: h' marks_update)
  note f = pin_large_run_facts [where h = ?h1 and p = "c div PAGE_SIZE_CELLS"]
  note s = same_but_marks_pins_sel [OF f(1)]
  have keep: "large_pinned h' p" if "large_pinned h p" for p
    using that f(3,4) s unfolding h' by (auto simp: large_pinned_def)
  have new: "large_pinned h' (c div PAGE_SIZE_CELLS)" if large
    using that f(5) assms(3) by (simp add: h')
  have k: "kind (descs h' ! p) = kind (descs h ! p)" for p
    using same_but_marks_pins_sel(7) [OF mark_visit_slot_same [OF assms(1)]] .
  show ?thesis
    using keep new assms(4) t(2) unfolding larges_pinned_def m k by blast
qed

lemma larges_pinned_visits:
  assumes "fold (mark_visit_slot L g) ws (h, q) = (h', q')" "large_runs_ok h" "length (descs h) = n_pages h"
    "larges_pinned M0 h"
  shows "larges_pinned M0 h'"
  using assms
proof (induction ws arbitrary: h q)
  case (Cons w ws)
  obtain h1 q1 where o: "mark_visit_slot L g w (h, q) = (h1, q1)" by fastforce
  note s = mark_visit_slot_same [OF o]
  show ?case
    by (rule Cons.IH [of h1 q1])
      (use Cons.prems o s larges_pinned_visit [OF o] large_runs_ok_cong [OF s] same_but_marks_pins_sel [OF s] in simp_all)
qed simp

lemma larges_pinned_drain:
  assumes "mark_drain L g (h, q) = Some h'" "large_runs_ok h" "length (descs h) = n_pages h"
    "larges_pinned M0 h"
  shows "larges_pinned M0 h'"
  using assms
proof (induction L g "(h, q)" arbitrary: h q rule: mark_drain.induct)
  case (2 L g h c q)
  obtain h1 q1 where s: "mark_scan_object L g c (h, q) = Some (h1, q1)" "mark_drain L g (h1, q1) = Some h'"
    using "2.prems" by (auto split: option.splits)
  note f = evac_scan_facts(1) [OF s(1)]
  obtain cs where "fold (mark_visit_slot L g) (map (cells h) cs) (h, q) = (h1, q1)"
    using mark_scan_object_words [OF s(1)] by metis
  then have "larges_pinned M0 h1" using larges_pinned_visits "2.prems"(2-4) by blast
  then show ?case
    using "2.hyps" [OF s] "2.prems" large_runs_ok_cong [OF f] same_but_marks_pins_sel [OF f] by simp
qed simp

text \<open>Marks at the start of the pass, and what the roots seed.\<close>

definition evac_roots :: "heap_layout \<Rightarrow> generation \<Rightarrow> page_heap \<Rightarrow> u64 list \<Rightarrow> nat set" where
  "evac_roots L g h ws = {d. \<exists>w \<in> set ws. evac_target L g h w = Some d}"

lemma finite_evac_roots [simp]: "finite (evac_roots L g h ws)"
proof -
  have "evac_roots L g h ws \<subseteq> (\<lambda>w. the (evac_target L g h w)) ` set ws"
    by (force simp: evac_roots_def image_iff)
  then show ?thesis by (rule finite_subset) simp
qed

lemma evac_reach_in_gen:
  assumes "large_runs_ok h" "reaches (evac_succs L g h) (evac_roots L g h ws) c"
  shows "in_gen h g c"
  using assms(2) evac_target_in_gen(1) [OF assms(1)]
  by (cases rule: reaches.cases) (auto simp: evac_roots_def evac_succs_def split: option.splits)

text \<open>
  C15. The evacuator's own mark pass, run from a list of roots after the generation's marks are
  cleared, marks exactly the objects of the generation that are reachable from the roots; marks
  of other generations, cells, start bits and every descriptor field but the pin byte are
  unchanged; and every large object it marks has all the pages of its run pinned and its head
  cell in the pin set, so the reclaim phase keeps it.
\<close>

theorem evac_marks_reachable:
  assumes "length (descs h) = n_pages h" "large_runs_ok h"
    "mark_drain L g (fold (mark_visit_slot L g) roots (clear_mark_bits_in_gen h g, [])) = Some h'"
  shows "same_but_marks_pins h h' \<and>
    (\<forall>c. is_marked h' c \<longleftrightarrow>
       (if in_gen h g c then reaches (evac_succs L g h) (evac_roots L g h roots) c else is_marked h c)) \<and>
    (\<forall>p < n_pages h. pgen (descs h ! p) = g \<and> is_large_head (descs h ! p) \<and>
       is_marked h' (p * PAGE_SIZE_CELLS) \<longrightarrow> large_pinned h' p)"
proof -
  let ?h0 = "clear_mark_bits_in_gen h g" and ?R = "evac_roots L g h roots"
  obtain h1 q1 where v: "fold (mark_visit_slot L g) roots (?h0, []) = (h1, q1)" by fastforce
  have d: "mark_drain L g (h1, q1) = Some h'" using assms(3) v by simp
  have s0: "same_but_marks_pins h ?h0"
    using clear_marks_facts(1) [OF assms(1), of g]
    by (cases h) (simp add: same_but_marks_pins_def clear_mark_bits_in_gen_def)
  have m0: "marks ?h0 = {c \<in> marks h. \<not> in_gen h g c}" using clear_marks_facts(2) [OF assms(1)] by auto
  note o = evac_offers.offer_words [OF v]
  have R0: "{d. \<exists>w \<in> set roots. evac_target L g ?h0 w = Some d} = ?R"
    by (simp add: evac_roots_def same_but_marks_pins_cong(1) [OF s0])
  note s1 = visit_slots_same [OF v]
  have su: "evac_succs L g h1 = evac_succs L g h" "evac_succs L g h' = evac_succs L g h"
    using evac_succs_cong [OF s0] evac_succs_cong [OF s1] evac_succs_cong [OF mark_drain_facts(1) [OF d]] by simp_all
  have "tracing (evac_succs L g h) (marks ?h0) ({} \<union> ?R) (marks ?h0 \<union> ?R) ({} \<union> (?R - marks ?h0))"
    by (rule tracing_seeds [OF tracing_start]) simp
  then have "tracing (evac_succs L g h1) (marks ?h0) ?R (marks h1) (set q1)"
    using o(1,2) R0 by (simp add: su)
  then have t: "tracing (evac_succs L g h) (marks ?h0) ?R (marks h') {}"
    using mark_drain_facts(2) [OF d] su by simp
  have "marks h' = marks ?h0 \<union> {c. reaches (evac_succs L g h) ?R c}"
    by (rule tracing_done_apart [OF t]) (use evac_reach_in_gen [OF assms(2)] m0 in blast)
  then have m: "is_marked h' c \<longleftrightarrow>
      (if in_gen h g c then reaches (evac_succs L g h) ?R c else is_marked h c)" for c
    using m0 evac_reach_in_gen [OF assms(2)] by (auto simp: marks_def set_eq_iff)
  have s: "same_but_marks_pins h h'"
    using same_but_marks_pins_trans [OF same_but_marks_pins_trans [OF s0 s1] mark_drain_facts(1) [OF d]] .
  have l0: "large_runs_ok ?h0" "length (descs ?h0) = n_pages ?h0"
    using large_runs_ok_cong [OF s0] assms(1,2) same_but_marks_pins_sel [OF s0] by simp_all
  have "larges_pinned (marks ?h0) h1"
    by (rule larges_pinned_visits [OF v l0]) (simp add: larges_pinned_def)
  then have p: "larges_pinned (marks ?h0) h'"
    using larges_pinned_drain [OF d] large_runs_ok_cong [OF s1] l0 same_but_marks_pins_sel [OF s1] by simp
  have "large_pinned h' p" if "p < n_pages h" "pgen (descs h ! p) = g" "is_large_head (descs h ! p)"
    "is_marked h' (p * PAGE_SIZE_CELLS)" for p
  proof -
    have c: "p * PAGE_SIZE_CELLS div PAGE_SIZE_CELLS = p" by (simp add: PAGE_SIZE_CELLS_num)
    then have "p * PAGE_SIZE_CELLS \<in> marks h' - marks ?h0"
      using that m0 by (simp add: marks_def in_gen_def)
    then have "kind (descs h' ! p) = Kind_Large \<longrightarrow> large_pinned h' p"
      using p c unfolding larges_pinned_def by metis
    then show ?thesis
      using that(3) same_but_marks_pins_sel(7) [OF s] by (simp add: is_large_head_def)
  qed
  then show ?thesis using s m by blast
qed

lemma long_string_runs: "large_runs_ok long_string_heap"
proof -
  have n: "p < n_pages long_string_heap \<longleftrightarrow> p = 0 \<or> p = 1" for p by (auto simp: long_string_sel)
  have l: "large_head_page long_string_heap p = 0" if "p = 0 \<or> p = 1" for p
    using that by (auto simp: large_head_page_def desc_def long_string_sel is_large_head_def is_large_cont_def
        large_desc_def Let_def desc_fresh_def)
  have "n_span (descs long_string_heap ! 0) = 2" "n_span (descs long_string_heap ! 1) = 0"
    by (simp_all add: long_string_sel large_desc_def Let_def desc_fresh_def)
  then show ?thesis
    unfolding large_runs_ok_def n
    by (auto simp: l long_string_sel is_large_head_def less_2_cases_iff large_desc_def Let_def desc_fresh_def)
qed

lemma long_string_evac_marked:
  "\<exists>h'. mark_drain lisp_layout G0 (fold (mark_visit_slot lisp_layout G0) [lisp_make_pointer 65536 PK_Header]
     (clear_mark_bits_in_gen long_string_heap G0, [])) = Some h' \<and> is_marked h' 0"
proof -
  let ?w = "lisp_make_pointer 65536 PK_Header" and ?h0 = "clear_mark_bits_in_gen long_string_heap G0"
  have s0: "same_but_marks_pins long_string_heap ?h0"
    by (simp add: clear_mark_bits_in_gen_def same_but_marks_pins_def)
  have "lisp_classify (lisp_make_pointer 65536 PK_Header) = PointerHeader 65536"
    using lisp.classify_pointer [of 65536 PK_Header] by simp
  moreover have "page_of long_string_heap 65536 = Some 0"
    by (simp add: page_of_def long_string_sel reserved_bytes_def Let_def PAGE_SIZE_BYTES_def)
  ultimately have "evac_gate lisp_layout long_string_heap G0 ?w = Some (0, True)"
    by (simp add: evac_gate_def pointer_target_def desc_def long_string_sel large_head_page_def
        is_large_head_def large_desc_def Let_def desc_fresh_def)
  then have g: "evac_gate lisp_layout ?h0 G0 ?w = Some (0, True)"
    using same_but_marks_pins_cong(1) [OF s0] by simp
  obtain h1 q1 where v: "mark_visit_slot lisp_layout G0 ?w (?h0, []) = (h1, q1)" by fastforce
  note f = evac_offers.offer_marks [OF v] evac_offers.offer_queue [OF v]
  have "0 \<notin> marks ?h0"
    by (auto simp: clear_mark_bits_in_gen_def marks_def is_marked_def mark_map.test_clear_list)
      (simp add: long_string_heap_def bit1_test_bit)
  then have q: "q1 = [0]" "0 \<in> marks h1" using f g by simp_all
  have "marked_payload lisp_layout h1 0 = Some []"
    using same_but_marks_pins_cong(2) [OF same_but_marks_pins_trans [OF s0 mark_visit_slot_same [OF v]]]
      long_string_payload by simp
  then have "mark_drain lisp_layout G0 (h1, q1) = Some h1" by (simp add: q mark_scan_object_def)
  then show ?thesis using v q by (auto simp: marks_def)
qed

theorem evac_marks_reachable_witness:
  "\<exists>h'. mark_drain lisp_layout G0 (fold (mark_visit_slot lisp_layout G0) [lisp_make_pointer 65536 PK_Header]
     (clear_mark_bits_in_gen long_string_heap G0, [])) = Some h' \<and> large_pinned h' 0"
proof -
  obtain h' where h': "mark_drain lisp_layout G0 (fold (mark_visit_slot lisp_layout G0)
      [lisp_make_pointer 65536 PK_Header] (clear_mark_bits_in_gen long_string_heap G0, [])) = Some h'"
    "is_marked h' 0"
    using long_string_evac_marked by blast
  have len: "length (descs long_string_heap) = n_pages long_string_heap" by (simp add: long_string_sel)
  have p: "0 < n_pages long_string_heap" "pgen (descs long_string_heap ! 0) = G0"
    "is_large_head (descs long_string_heap ! 0)" "is_marked h' (0 * PAGE_SIZE_CELLS)"
    using h'(2) by (simp_all add: long_string_sel is_large_head_def large_desc_def Let_def desc_fresh_def)
  have "large_pinned h' 0"
    using evac_marks_reachable [OF len long_string_runs h'(1)] p by blast
  then show ?thesis using h'(1) by blast
qed

end
