(* ===== verification/Allocator.thy ===== *)
theory Allocator
  imports Alloc Trigger
begin

text \<open>
  The mutator's slab path of \<^verbatim>\<open>page_heap/coordinator_api.rs\<close>, and the contract of every
  allocation path together: the locale \<open>allocator\<close> says what an allocation promises
  (the invariant is kept, a granted block was not in use, nothing in use changes), proves once
  what a sequence of allocations then gives (pairwise disjoint blocks), and is interpreted on
  all of the code's entry points at once, so that any interleaving of them is covered.
\<close>

section \<open>Slabs\<close>

definition gc_free_page_reserve_for_mutator_slab :: "page_heap \<Rightarrow> nat" where
  "gc_free_page_reserve_for_mutator_slab h =
     (if n_pages h \<le> 1 then 0 else min (div_ceil (n_pages h) 4) (n_pages h - 1))"

definition used_bytes :: "page_heap \<Rightarrow> nat" where
  "used_bytes h =
     sum_list (map (\<lambda>d. unat (words_used d) * 8) (filter (\<lambda>d. pgen d \<noteq> Gen_Free) (descs h)))"

definition try_bump_g0_mixed :: "page_heap \<Rightarrow> nat \<Rightarrow> (u64 option \<times> page_heap) option" where
  "try_bump_g0_mixed h len =
     (case alloc_region h G0 Kind_Boxed of
        None \<Rightarrow> None
      | Some r \<Rightarrow>
          (case current_page r of
             None \<Rightarrow> Some (None, h)
           | Some page_idx \<Rightarrow>
               if offset r + len > PAGE_SIZE_CELLS then Some (None, h)
               else
                 (let off = offset r in
                  case page_ptr h page_idx of
                    None \<Rightarrow> None
                  | Some page_base \<Rightarrow>
                      (let ptr = page_base + of_nat (8 * off);
                           h = alloc_region_update h G0 Kind_Boxed (\<lambda>r. r\<lparr>offset := offset r + len\<rparr>);
                           h = desc_update h page_idx
                                 (\<lambda>d. d\<lparr>words_used := saturating_add (words_used d) (of_nat len)\<rparr>);
                           h = charge_bytes h len
                       in Some (Some ptr, h)))))"

definition try_alloc_g0_cons_slab :: "page_heap \<Rightarrow> nat \<Rightarrow> (u64 option \<times> page_heap) option" where
  "try_alloc_g0_cons_slab h n =
     (let len = min n PAGE_SIZE_CELLS in
      case try_bump_g0_mixed h len of
        None \<Rightarrow> None
      | Some (Some p, h) \<Rightarrow> Some (Some p, h)
      | Some (None, h) \<Rightarrow>
          if count_pages_in_gen h Gen_Free \<le> gc_free_page_reserve_for_mutator_slab h then Some (None, h)
          else if count_pages_in_gen h G0 \<ge> young_page_cap h then Some (None, h)
          else (case acquire_free_page h G0 Kind_Boxed of
                  (None, h) \<Rightarrow> Some (None, h)
                | (Some new_page, h) \<Rightarrow>
                    try_bump_g0_mixed (open_region_on h G0 Kind_Boxed new_page) len))"

definition try_alloc_g0_slab :: "page_heap \<Rightarrow> nat \<Rightarrow> ((u64 \<times> nat) option \<times> page_heap) option" where
  "try_alloc_g0_slab h n =
     (if n = 0 then Some (None, h)
      else
        (let granted = min n PAGE_SIZE_CELLS in
         map_option (\<lambda>(r, h). (map_option (\<lambda>slab. (slab, granted)) r, h)) (try_alloc_g0_cons_slab h n)))"

section \<open>The contract\<close>

text \<open>
  Allocation requests in sequence; each entry of the log is the cell and length of a granted
  block. \<open>None\<close> is a panic.
\<close>

fun alloc_run ::
  "('r \<Rightarrow> page_heap \<Rightarrow> ((u64 \<times> nat) option \<times> page_heap) option) \<Rightarrow> 'r list \<Rightarrow> page_heap \<Rightarrow>
     ((nat \<times> nat) list \<times> page_heap) option" where
  "alloc_run alloc [] h = Some ([], h)"
| "alloc_run alloc (r # rs) h =
     (case alloc r h of
        None \<Rightarrow> None
      | Some (res, h1) \<Rightarrow>
          (case alloc_run alloc rs h1 of
             None \<Rightarrow> None
           | Some (log, h2) \<Rightarrow>
               Some ((case res of None \<Rightarrow> log | Some (a, n) \<Rightarrow> (cell_index h a, n) # log), h2)))"

fun disjoint_blocks :: "(nat \<times> nat) list \<Rightarrow> bool" where
  "disjoint_blocks [] = True"
| "disjoint_blocks ((c, n) # bs) =
     ((\<forall>(d, m) \<in> set bs. c + n \<le> d \<or> d + m \<le> c) \<and> disjoint_blocks bs)"

locale allocator =
  fixes alloc :: "'r \<Rightarrow> page_heap \<Rightarrow> ((u64 \<times> nat) option \<times> page_heap) option"
    and valid :: "'r \<Rightarrow> bool"
  assumes keeps: "alloc_ok h \<Longrightarrow> valid r \<Longrightarrow> alloc r h = Some (res, h') \<Longrightarrow> alloc_ok h' \<and> extends h h'"
    and grant: "alloc_ok h \<Longrightarrow> valid r \<Longrightarrow> alloc r h = Some (Some (a, n), h') \<Longrightarrow>
      \<exists>c. a = cell_addr h c \<and> 0 < n \<and> grants h h' c n"
begin

lemma run_keeps:
  assumes "alloc_ok h" "\<forall>r \<in> set rs. valid r" "alloc_run alloc rs h = Some (log, h')"
  shows "alloc_ok h' \<and> extends h h'"
  using assms
proof (induction rs arbitrary: h log)
  case (Cons r rs)
  then obtain res h1 log1 where "alloc r h = Some (res, h1)" "alloc_run alloc rs h1 = Some (log1, h')"
    by (auto split: option.splits prod.splits)
  then show ?case
    using keeps [of h r res h1] Cons.IH [of h1 log1] Cons.prems extends_trans by auto
qed simp

text \<open>Blocks granted later lie outside everything in use before and inside what is in use after.\<close>

lemma run_blocks:
  assumes "alloc_ok h" "\<forall>r \<in> set rs. valid r" "alloc_run alloc rs h = Some (log, h')"
  shows "disjoint_blocks log \<and>
    (\<forall>(c, n) \<in> set log. 0 < n \<and> c + n \<le> total_cells_of h \<and>
       (\<forall>x. c \<le> x \<and> x < c + n \<longrightarrow> \<not> cell_used h x \<and> cell_used h' x))"
  using assms
proof (induction rs arbitrary: h log)
  case (Cons r rs)
  then obtain res h1 log1 where a: "alloc r h = Some (res, h1)"
    and run: "alloc_run alloc rs h1 = Some (log1, h')"
    and log: "log = (case res of None \<Rightarrow> log1 | Some (a, n) \<Rightarrow> (cell_index h a, n) # log1)"
    by (auto split: option.splits prod.splits)
  have ok1: "alloc_ok h1" "extends h h1" using keeps [OF Cons.prems(1) _ a] Cons.prems(2) by auto
  have ext: "extends h1 h'" using run_keeps [OF ok1(1) _ run] Cons.prems(2) by simp
  have IH: "disjoint_blocks log1" "\<forall>(c, n) \<in> set log1. 0 < n \<and> c + n \<le> total_cells_of h1 \<and>
       (\<forall>x. c \<le> x \<and> x < c + n \<longrightarrow> \<not> cell_used h1 x \<and> cell_used h' x)"
    using Cons.IH [OF ok1(1) _ run] Cons.prems(2) by auto
  have tot: "total_cells_of h1 = total_cells_of h" using ok1(2) by (simp add: extends_def total_cells_of_def)
  have later: "\<forall>(c, n) \<in> set log1. 0 < n \<and> c + n \<le> total_cells_of h \<and>
       (\<forall>x. c \<le> x \<and> x < c + n \<longrightarrow> \<not> cell_used h x \<and> cell_used h' x)"
  proof (rule ballI, clarify, intro conjI)
    fix d m assume "(d, m) \<in> set log1"
    then have *: "0 < m" "d + m \<le> total_cells_of h"
        "\<And>x. d \<le> x \<Longrightarrow> x < d + m \<Longrightarrow> \<not> cell_used h1 x \<and> cell_used h' x"
      using IH(2) tot by auto
    have "\<not> cell_used h x" if "\<not> cell_used h1 x" for x using that ok1(2) by (auto simp: extends_def)
    then show "0 < m" "d + m \<le> total_cells_of h"
      "\<forall>x. d \<le> x \<and> x < d + m \<longrightarrow> \<not> cell_used h x \<and> cell_used h' x"
      using * by auto
  qed
  show ?case
  proof (cases res)
    case None
    then show ?thesis using log IH(1) later by simp
  next
    case (Some b)
    then obtain a n where b: "res = Some (a, n)" by (cases b) simp
    then obtain c where c: "a = cell_addr h c" "0 < n" "grants h h1 c n"
      using grant [OF Cons.prems(1) _ a [unfolded b]] Cons.prems(2) by auto
    have cb: "c + n \<le> total_cells_of h" using c(3) by (simp add: grants_def)
    then have ci: "cell_index h a = c"
      using c(1,2) alloc_okD(1) [OF Cons.prems(1)] by simp
    have sep: "c + n \<le> d \<or> d + m \<le> c" if "(d, m) \<in> set log1" for d m
    proof (rule ccontr)
      assume "\<not> (c + n \<le> d \<or> d + m \<le> c)"
      then have "max c d < c + n \<and> c \<le> max c d" "d \<le> max c d \<and> max c d < d + m"
        using c(2) IH(2) that by auto
      then obtain x where x: "c \<le> x" "x < c + n" "d \<le> x" "x < d + m" by blast
      then have "\<not> cell_used h1 x" using IH(2) that by auto
      moreover have "cell_used h1 x" using c(3) x by (simp add: grants_def)
      ultimately show False by simp
    qed
    have "\<not> cell_used h x \<and> cell_used h' x" if "c \<le> x \<and> x < c + n" for x
      using c(3) ext that by (simp add: grants_def extends_def)
    then show ?thesis
      using log b ci IH(1) sep later c(2) cb by (auto simp del: split_paired_All)
  qed
qed simp

end

section \<open>The slab path keeps the contract\<close>

lemma bump_g0_eval:
  assumes ok: "alloc_ok h" and r: "alloc_region h G0 Kind_Boxed = Some r"
  shows "try_bump_g0_mixed h n =
    (case current_page r of
       None \<Rightarrow> Some (None, h)
     | Some p \<Rightarrow>
         if offset r + n > PAGE_SIZE_CELLS then Some (None, h)
         else Some (Some (cell_addr h (p * PAGE_SIZE_CELLS + offset r)),
           charge_bytes (bump_words h G0 Kind_Boxed p n) n))"
proof (cases "current_page r")
  case None
  then show ?thesis using r by (simp add: try_bump_g0_mixed_def)
next
  case (Some p)
  then have p: "p < n_pages h" using alloc_okD(3) [OF ok, of G0 Kind_Boxed] r by (auto simp: region_ok_def)
  obtain b where b: "page_ptr h p = Some b"
      "b + of_nat (8 * offset r) = cell_addr h (p * PAGE_SIZE_CELLS + offset r)"
    using page_ptr_add_cells [OF p] by blast
  show ?thesis
    unfolding try_bump_g0_mixed_def r Some option.case b(1) Let_def b(2) bump_words_def [symmetric] ..
qed

lemma bump_g0_grants:
  assumes ok: "alloc_ok h" and r: "alloc_region h G0 Kind_Boxed = Some r"
    and b: "try_bump_g0_mixed h n = Some (Some a, h')"
  shows "alloc_ok h' \<and> (\<exists>c. a = cell_addr h c \<and> grants h h' c n)"
proof -
  note ev = bump_g0_eval [OF ok r, of n, unfolded b]
  obtain p where p: "current_page r = Some p" and fit: "offset r + n \<le> PAGE_SIZE_CELLS"
    using ev by (auto split: option.splits if_splits)
  note bw = bump_words_facts [OF ok r p fit]
  have "a = cell_addr h (p * PAGE_SIZE_CELLS + offset r)" "h' = charge_bytes (bump_words h G0 Kind_Boxed p n) n"
    using ev p fit by simp_all
  then show ?thesis
    using bw(1-4) by (intro conjI exI [of _ "p * PAGE_SIZE_CELLS + offset r"]) (simp_all add: grants_def)
qed

lemma bump_g0_none:
  assumes ok: "alloc_ok h" and b: "try_bump_g0_mixed h n = Some (None, h')"
  shows "h' = h"
proof -
  obtain r where r: "alloc_region h G0 Kind_Boxed = Some r"
    by (simp add: alloc_region_def)
  show ?thesis
    using b bump_g0_eval [OF ok r, of n] by (auto split: option.splits if_splits)
qed

lemma g0_cons_slab_ok:
  assumes ok: "alloc_ok h" and t: "try_alloc_g0_cons_slab h n = Some (res, h')"
  shows "alloc_ok h' \<and> (case res of None \<Rightarrow> same_used h h'
    | Some a \<Rightarrow> \<exists>c. a = cell_addr h c \<and> grants h h' c (min n PAGE_SIZE_CELLS))"
proof -
  let ?n = "min n PAGE_SIZE_CELLS"
  obtain r where r: "alloc_region h G0 Kind_Boxed = Some r" by (simp add: alloc_region_def)
  obtain b h1 where b: "try_bump_g0_mixed h ?n = Some (b, h1)"
    using t by (auto simp: try_alloc_g0_cons_slab_def Let_def split: option.splits)
  show ?thesis
  proof (cases b)
    case (Some a)
    then have "res = Some a" "h' = h1" using t b by (simp_all add: try_alloc_g0_cons_slab_def)
    then show ?thesis using bump_g0_grants [OF ok r] b Some by simp
  next
    case None
    then have h1: "h1 = h" using bump_g0_none [OF ok] b by simp
    obtain ar h2 where a: "acquire_free_page h G0 Kind_Boxed = (ar, h2)" by fastforce
    have eq: "Some (res, h') =
        (if count_pages_in_gen h Gen_Free \<le> gc_free_page_reserve_for_mutator_slab h \<or>
            count_pages_in_gen h G0 \<ge> young_page_cap h then Some (None, h)
         else case ar of None \<Rightarrow> Some (None, h2)
           | Some idx \<Rightarrow> try_bump_g0_mixed (open_region_on h2 G0 Kind_Boxed idx) ?n)"
      unfolding t [symmetric] try_alloc_g0_cons_slab_def Let_def b None h1 option.case prod.case a by simp
    show ?thesis
    proof (cases "res = None \<and> h' = h")
      case True
      then show ?thesis using ok by simp
    next
      case False
      show ?thesis
      proof (cases ar)
        case None
        then have "acquire_free_page h G0 Kind_Boxed = (None, h2)" "res = None" "h' = h2"
          using eq False a by (auto split: if_splits)
        then show ?thesis
          using acquire_none_ok [OF ok] acquire_same_used [OF ok] by auto
      next
        case (Some idx)
        then have a': "acquire_free_page h G0 Kind_Boxed = (Some idx, h2)" using a by simp
        note o = acquire_then_open_ok [OF ok r a']
        have b2: "try_bump_g0_mixed (open_region_on h2 G0 Kind_Boxed idx) ?n = Some (res, h')"
          using eq False Some by (auto split: if_splits)
        show ?thesis
        proof (cases res)
          case None
          then have "h' = open_region_on h2 G0 Kind_Boxed idx" using bump_g0_none [OF o(1)] b2 by simp
          then show ?thesis using o None by simp
        next
          case (Some a)
          have base: "base_ptr (open_region_on h2 G0 Kind_Boxed idx) = base_ptr h"
            using o(3) by (simp add: same_used_def)
          obtain c where "a = cell_addr (open_region_on h2 G0 Kind_Boxed idx) c" "alloc_ok h'"
              "grants (open_region_on h2 G0 Kind_Boxed idx) h' c ?n"
            using bump_g0_grants [OF o(1,2)] b2 Some by blast
          then show ?thesis
            using Some grants_after [OF o(3)] cell_addr_same [OF base] by auto
        qed
      qed
    qed
  qed
qed

section \<open>The slab path and the poisoned flag\<close>

text \<open>
  Unlike the other entry points the slab path does not look at the flag: it answers the same, with
  the same effect, whatever its value.
\<close>

definition with_poisoned :: "bool \<Rightarrow> 'a \<times> page_heap \<Rightarrow> 'a \<times> page_heap" where
  "with_poisoned b = (\<lambda>(r, h). (r, h\<lparr>poisoned := b\<rparr>))"

lemma alloc_region_poisoned: "alloc_region (h\<lparr>poisoned := b\<rparr>) g k = alloc_region h g k"
  by (simp add: alloc_region_def)

lemma page_ptr_poisoned: "page_ptr (h\<lparr>poisoned := b\<rparr>) p = page_ptr h p"
  by (simp add: page_ptr_def)

lemma bump_mixed_poisoned: "try_bump_g0_mixed (h\<lparr>poisoned := b\<rparr>) n = map_option (with_poisoned b) (try_bump_g0_mixed h n)"
  by (auto simp: try_bump_g0_mixed_def alloc_region_poisoned page_ptr_poisoned with_poisoned_def Let_def alloc_region_update_def
      desc_update_def desc_def charge_bytes_def split: option.split)

lemma commit_poisoned: "commit_page (h\<lparr>poisoned := b\<rparr>) i = with_poisoned b (commit_page h i)"
  by (simp add: commit_page_def os_call_def is_committed_def with_poisoned_def Let_def split: prod.split)

lemma acquire_poisoned: "acquire_free_page (h\<lparr>poisoned := b\<rparr>) g k = with_poisoned b (acquire_free_page h g k)"
proof -
  obtain found rest where pop: "pop_free_page (descs h) (free_page_list h) = (found, rest)" by fastforce
  have scan: "scan_free_page (h\<lparr>poisoned := b, free_page_list := rest\<rparr>) = scan_free_page (h\<lparr>free_page_list := rest\<rparr>)"
    by (simp add: scan_free_page_def desc_def)
  have hw: "raise_high_water (h\<lparr>poisoned := b, free_page_list := rest\<rparr>) i =
      (raise_high_water (h\<lparr>free_page_list := rest\<rparr>) i)\<lparr>poisoned := b\<rparr>" for i
    by (simp add: raise_high_water_def)
  show ?thesis
  proof (cases "case found of None \<Rightarrow> scan_free_page (h\<lparr>free_page_list := rest\<rparr>) | Some i \<Rightarrow> Some i")
    case None
    then show ?thesis by (cases found) (simp_all add: acquire_free_page_def pop scan with_poisoned_def Let_def)
  next
    case (Some i)
    obtain r h2 where c: "commit_page (raise_high_water (h\<lparr>free_page_list := rest\<rparr>) (i + 1)) i = (r, h2)" by fastforce
    have c': "commit_page (raise_high_water (h\<lparr>poisoned := b, free_page_list := rest\<rparr>) (i + 1)) i = (r, h2\<lparr>poisoned := b\<rparr>)"
      using commit_poisoned [of b "raise_high_water (h\<lparr>free_page_list := rest\<rparr>) (i + 1)" i] c
      unfolding hw by (simp add: with_poisoned_def)
    show ?thesis
      using Some c c' unfolding acquire_free_page_def Let_def
      by (cases found; cases r) (simp_all add: pop scan with_poisoned_def desc_update_def desc_def zero_page_cells_def)
  qed
qed

lemma slab_poisoned: "try_alloc_g0_slab (h\<lparr>poisoned := b\<rparr>) n = map_option (with_poisoned b) (try_alloc_g0_slab h n)"
proof -
  have c: "count_pages_in_gen (h\<lparr>poisoned := b\<rparr>) g = count_pages_in_gen h g" for h g
    by (simp add: count_pages_in_gen_def)
  have o: "open_region_on (h\<lparr>poisoned := b\<rparr>) g k p = (open_region_on h g k p)\<lparr>poisoned := b\<rparr>" for h g k p
    by (simp add: open_region_on_def alloc_region_update_def split: option.split)
  have "try_alloc_g0_cons_slab (h\<lparr>poisoned := b\<rparr>) n = map_option (with_poisoned b) (try_alloc_g0_cons_slab h n)"
    unfolding try_alloc_g0_cons_slab_def Let_def bump_mixed_poisoned
    by (cases "try_bump_g0_mixed h (min n PAGE_SIZE_CELLS)")
      (auto simp: with_poisoned_def c o gc_free_page_reserve_for_mutator_slab_def acquire_poisoned bump_mixed_poisoned
        split: option.split prod.split)
  then show ?thesis
    by (cases "try_alloc_g0_cons_slab h n") (auto simp: try_alloc_g0_slab_def with_poisoned_def Let_def)
qed

section \<open>All entry points as one allocator\<close>

datatype alloc_request =
    Req_Cons generation
  | Req_Boxed generation nat
  | Req_Tlab generation page_kind nat nat
  | Req_G0_Slab nat
  | Req_Large generation nat

text \<open>
  The block an entry point hands out: address and length. A large object owns whole pages.
\<close>

fun perform :: "alloc_request \<Rightarrow> page_heap \<Rightarrow> ((u64 \<times> nat) option \<times> page_heap) option" where
  "perform (Req_Cons g) h =
     map_option (\<lambda>(r, h). (map_option (\<lambda>a. (a, 2)) r, h)) (try_alloc_cons_in h g)"
| "perform (Req_Boxed g n) h =
     map_option (\<lambda>(r, h). (map_option (\<lambda>a. (a, n)) r, h)) (try_alloc_boxed_in h g n)"
| "perform (Req_Tlab g k mn want) h =
     map_option (\<lambda>(r, h). (map_option (\<lambda>(a, p, slab). (a, slab)) r, h)) (reserve_tlab h g k mn want)"
| "perform (Req_G0_Slab n) h = try_alloc_g0_slab h n"
| "perform (Req_Large g n) h =
     (let (r, h) = try_alloc_large h n g
      in Some (map_option (\<lambda>a. (a, div_ceil n PAGE_SIZE_CELLS * PAGE_SIZE_CELLS)) r, h))"

fun valid_request :: "alloc_request \<Rightarrow> bool" where
  "valid_request (Req_Large g n) = (g \<noteq> Gen_Free \<and> 0 < n)"
| "valid_request _ = True"

text \<open>Each entry point's facts, in the shape of the contract.\<close>

definition meets_contract :: "page_heap \<Rightarrow> (u64 \<times> nat) option \<Rightarrow> page_heap \<Rightarrow> bool" where
  "meets_contract h res h' \<longleftrightarrow> alloc_ok h' \<and> extends h h' \<and>
     (\<forall>a n. res = Some (a, n) \<longrightarrow> (\<exists>c. a = cell_addr h c \<and> 0 < n \<and> grants h h' c n))"

lemma meets_contractI:
  assumes "alloc_ok h'" "res = None \<Longrightarrow> extends h h'"
    "\<And>a n. res = Some (a, n) \<Longrightarrow> \<exists>c. a = cell_addr h c \<and> 0 < n \<and> grants h h' c n"
  shows "meets_contract h res h'"
  using assms grants_extends unfolding meets_contract_def by (cases res) fastforce+

lemma in_region_contract:
  assumes "alloc_ok h" "0 < n" "try_alloc_in_region h g k n as_cons = Some (r, h')"
  shows "meets_contract h (map_option (\<lambda>a. (a, n)) r) h'"
  using try_alloc_in_region_ok [OF assms] assms(2) same_used_extends
  by (intro meets_contractI) (auto split: option.splits)

lemma perform_contract:
  assumes ok: "alloc_ok h" and v: "valid_request req" and p: "perform req h = Some (res, h')"
  shows "meets_contract h res h'"
proof (cases req)
  case (Req_Cons g)
  then obtain r where "try_alloc_in_region h g Kind_Cons 2 True = Some (r, h')" "res = map_option (\<lambda>a. (a, 2)) r"
    using p by (auto simp: try_alloc_cons_in_def)
  then show ?thesis using in_region_contract [OF ok, of 2] by simp
next
  case (Req_Boxed g n)
  show ?thesis
  proof (cases "n = 0 \<or> n > PAGE_SIZE_CELLS")
    case True
    then show ?thesis
      using p Req_Boxed ok by (auto simp: try_alloc_boxed_in_def intro!: meets_contractI)
  next
    case False
    then obtain r where "try_alloc_in_region h g Kind_Boxed n False = Some (r, h')" "res = map_option (\<lambda>a. (a, n)) r"
      using p Req_Boxed by (auto simp: try_alloc_boxed_in_def)
    then show ?thesis using in_region_contract [OF ok, of n] False by simp
  qed
next
  case (Req_Tlab g k mn want)
  then obtain r where r: "reserve_tlab h g k mn want = Some (r, h')" "res = map_option (\<lambda>(a, p, slab). (a, slab)) r"
    using p by auto
  then show ?thesis
    using reserve_tlab_ok [OF ok r(1)] same_used_extends
    by (intro meets_contractI) (auto simp: slab_granted_def split: option.splits)
next
  case (Req_G0_Slab n)
  show ?thesis
  proof (cases "n = 0")
    case True
    then show ?thesis using p Req_G0_Slab ok by (auto simp: try_alloc_g0_slab_def intro!: meets_contractI)
  next
    case False
    then obtain r where r: "try_alloc_g0_cons_slab h n = Some (r, h')"
        "res = map_option (\<lambda>slab. (slab, min n PAGE_SIZE_CELLS)) r"
      using p Req_G0_Slab by (auto simp: try_alloc_g0_slab_def)
    then show ?thesis
      using g0_cons_slab_ok [OF ok r(1)] same_used_extends False
      by (intro meets_contractI) (auto simp: PAGE_SIZE_CELLS_num split: option.splits)
  qed
next
  case (Req_Large g n)
  then obtain r where r: "try_alloc_large h n g = (r, h')"
      "res = map_option (\<lambda>a. (a, div_ceil n PAGE_SIZE_CELLS * PAGE_SIZE_CELLS)) r"
    using p by (auto split: prod.splits)
  have gn: "g \<noteq> Gen_Free" "0 < n" using v Req_Large by simp_all
  have "0 < div_ceil n PAGE_SIZE_CELLS * PAGE_SIZE_CELLS"
    using div_ceil_bounds(1) [of PAGE_SIZE_CELLS n] gn(2) by (simp add: PAGE_SIZE_CELLS_num)
  then show ?thesis
    using try_alloc_large_ok [OF ok gn r(1)] r(2)
    by (intro meets_contractI) (auto simp: map_option_eq_Some [THEN eq_commute [THEN trans]])
qed

interpretation entry_points: allocator perform valid_request
proof unfold_locales
  fix h r res h' assume "alloc_ok h" "valid_request r" "perform r h = Some (res, h')"
  then show "alloc_ok h' \<and> extends h h'"
    using perform_contract by (simp add: meets_contract_def)
next
  fix h r a n h' assume "alloc_ok h" "valid_request r" "perform r h = Some (Some (a, n), h')"
  then show "\<exists>c. a = cell_addr h c \<and> 0 < n \<and> grants h h' c n"
    using perform_contract by (simp add: meets_contract_def)
qed

section \<open>Properties\<close>

lemma initial_alloc_ok:
  assumes "b AND 7 = 0" "unat b + div_ceil r PAGE_SIZE_BYTES * PAGE_SIZE_BYTES < 2 ^ 64"
  shows "alloc_ok (with_reservation b os r)"
proof (rule alloc_okI)
  show "reservation_ok (with_reservation b os r)" by (rule reservation_ok_initial [OF assms])
  show "page_ok (with_reservation b os r) i" if "i < n_pages (with_reservation b os r)" for i
    using that by (simp add: page_ok_def)
  show "region_ok (with_reservation b os r) g k" for g k
    by (auto simp: region_ok_def alloc_region_def initial_regions_def region_empty_def split: prod.splits)
qed auto

lemma one_page_ok: "alloc_ok (with_reservation 65536 (\<lambda>_. True) 65536)"
  by (rule initial_alloc_ok) (simp_all add: div_ceil_def PAGE_SIZE_BYTES_def)

lemma try_bump_defined:
  assumes "alloc_ok h" "alloc_region h g k \<noteq> None"
  obtains b h' where "try_bump_in_current h g k n as_cons = Some (b, h')"
  using assms(2) try_bump_eval [OF assms(1), of g k _ n as_cons]
  by (cases "alloc_region h g k") (auto simp: Let_def split: option.splits if_splits)

lemma try_alloc_defined:
  assumes ok: "alloc_ok h" and r: "alloc_region h g k \<noteq> None"
  shows "\<exists>res h'. try_alloc_in_region h g k n as_cons = Some (res, h')"
proof -
  obtain rg where rg: "alloc_region h g k = Some rg" using r by blast
  obtain b h1 where b: "try_bump_in_current h g k n as_cons = Some (b, h1)"
    by (rule try_bump_defined [OF ok r])
  have h1: "h1 = h" if "b = None"
    using b that try_bump_eval [OF ok rg, of n as_cons] by (auto simp: Let_def split: option.splits if_splits)
  obtain ar h2 where a: "acquire_free_page h g k = (ar, h2)" by fastforce
  have "\<exists>res h'. try_bump_in_current (open_region_on h2 g k idx) g k n as_cons = Some (res, h')"
    if "ar = Some idx" for idx
    using acquire_then_open_ok [OF ok rg, of idx h2] a that try_bump_defined by (metis option.distinct(1))
  then show ?thesis
    using b h1 a by (cases b; cases ar) (auto simp: try_alloc_in_region_def)
qed

lemma acquire_none_reason:
  assumes ok: "alloc_ok h" and a: "acquire_free_page h g k = (None, h')"
  shows "(\<forall>i < n_pages h. pgen (descs h ! i) \<noteq> Gen_Free) \<or> \<not> os_answers h (os_calls h)"
  using a
proof (cases rule: acquire_free_page_cases)
  case (refused idx rest e)
  have "idx < n_pages h" using refused(2) alloc_okD(5) [OF ok] by auto
  then show ?thesis
    using refused(5) by (auto simp: commit_page_def os_call_def Let_def split: if_splits)
qed auto

lemma small_alloc_succeeds:
  assumes ok: "alloc_ok h" and r: "alloc_region h g k \<noteq> None" and "\<not> poisoned h" "\<not> young_cap_reached h g"
    and free: "i < n_pages h" "pgen (descs h ! i) = Gen_Free" and os: "os_answers h (os_calls h)"
    and n: "n \<le> PAGE_SIZE_CELLS"
  shows "\<exists>a h'. try_alloc_in_region h g k n as_cons = Some (Some a, h')"
proof -
  obtain res h' where t: "try_alloc_in_region h g k n as_cons = Some (res, h')"
    using try_alloc_defined [OF ok r] by blast
  obtain rg where rg: "alloc_region h g k = Some rg" using r by blast
  have "res \<noteq> None"
    using ok t
  proof (cases rule: try_alloc_cases)
    case no_page
    then show ?thesis using acquire_none_reason [OF ok no_page(2)] free os by blast
  next
    case (fresh idx h1)
    note o = acquire_then_open_ok [OF ok rg fresh(1)]
    show ?thesis
      using fresh(2) try_bump_eval [OF o(1,2), of n as_cons] n by (auto simp: Let_def)
  qed (use assms(3,4) in auto)
  then show ?thesis using t by auto
qed

text \<open>
  C16. A small allocation (bump within the open page, or a fresh page when it does not fit)
  that returns an address returns cells that nobody had: they were not in use and read zero,
  they lie in one page of the generation and kind asked for, their first cell carries the only
  start bit among them, which says cons for a cons and header for any other object, exactly these
  cells become in use, and the cells and start bits in use before are unchanged. One that returns
  \<open>None\<close> changed nothing a client sees. The allocator's invariant holds afterwards either way, and
  the start pairs stay well-formed.
\<close>

theorem small_allocation:
  assumes "alloc_ok h" "tidy (start_bits h)" "0 < n" "try_alloc_in_region h g k n as_cons = Some (res, h')"
  shows "alloc_ok h' \<and> tidy (start_bits h') \<and> (case res of None \<Rightarrow> same_used h h'
    | Some a \<Rightarrow> \<exists>c. a = cell_addr h c \<and> grants h h' c n \<and> object_placed h' c n g k as_cons \<and>
        start_kind_at (start_bits h') c = (if as_cons then Cons_Start else Header_Start))"
proof -
  have "tidy (start_bits h')" using try_alloc_frame [OF assms(1,4)] assms(2) by (simp add: alloc_frame_def)
  moreover have "\<exists>c. a = cell_addr h c \<and> grants h h' c n \<and> object_placed h' c n g k as_cons \<and>
      start_kind_at (start_bits h') c = (if as_cons then Cons_Start else Header_Start)" if "res = Some a" for a
    using try_alloc_start_kind [OF assms(1,3,2)] assms(4) that by simp
  ultimately show ?thesis
    using try_alloc_in_region_ok [OF assms(1,3,4)] by (cases res) simp_all
qed

theorem small_allocation_witness:
  "\<exists>a h'. try_alloc_in_region (with_reservation 65536 (\<lambda>_. True) 65536) G0 Kind_Boxed 3 False = Some (Some a, h') \<and>
     (\<exists>c. a = cell_addr (with_reservation 65536 (\<lambda>_. True) 65536) c \<and>
        start_kind_at (start_bits h') c = Header_Start \<and> pgen (descs h' ! (c div PAGE_SIZE_CELLS)) = G0)"
proof -
  let ?h = "with_reservation 65536 (\<lambda>_. True) 65536"
  have "alloc_region ?h G0 Kind_Boxed \<noteq> None" "\<not> poisoned ?h" "\<not> young_cap_reached ?h G0"
    "os_answers ?h (os_calls ?h)" "pgen (descs ?h ! 0) = Gen_Free" "0 < n_pages ?h" "3 \<le> PAGE_SIZE_CELLS"
    "start_bits ?h = (\<lambda>_. 0)"
    by (simp_all add: young_cap_reached_def with_reservation_def Let_def div_ceil_def PAGE_SIZE_BYTES_def
        PAGE_SIZE_CELLS_num alloc_region_def initial_regions_def count_pages_in_gen_def)
  moreover from this obtain a h' where t: "try_alloc_in_region ?h G0 Kind_Boxed 3 False = Some (Some a, h')"
    using small_alloc_succeeds [OF one_page_ok] by blast
  ultimately show ?thesis
    using small_allocation [OF one_page_ok _ _ t] by (force simp: object_placed_def)
qed

text \<open>
  C24. Allocation fails only for a reason: for a generation and kind that have a region, a request
  of at most a page either returns an address or the heap is poisoned, or the open page lacks
  room and the young cap is reached, no page is Free, or the operating system refused the
  commit. It never panics.
\<close>

theorem allocation_fails_for_a_reason:
  assumes ok: "alloc_ok h" and r: "alloc_region h g k = Some r" and n: "0 < n" "n \<le> PAGE_SIZE_CELLS"
  shows "\<exists>res h'. try_alloc_in_region h g k n as_cons = Some (res, h') \<and>
    (res = None \<longrightarrow> poisoned h \<or> (remaining_cells r < n \<and>
       (young_cap_reached h g \<or> (\<forall>i < n_pages h. pgen (descs h ! i) \<noteq> Gen_Free) \<or>
        \<not> os_answers h (os_calls h))))"
proof -
  obtain res h' where t: "try_alloc_in_region h g k n as_cons = Some (res, h')"
    using try_alloc_defined [OF ok] r by blast
  have full: "remaining_cells r < n" if "try_bump_in_current h g k n as_cons = Some (None, h)"
    using that n try_bump_eval [OF ok r, of n as_cons]
    by (auto simp: remaining_cells_def has_page_def Let_def split: option.splits if_splits)
  have "poisoned h \<or> (remaining_cells r < n \<and> (young_cap_reached h g \<or>
      (\<forall>i < n_pages h. pgen (descs h ! i) \<noteq> Gen_Free) \<or> \<not> os_answers h (os_calls h)))"
    if "res = None"
    using ok t
  proof (cases rule: try_alloc_cases)
    case no_page
    then show ?thesis using full acquire_none_reason [OF ok no_page(2)] by blast
  next
    case (fresh idx h1)
    note o = acquire_then_open_ok [OF ok r fresh(1)]
    show ?thesis
      using fresh(2) that n try_bump_eval [OF o(1,2), of n as_cons] by (simp add: Let_def)
  qed (use that full in auto)
  then show ?thesis using t by blast
qed

theorem allocation_fails_for_a_reason_witness:
  "\<exists>a h'. try_alloc_in_region (with_reservation 65536 (\<lambda>_. True) 65536) G1 Kind_Boxed 5 False = Some (Some a, h')"
proof -
  let ?h = "with_reservation 65536 (\<lambda>_. True) 65536"
  have r: "alloc_region ?h G1 Kind_Boxed = Some (region_empty G1 Kind_Boxed)"
    by (simp add: alloc_region_def initial_regions_def)
  have "\<not> poisoned ?h" "\<not> young_cap_reached ?h G1" "os_answers ?h (os_calls ?h)"
    "pgen (descs ?h ! 0) = Gen_Free" "0 < n_pages ?h"
    by (simp_all add: young_cap_reached_def with_reservation_def Let_def div_ceil_def PAGE_SIZE_BYTES_def)
  then show ?thesis
    using allocation_fails_for_a_reason [OF one_page_ok r, of 5 False]
    by (fastforce simp: PAGE_SIZE_CELLS_num)
qed

text \<open>
  C23. A slab reserved for a mutator's lock-free bump lies inside one page, has at least the
  cells the caller needs and at most those it wanted (clamped to a page), was free, reads zero
  and carries no start bit; the page is charged for the whole slab. A refusal changes nothing
  a client sees.
\<close>

theorem tlab_slab:
  assumes "alloc_ok h" "reserve_tlab h g k mn want = Some (res, h')"
  shows "alloc_ok h' \<and> (case res of None \<Rightarrow> same_used h h'
    | Some s \<Rightarrow> slab_granted h h' (max mn 1) (min (max want (max mn 1)) PAGE_SIZE_CELLS) s)"
  by (rule reserve_tlab_ok [OF assms])

theorem tlab_slab_witness:
  "alloc_ok (snd (the (reserve_tlab (with_reservation 65536 (\<lambda>_. True) 65536) G0 Kind_Boxed 4 128)))"
proof -
  let ?h = "with_reservation 65536 (\<lambda>_. True) 65536"
  obtain r where r: "alloc_region ?h G0 Kind_Boxed = Some r" "current_page r = None"
    by (simp add: alloc_region_def initial_regions_def region_empty_def)
  obtain ar h1 where a: "acquire_free_page ?h G0 Kind_Boxed = (ar, h1)" by fastforce
  have "\<exists>res h'. reserve_tlab ?h G0 Kind_Boxed 4 128 = Some (res, h')"
  proof (cases ar)
    case None
    then show ?thesis
      using r a by (simp add: reserve_tlab_def Let_def PAGE_SIZE_CELLS_num has_page_def)
  next
    case (Some idx)
    then have a': "acquire_free_page ?h G0 Kind_Boxed = (Some idx, h1)" using a by simp
    note o = acquire_then_open_ok [OF one_page_ok r(1) a']
    obtain s h' where "carve_tlab_in_current (open_region_on h1 G0 Kind_Boxed idx) G0 Kind_Boxed 128 = Some (Some s, h')"
      by (rule carve_slab_granted [OF o(1,2), of 4 128])
        (simp_all add: remaining_cells_def has_page_def PAGE_SIZE_CELLS_num)
    then show ?thesis
      using r a' by (simp add: reserve_tlab_def Let_def PAGE_SIZE_CELLS_num has_page_def)
  qed
  then show ?thesis using tlab_slab [OF one_page_ok] by fastforce
qed

text \<open>
  C17. A large allocation takes the first run of enough contiguous Free pages (first fit): the
  pages become Large pages of the generation with the run length on the head, the whole run
  reads zero, was not in use, and has one start bit, at its head; nothing in use changes,
  also when the allocation fails part-way.
\<close>

theorem large_allocation:
  assumes "alloc_ok h" "g \<noteq> Gen_Free" "0 < n" "try_alloc_large h n g = (res, h')"
  shows "alloc_ok h' \<and> extends h h' \<and>
    (\<forall>a. res = Some a \<longrightarrow> (\<exists>s. a = cell_addr h (s * PAGE_SIZE_CELLS) \<and>
       n \<le> div_ceil n PAGE_SIZE_CELLS * PAGE_SIZE_CELLS \<and>
       free_run (descs h) s (div_ceil n PAGE_SIZE_CELLS) \<and>
       (\<forall>s' < s. \<not> free_run (descs h) s' (div_ceil n PAGE_SIZE_CELLS)) \<and>
       grants h h' (s * PAGE_SIZE_CELLS) (div_ceil n PAGE_SIZE_CELLS * PAGE_SIZE_CELLS) \<and>
       large_placed h' s (div_ceil n PAGE_SIZE_CELLS) g))"
  by (rule try_alloc_large_ok [OF assms])

theorem large_allocation_witness:
  "alloc_ok (snd (try_alloc_large (with_reservation 65536 (\<lambda>_. True) 65536) 5000 Tenured))"
  using large_allocation [OF one_page_ok, of Tenured 5000] by (metis generation.distinct(5) prod.collapse zero_less_numeral)

text \<open>
  C12. Whatever the order in which the entry points are called, the blocks they hand out are
  pairwise disjoint, lie in the reservation, were free before the first call and are in use
  after the last, and everything in use before the first call is untouched by the allocator.
\<close>

theorem allocations_disjoint:
  assumes "alloc_ok h" "\<forall>r \<in> set rs. valid_request r" "alloc_run perform rs h = Some (log, h')"
  shows "alloc_ok h' \<and> extends h h' \<and> disjoint_blocks log \<and>
    (\<forall>(c, n) \<in> set log. 0 < n \<and> c + n \<le> total_cells_of h \<and>
       (\<forall>x. c \<le> x \<and> x < c + n \<longrightarrow> \<not> cell_used h x \<and> cell_used h' x))"
  using entry_points.run_keeps [OF assms] entry_points.run_blocks [OF assms] by blast

theorem allocations_disjoint_witness:
  "\<exists>log h'. alloc_run perform [Req_Cons G0, Req_Large G1 4] (with_reservation 65536 (\<lambda>_. True) 65536) = Some (log, h') \<and>
     log \<noteq> [] \<and> disjoint_blocks log \<and> cell_used h' (fst (hd log))"
proof -
  let ?h = "with_reservation 65536 (\<lambda>_. True) 65536"
  have "alloc_region ?h G0 Kind_Cons \<noteq> None" "\<not> poisoned ?h" "\<not> young_cap_reached ?h G0"
    "os_answers ?h (os_calls ?h)" "pgen (descs ?h ! 0) = Gen_Free" "0 < n_pages ?h" "2 \<le> PAGE_SIZE_CELLS"
    by (simp_all add: young_cap_reached_def with_reservation_def Let_def div_ceil_def PAGE_SIZE_BYTES_def
        PAGE_SIZE_CELLS_num alloc_region_def initial_regions_def count_pages_in_gen_def)
  then obtain a h1 where 1: "try_alloc_in_region ?h G0 Kind_Cons 2 True = Some (Some a, h1)"
    using small_alloc_succeeds [OF one_page_ok] by blast
  moreover obtain r2 h2 where 2: "try_alloc_large h1 4 G1 = (r2, h2)" by fastforce
  ultimately obtain log where r: "alloc_run perform [Req_Cons G0, Req_Large G1 4] ?h = Some (log, h2)" "log \<noteq> []"
    by (simp add: try_alloc_cons_in_def)
  have v: "\<forall>r \<in> set [Req_Cons G0, Req_Large G1 4]. valid_request r" by simp
  obtain c n bs where l: "log = (c, n) # bs" using r(2) by (cases log) auto
  from allocations_disjoint [OF one_page_ok v r(1)]
  have "disjoint_blocks log" "0 < n" "\<forall>x. c \<le> x \<and> x < c + n \<longrightarrow> \<not> cell_used ?h x \<and> cell_used h2 x"
    unfolding l by simp_all
  then show ?thesis using r l by (intro exI [of _ log] exI [of _ h2]) simp
qed

section \<open>The free-page list\<close>

definition free_list_complete :: "page_heap \<Rightarrow> bool" where
  "free_list_complete h \<longleftrightarrow> (\<forall>i < n_pages h. pgen (descs h ! i) = Gen_Free \<longrightarrow> i \<in> set (free_page_list h))"

lemma pop_free_page_rest:
  "pop_free_page ds l = (r, rest) \<Longrightarrow> i \<in> set l \<Longrightarrow> pgen (ds ! i) = Gen_Free \<Longrightarrow> i \<in> set rest \<or> r = Some i"
  by (induction l arbitrary: r rest) (auto split: if_splits)

lemma pop_free_page_distinct:
  "pop_free_page ds l = (Some i, rest) \<Longrightarrow> distinct l \<Longrightarrow> i \<notin> set rest"
  by (induction l) (auto split: if_splits)

text \<open>
  C25. The free-page list lists every Free page: a release keeps it so, and an acquisition whose
  commit is not refused keeps it so too and finds its page on the list, so the fallback scan is
  not needed. A refused commit is the exception: the page it popped stays Free and is off the
  list, whenever it was listed once.
\<close>

theorem free_list_stays_complete:
  assumes "alloc_ok h" "free_list_complete h" "g \<noteq> Gen_Free"
  shows "(idx < n_pages h \<longrightarrow> free_list_complete (release_page_to_free h idx z)) \<and>
    (pop_free_page (descs h) (free_page_list h) = (None, []) \<longrightarrow> scan_free_page h = None) \<and>
    (case acquire_free_page h g k of
       (Some i, h') \<Rightarrow> free_list_complete h'
     | (None, h') \<Rightarrow>
         if \<exists>i < n_pages h. pgen (descs h ! i) = Gen_Free
         then \<not> os_answers h (os_calls h) \<and> (distinct (free_page_list h) \<longrightarrow> \<not> free_list_complete h')
         else free_list_complete h')"
proof -
  have len: "length (descs h) = n_pages h" by (rule alloc_okD(7) [OF assms(1)])
  have rel: "free_list_complete (release_page_to_free h idx z)" if "idx < n_pages h"
  proof -
    have "i \<in> insert idx (set (free_page_list h))"
      if "i < n_pages h" "pgen (descs (release_page_to_free h idx z) ! i) = Gen_Free" for i
      using that assms(2) len
      by (cases "i = idx"; cases z) (simp_all add: free_list_complete_def release_page_to_free_def Let_def)
    then show ?thesis by (auto simp: free_list_complete_def release_page_to_free_def Let_def)
  qed
  obtain r rest where pop: "pop_free_page (descs h) (free_page_list h) = (r, rest)" by fastforce
  have scan: "scan_free_page h' = None" if "r = None" "descs h' = descs h" "n_pages h' = n_pages h" for h'
  proof -
    have "\<forall>i < n_pages h. pgen (descs h ! i) \<noteq> Gen_Free"
      using that(1) pop_free_page_props [OF pop] assms(2) by (auto simp: free_list_complete_def)
    then show ?thesis using that by (auto simp: scan_free_page_def find_None_iff desc_def)
  qed
  obtain ar h' where a: "acquire_free_page h g k = (ar, h')" by fastforce
  show ?thesis
  proof (cases r)
    case None
    then have none: "\<forall>i < n_pages h. pgen (descs h ! i) \<noteq> Gen_Free"
      using pop_free_page_props [OF pop] assms(2) by (auto simp: free_list_complete_def)
    have "acquire_free_page h g k = (None, h\<lparr>free_page_list := rest\<rparr>)"
      using scan [OF None, of "h\<lparr>free_page_list := rest\<rparr>"] by (simp add: acquire_free_page_def pop None)
    moreover have "free_list_complete (h\<lparr>free_page_list := rest\<rparr>)"
      using none by (simp add: free_list_complete_def)
    ultimately show ?thesis using rel scan [OF None] none by auto
  next
    case (Some i)
    have i: "i \<in> set (free_page_list h)" "pgen (descs h ! i) = Gen_Free"
      using pop_free_page_props [OF pop] Some by simp_all
    then have ib: "i < n_pages h" using alloc_okD(5) [OF assms(1)] by auto
    obtain cr h2 where c: "commit_page (raise_high_water (h\<lparr>free_page_list := rest\<rparr>) (i + 1)) i = (cr, h2)"
      by fastforce
    note f = commit_page_frame [OF c, simplified]
    show ?thesis
    proof (cases cr)
      case (Inl e)
      then have acq: "acquire_free_page h g k = (None, h2)"
        unfolding acquire_free_page_def pop Some Let_def prod.case option.case c by simp
      have "i \<notin> set rest" if "distinct (free_page_list h)"
        using pop_free_page_distinct [OF pop [unfolded Some] that] .
      then have "distinct (free_page_list h) \<longrightarrow> \<not> free_list_complete h2"
        using i ib by (auto simp: free_list_complete_def f)
      moreover have "\<not> os_answers h (os_calls h)"
        using c Inl ib by (auto simp: commit_page_def os_call_def Let_def split: if_splits)
      ultimately show ?thesis using rel i ib acq pop Some by auto
    next
      case (Inr fresh)
      then obtain h3 where acq: "acquire_free_page h g k = (Some i, h3)"
        unfolding acquire_free_page_def pop Some Let_def prod.case option.case c by simp
      note s = acquire_some [OF assms(1) acq] and fr = acquire_free_page_frame [OF acq]
      have "free_page_list h3 = rest"
        using acq Inr c f unfolding acquire_free_page_def pop Some Let_def prod.case option.case c
        by (auto split: if_splits)
      then have "free_list_complete h3"
        using assms(2,3) pop_free_page_rest [OF pop] Some len
        unfolding free_list_complete_def fr(1) s(3)
        by (metis nth_list_update_eq nth_list_update_neq desc_fresh_sel(1) option.inject)
      then show ?thesis using rel acq pop Some by simp
    qed
  qed
qed

theorem free_list_stays_complete_witness:
  "free_list_complete (release_page_to_free (with_reservation 65536 (\<lambda>_. True) 65536) 0 True)"
proof -
  have "free_list_complete (with_reservation 65536 (\<lambda>_. True) 65536)" by (simp add: free_list_complete_def)
  then show ?thesis
    using free_list_stays_complete [OF one_page_ok, of G0 0 True]
    by (simp add: div_ceil_def PAGE_SIZE_BYTES_def)
qed

end
