(* ===== verification/Evac_Phases.thy ===== *)
theory Evac_Phases
  imports Evac_Mark Allocator
begin

text \<open>
  The three phases of an evacuation and their driver (\<^verbatim>\<open>page_heap/evac.rs\<close>): copy the marked
  objects of a chunk of pages, rewrite the pointers to them, reclaim the pages. The caller's
  \<open>visit_roots\<close> closure is an argument: a function that threads the caller's own state and the
  scanner. A run ends in a result or in one of the outcomes of \<open>gc_abort\<close>: the stall the code
  throws with \<open>panic_any\<close> (with the heap it leaves), another panic, or a loop that does not
  advance because an object has no cells.
\<close>

section \<open>Results and errors\<close>

record evac_result =
  objects_copied :: nat
  cells_copied :: nat
  pages_freed :: nat
  pages_flipped :: nat

datatype gc_stall_reason = MidEvacOOM

record gc_stall_error =
  reason :: gc_stall_reason
  stall_from_gen :: generation
  stall_dest_gen :: generation
  attempted_cells :: nat
  attempted_kind :: page_kind
  stall_free_pages :: nat
  stall_g0_pages :: nat
  stall_g1_pages :: nat
  stall_tenured_pages :: nat
  pinned_pages :: nat
  pin_set_size :: nat
  objects_copied_before_failure :: nat
  cells_copied_before_failure :: nat
  reserve_pages :: nat
  mark_live_bytes :: nat
  mark_live_pages :: nat
  zero_live_pages_released :: nat
  pages_recycled_mid_evac :: nat

definition mid_evac_oom ::
  "page_heap \<Rightarrow> generation \<Rightarrow> generation \<Rightarrow> nat \<Rightarrow> page_kind \<Rightarrow> nat \<Rightarrow> nat \<Rightarrow> nat \<Rightarrow> gc_stall_error" where
  "mid_evac_oom h from_gen dest_gen cells_wanted k objs ncells recycled =
     \<lparr>reason = MidEvacOOM, stall_from_gen = from_gen, stall_dest_gen = dest_gen,
      attempted_cells = cells_wanted, attempted_kind = k,
      stall_free_pages = count_pages_in_gen h Gen_Free,
      stall_g0_pages = count_pages_in_gen h G0,
      stall_g1_pages = count_pages_in_gen h G1,
      stall_tenured_pages = count_pages_in_gen h Tenured,
      pinned_pages = length (filter has_pins (descs h)),
      pin_set_size = pinned_count h,
      objects_copied_before_failure = objs, cells_copied_before_failure = ncells,
      reserve_pages = gc_free_page_reserve_for_mutator_slab h,
      mark_live_bytes = last_mark_live_cells h * 8, mark_live_pages = last_mark_live_pages h,
      zero_live_pages_released = last_zero_live_pages_released h,
      pages_recycled_mid_evac = recycled\<rparr>"

datatype gc_abort = Stall gc_stall_error page_heap | Panic | Diverge

section \<open>Phase 1: copy\<close>

text \<open>Whether the object at a start cell is a cons, and its size.\<close>

definition object_extent :: "heap_layout \<Rightarrow> page_heap \<Rightarrow> nat \<Rightarrow> (bool \<times> nat) option" where
  "object_extent L h cell_idx =
     (let as_cons = is_cons_start_at (start_bits h) cell_idx in
      if as_cons then Some (True, 2)
      else map_option (\<lambda>l. (False, total_cells l)) (header_layout L (cells h cell_idx)))"

definition install_copy :: "heap_layout \<Rightarrow> nat \<Rightarrow> u64 \<Rightarrow> nat \<Rightarrow> page_heap \<Rightarrow> page_heap" where
  "install_copy L cell_idx dest_ptr sz h =
     (let h = h\<lparr>cells := copy_range (cells h) cell_idx (cell_index h dest_ptr) sz\<rparr>;
          h = h\<lparr>cells := (cells h)(cell_idx := make_forward L dest_ptr)\<rparr>;
          dest_byte_offset = unat dest_ptr - unat (base_ptr h);
          dest_byte_end = dest_byte_offset + sz * 8
      in h\<lparr>cards := mark_byte_range (cards h) dest_byte_offset dest_byte_end\<rparr>)"

definition alloc_copy ::
  "page_heap \<Rightarrow> generation \<Rightarrow> bool \<Rightarrow> nat \<Rightarrow> (u64 option \<times> page_heap) option" where
  "alloc_copy h dest_gen as_cons sz =
     (if as_cons then try_alloc_cons_in h dest_gen else try_alloc_boxed_in h dest_gen sz)"

lemma alloc_copy_size:
  assumes "object_extent L h0 c = Some (as_cons, sz)" "alloc_copy h g as_cons sz = Some (Some p, h')"
  shows "0 < sz"
  using assms by (cases "sz = 0")
    (auto simp: object_extent_def alloc_copy_def try_alloc_boxed_in_def Let_def split: if_splits)

text \<open>One page: the walk over its cells, with the tallies of the chunk and of the earlier ones.\<close>

function copy_loop ::
  "heap_layout \<Rightarrow> generation \<Rightarrow> generation \<Rightarrow> nat \<times> nat \<times> nat \<Rightarrow> nat \<Rightarrow> nat \<Rightarrow>
     page_heap \<times> nat \<times> nat \<Rightarrow> gc_abort + (page_heap \<times> nat \<times> nat)" where
  "copy_loop L from_gen dest_gen (obj0, cell0, freed0) last_cell cell_idx (h, objs, ncells) =
     (if \<not> cell_idx < last_cell then Inr (h, objs, ncells)
      else if \<not> is_marked h cell_idx
        then copy_loop L from_gen dest_gen (obj0, cell0, freed0) last_cell (cell_idx + 1) (h, objs, ncells)
      else if \<not> is_start_at (start_bits h) cell_idx
        then copy_loop L from_gen dest_gen (obj0, cell0, freed0) last_cell (cell_idx + 1) (h, objs, ncells)
      else if is_real_forward_target_at L h cell_idx (cells h cell_idx) \<noteq> None
        then copy_loop L from_gen dest_gen (obj0, cell0, freed0) last_cell (cell_idx + 1) (h, objs, ncells)
      else
        (case object_extent L h cell_idx of
           None \<Rightarrow> Inl Panic
         | Some (as_cons, sz) \<Rightarrow>
             if is_pinned_cell h cell_idx
             then (if sz = 0 then Inl Diverge
                   else copy_loop L from_gen dest_gen (obj0, cell0, freed0) last_cell (cell_idx + sz) (h, objs, ncells))
             else
               (case alloc_copy h dest_gen as_cons sz of
                  None \<Rightarrow> Inl Panic
                | Some (None, h) \<Rightarrow>
                    Inl (Stall (mid_evac_oom h from_gen dest_gen sz
                                  (if as_cons then Kind_Cons else Kind_Boxed)
                                  (obj0 + objs) (cell0 + ncells) freed0) h)
                | Some (Some dest_ptr, h) \<Rightarrow>
                    copy_loop L from_gen dest_gen (obj0, cell0, freed0) last_cell (cell_idx + sz)
                      (install_copy L cell_idx dest_ptr sz h, objs + 1, ncells + sz))))"
  by pat_completeness auto

termination copy_loop
  by (relation "measure (\<lambda>(L, f, d, t, l, c, s). l - c)") (use alloc_copy_size in \<open>fastforce+\<close>)

declare copy_loop.simps [simp del]

definition copy_page ::
  "heap_layout \<Rightarrow> generation \<Rightarrow> generation \<Rightarrow> nat \<times> nat \<times> nat \<Rightarrow> nat \<Rightarrow>
     page_heap \<times> nat \<times> nat \<Rightarrow> gc_abort + (page_heap \<times> nat \<times> nat)" where
  "copy_page L from_gen dest_gen tot page_idx = (\<lambda>(h, objs, ncells).
     if pgen (desc h page_idx) \<noteq> from_gen then Inr (h, objs, ncells)
     else if kind (desc h page_idx) = Kind_Large then Inr (h, objs, ncells)
     else
       (let first_cell = page_idx * PAGE_SIZE_CELLS;
            last_cell = first_cell + unat (words_used (desc h page_idx))
        in copy_loop L from_gen dest_gen tot last_cell first_cell (h, objs, ncells)))"

definition phase1_copy_chunk ::
  "heap_layout \<Rightarrow> page_heap \<Rightarrow> generation \<Rightarrow> generation \<Rightarrow> nat list \<Rightarrow> nat \<Rightarrow> nat \<Rightarrow> nat \<Rightarrow>
     gc_abort + (page_heap \<times> nat \<times> nat)" where
  "phase1_copy_chunk L h from_gen dest_gen chunk obj0 cell0 freed0 =
     fold_res (copy_page L from_gen dest_gen (obj0, cell0, freed0)) chunk (h, 0, 0)"

section \<open>Phase 2: rewrite\<close>

definition rewrite_cells :: "heap_layout \<Rightarrow> generation \<Rightarrow> nat list \<Rightarrow> page_heap \<Rightarrow> page_heap" where
  "rewrite_cells L from_gen cs h =
     fold (\<lambda>c h. case maybe_rewrite_word L h from_gen (cells h c) of
                   None \<Rightarrow> h
                 | Some new_word \<Rightarrow> h\<lparr>cells := (cells h)(c := new_word)\<rparr>) cs h"

text \<open>
  The payload of an object whose start pair says what it is, the same range as in the walk over
  pinned objects of other generations (\<open>cross_gen_payload\<close>).
\<close>

definition rewrite_pinned_object ::
  "heap_layout \<Rightarrow> generation \<Rightarrow> nat \<Rightarrow> page_heap \<Rightarrow> gc_abort + page_heap" where
  "rewrite_pinned_object L from_gen cell_idx h =
     (if pgen (desc h (cell_idx div PAGE_SIZE_CELLS)) = Gen_Free then Inr h
      else if is_real_forward_target_at L h cell_idx (cells h cell_idx) \<noteq> None then Inr h
      else (case cross_gen_payload L h cell_idx of
              None \<Rightarrow> Inl Panic
            | Some cs \<Rightarrow> Inr (rewrite_cells L from_gen cs h)))"

function rewrite_loop ::
  "heap_layout \<Rightarrow> generation \<Rightarrow> nat \<Rightarrow> nat \<Rightarrow> page_heap \<Rightarrow> gc_abort + page_heap" where
  "rewrite_loop L from_gen last_cell cell_idx h =
     (if \<not> cell_idx < last_cell then Inr h
      else if \<not> is_start_at (start_bits h) cell_idx
        then rewrite_loop L from_gen last_cell (cell_idx + 1) h
      else if is_real_forward_target_at L h cell_idx (cells h cell_idx) \<noteq> None
        then rewrite_loop L from_gen last_cell (cell_idx + 1) h
      else
        (case object_extent L h cell_idx of
           None \<Rightarrow> Inl Panic
         | Some (as_cons, sz) \<Rightarrow>
             (case cross_gen_payload L h cell_idx of
                None \<Rightarrow> Inl Panic
              | Some cs \<Rightarrow>
                  if sz = 0 then Inl Diverge
                  else rewrite_loop L from_gen last_cell (cell_idx + sz) (rewrite_cells L from_gen cs h))))"
  by pat_completeness auto

termination rewrite_loop
  by (relation "measure (\<lambda>(L, f, l, c, h). l - c)") auto

declare rewrite_loop.simps [simp del]

definition rewrite_page ::
  "heap_layout \<Rightarrow> generation \<Rightarrow> nat \<Rightarrow> page_heap \<Rightarrow> gc_abort + page_heap" where
  "rewrite_page L from_gen page_idx h =
     (let d = desc h page_idx in
      if pgen d = Gen_Free then Inr h
      else
        (let first_cell = page_idx * PAGE_SIZE_CELLS; last_cell = first_cell + unat (words_used d)
         in rewrite_loop L from_gen last_cell first_cell h))"

type_synonym 'r root_visitor = "'r \<Rightarrow> page_evacuator \<Rightarrow> gc_abort + ('r \<times> page_evacuator)"

definition phase2_rewrite ::
  "heap_layout \<Rightarrow> generation \<Rightarrow> generation \<Rightarrow> 'r root_visitor \<Rightarrow> 'r \<times> page_heap \<Rightarrow>
     gc_abort + ('r \<times> page_heap)" where
  "phase2_rewrite L from_gen dest_gen visit_roots = (\<lambda>(r, h).
     bind_res (visit_roots r \<lparr>ev_heap = h, ev_from_gen = from_gen, ev_dest_gen = dest_gen,
                              ev_mode = Mode_Rewrite, mark_queue = []\<rparr>)
       (\<lambda>(r, rewriter).
          (let h = ev_heap rewriter; dest_pages = pages_in_gen h dest_gen in
           bind_res (fold_res (rewrite_page L from_gen) dest_pages h)
             (\<lambda>h. bind_res (fold_res (rewrite_pinned_object L from_gen) (pinned_cells h) h)
                (\<lambda>h. Inr (r, h))))))"

section \<open>Phase 3: reclaim\<close>

definition flip_large_page :: "generation \<Rightarrow> nat \<Rightarrow> nat \<Rightarrow> page_heap \<Rightarrow> page_heap" where
  "flip_large_page dest_gen head i h =
     (let pidx = head + i;
          h = desc_update h pidx (\<lambda>d. d\<lparr>pgen := dest_gen, age := 0, pin_byte := 0\<rparr>)
      in if i > 0 then h\<lparr>start_bits := clear_page_start_bits (start_bits h) pidx\<rparr> else h)"

definition release_large_page :: "nat \<Rightarrow> nat \<Rightarrow> page_heap \<Rightarrow> page_heap" where
  "release_large_page head i h =
     (let pidx = head + i;
          h = h\<lparr>start_bits := clear_page_start_bits (start_bits h) pidx\<rparr>;
          h = zero_page_cells h pidx;
          h = release_page_to_free h pidx True
      in if is_committed h pidx then snd (decommit_page h pidx) else h)"

text \<open>The extents of the pinned objects of a page, read before anything is zeroed.\<close>

fun pinned_ranges :: "heap_layout \<Rightarrow> page_heap \<Rightarrow> nat \<Rightarrow> (nat \<times> bool) list \<Rightarrow> (nat \<times> nat) list option" where
  "pinned_ranges L h page_idx [] = Some []"
| "pinned_ranges L h page_idx ((cell_idx, as_cons) # ps) =
     (if cell_idx div PAGE_SIZE_CELLS \<noteq> page_idx then pinned_ranges L h page_idx ps
      else (case (if as_cons then Some 2 else map_option total_cells (header_layout L (cells h cell_idx))) of
              None \<Rightarrow> None
            | Some sz \<Rightarrow> map_option (\<lambda>rs. (cell_idx, sz) # rs) (pinned_ranges L h page_idx ps)))"

definition restore_start :: "nat \<Rightarrow> nat \<times> bool \<Rightarrow> bitmap \<Rightarrow> bitmap" where
  "restore_start page_idx = (\<lambda>(cell_idx, as_cons) bits.
     if cell_idx div PAGE_SIZE_CELLS \<noteq> page_idx then bits
     else if as_cons then set_cons_start_bit_at bits cell_idx
     else set_start_bit_at bits cell_idx)"

function zero_outside :: "(nat \<times> nat) list \<Rightarrow> nat \<Rightarrow> nat \<Rightarrow> (nat \<Rightarrow> u64) \<Rightarrow> (nat \<Rightarrow> u64)" where
  "zero_outside ranges last_cell c m =
     (if \<not> c < last_cell then m
      else (case find (\<lambda>(start, sz). start \<le> c \<and> c < start + sz) ranges of
              Some (start, sz) \<Rightarrow> zero_outside ranges last_cell (start + sz) m
            | None \<Rightarrow> zero_outside ranges last_cell (c + 1) (m(c := 0))))"
  by pat_completeness auto

termination zero_outside
  by (relation "measure (\<lambda>(r, l, c, m). l - c)") (auto simp: find_Some_iff)

declare zero_outside.simps [simp del]

definition zero_page_outside_ranges :: "page_heap \<Rightarrow> nat \<Rightarrow> (nat \<times> nat) list \<Rightarrow> page_heap" where
  "zero_page_outside_ranges h page_idx ranges =
     (let first_cell = page_idx * PAGE_SIZE_CELLS; last_cell = first_cell + PAGE_SIZE_CELLS
      in h\<lparr>cells := zero_outside ranges last_cell first_cell (cells h)\<rparr>)"

definition flip_page :: "heap_layout \<Rightarrow> generation \<Rightarrow> (nat \<times> bool) list \<Rightarrow> nat \<Rightarrow> page_heap \<Rightarrow> page_heap option" where
  "flip_page L dest_gen pinned_with_kind page_idx h =
     (case pinned_ranges L h page_idx pinned_with_kind of
        None \<Rightarrow> None
      | Some ranges \<Rightarrow>
          (let h = desc_update h page_idx (\<lambda>d. d\<lparr>pgen := dest_gen, age := 0\<rparr>);
               h = h\<lparr>start_bits := clear_page_start_bits (start_bits h) page_idx\<rparr>;
               h = h\<lparr>start_bits := fold (restore_start page_idx) pinned_with_kind (start_bits h)\<rparr>;
               h = zero_page_outside_ranges h page_idx ranges
           in Some (h\<lparr>cards := fold (\<lambda>(c, sz) ct. mark_byte_range ct (c * 8) (c * 8 + sz * 8)) ranges (cards h)\<rparr>)))"

definition release_page :: "nat \<Rightarrow> page_heap \<Rightarrow> page_heap" where
  "release_page page_idx h =
     (let h = release_page_to_free h page_idx True;
          h = h\<lparr>start_bits := clear_page_start_bits (start_bits h) page_idx\<rparr>
      in zero_page_cells h page_idx)"

definition reclaim_page ::
  "heap_layout \<Rightarrow> generation \<Rightarrow> (nat \<times> bool) list \<Rightarrow> nat \<Rightarrow> page_heap \<times> nat \<times> nat \<Rightarrow>
     (page_heap \<times> nat \<times> nat) option" where
  "reclaim_page L dest_gen pinned_with_kind page_idx = (\<lambda>(h, released, flipped).
     (let d = desc h page_idx in
      if pgen d = Gen_Free then Some (h, released, flipped)
      else if is_large_cont d then Some (h, released, flipped)
      else if is_large_head d then
        (let span = unat (n_span d) in
         if has_pins d
         then Some (fold (flip_large_page dest_gen page_idx) [0..<span] h, released, flipped + span)
         else Some (fold (release_large_page page_idx) [0..<span] h, released + span, flipped))
      else if has_pins d
        then map_option (\<lambda>h. (h, released, flipped + 1)) (flip_page L dest_gen pinned_with_kind page_idx h)
      else Some (release_page page_idx h, released + 1, flipped)))"

definition phase3_reclaim ::
  "heap_layout \<Rightarrow> page_heap \<Rightarrow> generation \<Rightarrow> nat list \<Rightarrow> (nat \<times> bool) list \<Rightarrow>
     (page_heap \<times> nat \<times> nat) option" where
  "phase3_reclaim L h dest_gen chunk pinned_with_kind =
     fold_opt (reclaim_page L dest_gen pinned_with_kind) chunk (h, 0, 0)"

section \<open>The driver\<close>

definition chunk_size :: "page_heap \<Rightarrow> generation \<Rightarrow> nat list \<Rightarrow> nat \<Rightarrow> nat" where
  "chunk_size h from_gen pinned_page_list remaining =
     (let avail_free = count_pages_in_gen h Gen_Free;
          pinned_pending = length (filter (\<lambda>p. pgen (desc h p) = from_gen) pinned_page_list);
          effective_free = avail_free - pinned_pending
      in min (max ((effective_free * 7) div 8) 1) remaining)"

lemma chunk_size_pos: "0 < n \<Longrightarrow> 0 < chunk_size h g ps n"
  by (simp add: chunk_size_def Let_def)

lemma drop_chunk_shorter: "ps \<noteq> [] \<Longrightarrow> n = chunk_size h g pp (length ps) \<Longrightarrow> length (drop n ps) < length ps"
  using chunk_size_pos [of "length ps" h g pp] by simp

text \<open>The chunk loop on the pages still to do, with the four tallies.\<close>

function chunk_loop ::
  "heap_layout \<Rightarrow> generation \<Rightarrow> generation \<Rightarrow> 'r root_visitor \<Rightarrow> (nat \<times> bool) list \<Rightarrow> nat list \<Rightarrow>
     nat list \<Rightarrow> 'r \<times> page_heap \<times> evac_result \<Rightarrow> gc_abort + ('r \<times> page_heap \<times> evac_result)" where
  "chunk_loop L from_gen dest_gen visit_roots pinned_with_kind pinned_page_list pages (r, h, res) =
     (if pages = [] then Inr (r, h, res)
      else
        (let n = chunk_size h from_gen pinned_page_list (length pages); chunk_pages = take n pages in
         bind_res (phase1_copy_chunk L h from_gen dest_gen chunk_pages
                     (objects_copied res) (cells_copied res) (pages_freed res))
           (\<lambda>(h, chunk_objects, chunk_cells).
              bind_res (phase2_rewrite L from_gen dest_gen visit_roots (r, h))
                (\<lambda>(r, h).
                   (case phase3_reclaim L h dest_gen chunk_pages pinned_with_kind of
                      None \<Rightarrow> Inl Panic
                    | Some (h, released, flipped) \<Rightarrow>
                        chunk_loop L from_gen dest_gen visit_roots pinned_with_kind pinned_page_list (drop n pages)
                          (r, h, \<lparr>objects_copied = objects_copied res + chunk_objects,
                                  cells_copied = cells_copied res + chunk_cells,
                                  pages_freed = pages_freed res + released,
                                  pages_flipped = pages_flipped res + flipped\<rparr>))))))"
  by pat_completeness auto

termination chunk_loop
  by (relation "measure (\<lambda>(L, f, d, v, pk, pp, ps, s). length ps)")
    (simp, simp only: in_measure prod.case, rule drop_chunk_shorter, assumption, rule refl)

declare chunk_loop.simps [simp del]

definition internal_mark ::
  "heap_layout \<Rightarrow> generation \<Rightarrow> generation \<Rightarrow> 'r root_visitor \<Rightarrow> 'r \<times> page_heap \<Rightarrow>
     gc_abort + ('r \<times> page_heap)" where
  "internal_mark L from_gen dest_gen visit_roots = (\<lambda>(r, h).
     bind_res (visit_roots r \<lparr>ev_heap = clear_mark_bits_in_gen h from_gen, ev_from_gen = from_gen,
                              ev_dest_gen = dest_gen, ev_mode = Mode_Mark, mark_queue = []\<rparr>)
       (\<lambda>(r, marker).
          (case mark_drain L from_gen (ev_heap marker, mark_queue marker) of
             None \<Rightarrow> Inl Panic
           | Some h \<Rightarrow> Inr (r, prepare_recycle_live_counts_from_marks h from_gen))))"

definition reset_region :: "generation \<Rightarrow> page_kind \<Rightarrow> page_heap \<Rightarrow> page_heap" where
  "reset_region g k h = alloc_region_update h g k (\<lambda>_. region_empty g k)"

definition evacuate_with_roots ::
  "heap_layout \<Rightarrow> generation \<Rightarrow> generation \<Rightarrow> 'r root_visitor \<Rightarrow> 'r \<times> page_heap \<Rightarrow>
     gc_abort + ('r \<times> page_heap \<times> evac_result)" where
  "evacuate_with_roots L from_gen dest_gen visit_roots = (\<lambda>(r, h).
     if from_gen = Gen_Free \<or> dest_gen = Gen_Free then Inl Panic
     else
       bind_res (if recycle_live_counts_active_for h from_gen then Inr (r, h)
                 else internal_mark L from_gen dest_gen visit_roots (r, h))
         (\<lambda>(r, h).
            (case apply_pins_and_extend_mark L h from_gen of
               None \<Rightarrow> Inl Panic
             | Some h \<Rightarrow>
                 (let pinned_with_kind = map (\<lambda>c. (c, is_cons_start_at (start_bits h) c)) (pinned_cells h);
                      from_pages = pages_in_gen h from_gen;
                      h = fold (reset_region from_gen) [Kind_Cons, Kind_Boxed] h;
                      pinned_page_list = remdups (sort (map (\<lambda>c. c div PAGE_SIZE_CELLS) (pinned_cells h)))
                  in bind_res (chunk_loop L from_gen dest_gen visit_roots pinned_with_kind pinned_page_list from_pages
                                 (r, h, \<lparr>objects_copied = 0, cells_copied = 0, pages_freed = 0, pages_flipped = 0\<rparr>))
                       (\<lambda>(r, h, res).
                          Inr (r, clear_recycle_live_counts (clear_mark_bits_in_gen h from_gen), res))))))"

text \<open>The visitor of an array of root words: each is visited and written back.\<close>

fun visit_word_list :: "heap_layout \<Rightarrow> u64 list \<Rightarrow> page_evacuator \<Rightarrow> u64 list \<times> page_evacuator" where
  "visit_word_list L [] ev = ([], ev)"
| "visit_word_list L (w # ws) ev =
     (let (w, ev) = visit L w ev; (ws, ev) = visit_word_list L ws ev in (w # ws, ev))"

definition word_roots_visitor :: "heap_layout \<Rightarrow> u64 list root_visitor" where
  "word_roots_visitor L roots ev = Inr (visit_word_list L roots ev)"

definition evacuate_from_word_roots ::
  "heap_layout \<Rightarrow> page_heap \<Rightarrow> generation \<Rightarrow> generation \<Rightarrow> u64 list \<Rightarrow>
     gc_abort + (u64 list \<times> page_heap \<times> evac_result)" where
  "evacuate_from_word_roots L h from_gen dest_gen roots =
     evacuate_with_roots L from_gen dest_gen (word_roots_visitor L) (roots, h)"

end
