(* ===== verification/Evac_Copy.thy ===== *)
theory Evac_Copy
  imports Evac_Phases
begin

text \<open>
  Phase 1 moves objects: what the copy loop of \<open>phase1_copy_chunk\<close> leaves behind. Every marked,
  unpinned object of the chunk has a copy in the destination generation and a forwarding marker
  in its old first cell; copies are disjoint from each other and from everything that was in
  use; nothing else in use has changed; and a pointer to a moved object now rewrites to the
  pointer to its copy.
\<close>

section \<open>Writing cells in use\<close>

lemma alloc_ok_cells:
  assumes ok: "alloc_ok h" and m: "\<And>x. \<not> cell_used h x \<Longrightarrow> m x = cells h x"
    and ct: "n_cards ct = n_cards (cards h)"
  shows "alloc_ok (h\<lparr>cells := m, cards := ct\<rparr>)"
proof (rule alloc_okI)
  let ?h = "h\<lparr>cells := m, cards := ct\<rparr>"
  have r: "reservation_ok h" by (rule alloc_okD(1) [OF ok])
  have "cells ?h c = 0" if "c div PAGE_SIZE_CELLS < n_pages h" "\<not> is_committed h (c div PAGE_SIZE_CELLS)" for c
  proof -
    have "\<not> cell_used h c"
      using alloc_okD(2) [OF ok that(1)] that(2) by (auto simp: page_ok_def cell_used_def)
    then show ?thesis using m r that by (simp add: reservation_ok_def)
  qed
  then show "reservation_ok ?h"
    using r ct by (auto simp: reservation_ok_def reserved_bytes_def is_committed_def)
  show "page_ok ?h i" if "i < n_pages ?h" for i
  proof -
    have "page_ok h i" using alloc_okD(2) [OF ok] that by simp
    moreover have "m c = cells h c" if "c div PAGE_SIZE_CELLS = i"
      "pgen (descs h ! i) = Gen_Free \<or> unat (words_used (descs h ! i)) \<le> c mod PAGE_SIZE_CELLS" for c
      using m [of c] that by (auto simp: cell_used_def)
    ultimately show ?thesis by (auto simp: page_ok_def is_committed_def)
  qed
  show "region_ok ?h g k" for g k
    by (rule region_ok_cong [OF alloc_okD(3) [OF ok, of g k]]) (simp_all add: alloc_region_def)
qed (use alloc_okD [OF ok] in simp_all)

section \<open>Relocation\<close>

text \<open>
  The object at \<open>c\<close> of the heap \<open>h0\<close> has moved to \<open>d\<close> of the heap \<open>h\<close>: the same cells behind the
  same start pair, in fresh cells of the destination generation that the remembered set covers,
  and the forwarding marker in its old place.
\<close>

definition copied_object ::
  "heap_layout \<Rightarrow> generation \<Rightarrow> page_heap \<Rightarrow> page_heap \<Rightarrow> nat \<Rightarrow> nat \<Rightarrow> bool" where
  "copied_object L dest_gen h0 h c d \<longleftrightarrow>
     (\<exists>sz. object_extent L h0 c = Some (is_cons_start_at (start_bits h0) c, sz) \<and> 0 < sz \<and>
        d + sz \<le> total_cells_of h0 \<and>
        (\<forall>i < sz. \<not> cell_used h0 (d + i) \<and> cell_used h (d + i) \<and> cells h (d + i) = cells h0 (c + i) \<and>
           is_start_at (start_bits h) (d + i) = (i = 0) \<and>
           is_dirty (cards h) (8 * (d + i) div CARD_SIZE_BYTES))) \<and>
     is_cons_start_at (start_bits h) d = is_cons_start_at (start_bits h0) c \<and>
     in_gen h dest_gen d \<and> cells h c = make_forward L (cell_addr h0 d)"

definition object_size :: "heap_layout \<Rightarrow> page_heap \<Rightarrow> nat \<Rightarrow> nat" where
  "object_size L h c = (case object_extent L h c of None \<Rightarrow> 0 | Some (b, sz) \<Rightarrow> sz)"

definition relocated ::
  "heap_layout \<Rightarrow> generation \<Rightarrow> page_heap \<Rightarrow> page_heap \<Rightarrow> (nat \<Rightarrow> nat option) \<Rightarrow> bool" where
  "relocated L dest_gen h0 h \<phi> \<longleftrightarrow>
     alloc_ok h \<and> tidy (start_bits h) \<and> n_pages h = n_pages h0 \<and> base_ptr h = base_ptr h0 \<and>
     mark_bits h = mark_bits h0 \<and> pinned_cells h = pinned_cells h0 \<and>
     (\<forall>p < n_pages h0. pgen (descs h0 ! p) \<noteq> Gen_Free \<longrightarrow>
        (\<exists>w. descs h ! p = (descs h0 ! p)\<lparr>words_used := w\<rparr>)) \<and>
     (\<forall>x. cell_used h0 x \<longrightarrow> cell_used h x \<and>
        is_start_at (start_bits h) x = is_start_at (start_bits h0) x \<and>
        is_cons_start_at (start_bits h) x = is_cons_start_at (start_bits h0) x \<and>
        (\<phi> x = None \<longrightarrow> cells h x = cells h0 x)) \<and>
     (\<forall>x. cell_used h x \<longrightarrow> cell_used h0 x \<or> in_gen h dest_gen x) \<and>
     (\<forall>c d. \<phi> c = Some d \<longrightarrow> cell_used h0 c \<and> copied_object L dest_gen h0 h c d) \<and>
     (\<forall>c c' d d'. \<phi> c = Some d \<and> \<phi> c' = Some d' \<and> c \<noteq> c' \<longrightarrow>
        d + object_size L h0 c \<le> d' \<or> d' + object_size L h0 c' \<le> d)"

lemma relocated_empty:
  assumes "alloc_ok h" "tidy (start_bits h)"
  shows "relocated L dest_gen h h (\<lambda>_. None)"
proof -
  have "\<exists>w. d = d\<lparr>words_used := w\<rparr>" for d :: page_desc by (intro exI [of _ "words_used d"]) simp
  then show ?thesis using assms by (simp add: relocated_def)
qed

lemma relocatedD:
  assumes "relocated L dest_gen h0 h \<phi>"
  shows "alloc_ok h" "tidy (start_bits h)" "n_pages h = n_pages h0" "base_ptr h = base_ptr h0"
    "mark_bits h = mark_bits h0" "pinned_cells h = pinned_cells h0"
    "\<And>p. p < n_pages h0 \<Longrightarrow> pgen (descs h0 ! p) \<noteq> Gen_Free \<Longrightarrow>
        \<exists>w. descs h ! p = (descs h0 ! p)\<lparr>words_used := w\<rparr>"
    "\<And>y. cell_used h0 y \<Longrightarrow> cell_used h y \<and>
        is_start_at (start_bits h) y = is_start_at (start_bits h0) y \<and>
        is_cons_start_at (start_bits h) y = is_cons_start_at (start_bits h0) y \<and>
        (\<phi> y = None \<longrightarrow> cells h y = cells h0 y)"
    "\<And>y. cell_used h y \<Longrightarrow> cell_used h0 y \<or> in_gen h dest_gen y"
    "\<And>c d. \<phi> c = Some d \<Longrightarrow> cell_used h0 c \<and> copied_object L dest_gen h0 h c d"
    "\<And>c c' d d'. \<phi> c = Some d \<Longrightarrow> \<phi> c' = Some d' \<Longrightarrow> c \<noteq> c' \<Longrightarrow>
        d + object_size L h0 c \<le> d' \<or> d' + object_size L h0 c' \<le> d"
  using assms unfolding relocated_def by blast+

lemma descs_after_alloc:
  assumes "relocated L dest_gen h0 h \<phi>" "alloc_frame h h1" "p < n_pages h0" "pgen (descs h0 ! p) \<noteq> Gen_Free"
  shows "\<exists>w. descs h1 ! p = (descs h0 ! p)\<lparr>words_used := w\<rparr>"
proof -
  obtain w where w: "descs h ! p = (descs h0 ! p)\<lparr>words_used := w\<rparr>"
    using relocatedD(7) [OF assms(1,3,4)] by blast
  then have "p < n_pages h \<and> pgen (descs h ! p) \<noteq> Gen_Free"
    using assms(3,4) relocatedD(3) [OF assms(1)] by simp
  then obtain w' where "descs h1 ! p = (descs h ! p)\<lparr>words_used := w'\<rparr>"
    using assms(2) unfolding alloc_frame_def by blast
  then show ?thesis using w by (intro exI [of _ w']) simp
qed

lemma alloc_copy_object:
  assumes ok: "alloc_ok h" and td: "tidy (start_bits h)" and e: "object_extent L h0 c = Some (as_cons, sz)"
    and a: "alloc_copy h g as_cons sz = Some (Some a, h1)"
  shows "alloc_ok h1" "alloc_frame h h1" "0 < sz"
    "\<exists>d k. a = cell_addr h d \<and> grants h h1 d sz \<and> object_placed h1 d sz g k as_cons \<and>
      is_cons_start_at (start_bits h1) d = as_cons"
proof -
  have sz: "0 < sz" by (rule alloc_copy_size [OF e a])
  obtain k where t: "try_alloc_in_region h g k sz as_cons = Some (Some a, h1)"
    using a e by (auto simp: alloc_copy_def try_alloc_cons_in_def try_alloc_boxed_in_def object_extent_def Let_def
        split: if_splits)
  show "alloc_ok h1" "alloc_frame h h1" "0 < sz"
    using try_alloc_in_region_ok [OF ok sz t] try_alloc_frame [OF ok t] sz by simp_all
  show "\<exists>d k. a = cell_addr h d \<and> grants h h1 d sz \<and> object_placed h1 d sz g k as_cons \<and>
      is_cons_start_at (start_bits h1) d = as_cons"
    using try_alloc_object [OF ok sz td t] by blast
qed

lemma install_copy_sel [simp]:
  "n_pages (install_copy L c a n h) = n_pages h" "base_ptr (install_copy L c a n h) = base_ptr h"
  "descs (install_copy L c a n h) = descs h" "start_bits (install_copy L c a n h) = start_bits h"
  "mark_bits (install_copy L c a n h) = mark_bits h" "pinned_cells (install_copy L c a n h) = pinned_cells h"
  "cell_used (install_copy L c a n h) x = cell_used h x"
  by (simp_all add: install_copy_def Let_def cell_used_def)

lemma mark_byte_range_covers:
  assumes "reservation_ok h" "d + n \<le> total_cells_of h" "i < n"
  shows "is_dirty (mark_byte_range (cards h) (8 * d) (8 * d + n * 8)) (8 * (d + i) div CARD_SIZE_BYTES)"
proof (rule is_dirty_mark_byte_range)
  have "d + i < n_pages h * 8192" using assms(2,3) by (simp add: total_cells_of_def PAGE_SIZE_CELLS_num)
  then have "8 * (d + i) < (n_pages h * 128) * 512" by simp
  then have "8 * (d + i) div 512 < n_pages h * 128" by (simp only: div_less_iff_less_mult)
  then show "8 * (d + i) div CARD_SIZE_BYTES < n_cards (cards h)"
    using assms(1) by (simp add: reservation_ok_def CARD_SIZE_BYTES_def cards_per_page_def PAGE_SIZE_CELLS_num
        CARD_SIZE_CELLS_def)
qed (use assms(3) in auto)

lemma install_copy_facts:
  assumes ok: "alloc_ok h" and d: "a = cell_addr h d" "d + n \<le> total_cells_of h" "0 < n"
    and used: "\<And>i. i < n \<Longrightarrow> cell_used h (d + i)" "cell_used h c" and apart: "c < d \<or> d + n \<le> c"
  shows "alloc_ok (install_copy L c a n h)"
    "cells (install_copy L c a n h) x =
      (if x = c then make_forward L a else if d \<le> x \<and> x < d + n then cells h (c + (x - d)) else cells h x)"
    "is_dirty (cards h) k \<Longrightarrow> is_dirty (cards (install_copy L c a n h)) k"
    "i < n \<Longrightarrow> is_dirty (cards (install_copy L c a n h)) (8 * (d + i) div CARD_SIZE_BYTES)"
proof -
  have r: "reservation_ok h" by (rule alloc_okD(1) [OF ok])
  have lt: "d < total_cells_of h" using d(2,3) by simp
  have ci: "cell_index h a = d" using cell_index_addr [OF r lt] by (simp add: d(1))
  have off: "unat a - unat (base_ptr h) = 8 * d"
    using unat_base_offset [OF r cell_in_reservation [OF lt]] by (simp add: d(1) cell_addr_def)
  have eq: "install_copy L c a n h =
      h\<lparr>cells := (copy_range (cells h) c d n)(c := make_forward L a),
        cards := mark_byte_range (cards h) (8 * d) (8 * d + n * 8)\<rparr>"
    by (simp add: install_copy_def Let_def ci off)
  show "cells (install_copy L c a n h) x =
      (if x = c then make_forward L a else if d \<le> x \<and> x < d + n then cells h (c + (x - d)) else cells h x)" for x
    by (simp add: eq copy_range_def)
  show "alloc_ok (install_copy L c a n h)"
    unfolding eq
  proof (rule alloc_ok_cells [OF ok])
    fix x assume u: "\<not> cell_used h x"
    then have "x \<noteq> c" "\<not> (d \<le> x \<and> x < d + n)"
      using used(2) used(1) [of "x - d"] by (auto, metis add_diff_inverse_nat less_diff_conv2 linorder_not_less add.commute)
    then show "((copy_range (cells h) c d n)(c := make_forward L a)) x = cells h x"
      by (auto simp: copy_range_def)
  qed simp
  show "is_dirty (cards h) k \<Longrightarrow> is_dirty (cards (install_copy L c a n h)) k"
    by (simp add: eq mark_byte_range_mono)
  show "i < n \<Longrightarrow> is_dirty (cards (install_copy L c a n h)) (8 * (d + i) div CARD_SIZE_BYTES)"
    using mark_byte_range_covers [OF r d(2)] by (simp add: eq)
qed

text \<open>The copy of an earlier object survives an allocation and a copy that do not touch it.\<close>

lemma copied_object_mono:
  assumes c: "copied_object L dest_gen h0 h c d"
    and keep: "\<And>x. cell_used h x \<Longrightarrow> \<not> cell_used h0 x \<or> x = c \<Longrightarrow> cell_used h' x \<and> cells h' x = cells h x \<and>
        is_start_at (start_bits h') x = is_start_at (start_bits h) x \<and>
        is_cons_start_at (start_bits h') x = is_cons_start_at (start_bits h) x"
    and cards: "\<And>k. is_dirty (cards h) k \<Longrightarrow> is_dirty (cards h') k"
    and gens: "\<And>x g. cell_used h x \<Longrightarrow> in_gen h g x \<Longrightarrow> in_gen h' g x" and u: "cell_used h c"
  shows "copied_object L dest_gen h0 h' c d"
proof -
  obtain sz where sz: "object_extent L h0 c = Some (is_cons_start_at (start_bits h0) c, sz)" "0 < sz"
    "d + sz \<le> total_cells_of h0"
    and i: "\<forall>i < sz. \<not> cell_used h0 (d + i) \<and> cell_used h (d + i) \<and> cells h (d + i) = cells h0 (c + i) \<and>
           is_start_at (start_bits h) (d + i) = (i = 0) \<and>
           is_dirty (cards h) (8 * (d + i) div CARD_SIZE_BYTES)"
    and e: "is_cons_start_at (start_bits h) d = is_cons_start_at (start_bits h0) c"
    "in_gen h dest_gen d" "cells h c = make_forward L (cell_addr h0 d)"
    using c by (auto simp: copied_object_def)
  have d: "cell_used h d" "\<not> cell_used h0 d" using i sz(2) by auto
  show ?thesis
    unfolding copied_object_def
    using sz i e cards keep gens [OF d(1)] keep [OF d(1)] keep [OF u] d by (auto intro!: exI [of _ sz])
qed

lemma alloc_frame_in_gen:
  assumes "alloc_frame h h'" "n_pages h' = n_pages h" "cell_used h x"
  shows "in_gen h' g x = in_gen h g x"
proof -
  have p: "x div PAGE_SIZE_CELLS < n_pages h" "pgen (descs h ! (x div PAGE_SIZE_CELLS)) \<noteq> Gen_Free"
    using assms(3) by (simp_all add: cell_used_def)
  obtain w where "descs h' ! (x div PAGE_SIZE_CELLS) = (descs h ! (x div PAGE_SIZE_CELLS))\<lparr>words_used := w\<rparr>"
    using assms(1) p by (auto simp: alloc_frame_def)
  then show ?thesis using assms(2) by (simp add: in_gen_def)
qed

lemma relocated_step:
  assumes R: "relocated L dest_gen h0 h \<phi>"
    and x: "cell_used h0 x" "object_extent L h0 x = Some (as_cons, sz)"
    and body: "\<And>i. i < sz \<Longrightarrow> cell_used h0 (x + i) \<and> \<phi> (x + i) = None"
    and a: "alloc_copy h dest_gen as_cons sz = Some (Some a, h1)"
  shows "\<exists>d. relocated L dest_gen h0 (install_copy L x a sz h1) (\<phi>(x \<mapsto> d))"
proof -
  note ok = relocatedD(1) [OF R] and td = relocatedD(2) [OF R] and np = relocatedD(3,4) [OF R]
    and frame = relocatedD(8) [OF R] and newgen = relocatedD(9) [OF R] and old = relocatedD(10) [OF R]
    and dis = relocatedD(11) [OF R]
  note ac = alloc_copy_object [OF ok td x(2) a]
  obtain d k where d: "a = cell_addr h d" "grants h h1 d sz" "object_placed h1 d sz dest_gen k as_cons"
    "is_cons_start_at (start_bits h1) d = as_cons"
    using ac(4) by blast
  have g: "n_pages h1 = n_pages h" "base_ptr h1 = base_ptr h" "d + sz \<le> total_cells_of h"
    "\<And>y. cell_used h1 y \<longleftrightarrow> cell_used h y \<or> (d \<le> y \<and> y < d + sz)"
    "\<And>y. d \<le> y \<Longrightarrow> y < d + sz \<Longrightarrow> \<not> cell_used h y"
    "\<And>y. cell_used h y \<Longrightarrow> cells h1 y = cells h y \<and>
        is_start_at (start_bits h1) y = is_start_at (start_bits h) y \<and>
        is_cons_start_at (start_bits h1) y = is_cons_start_at (start_bits h) y"
    using d(2) unfolding grants_def by blast+
  have xh: "cell_used h x" using frame [OF x(1)] by blast
  have apart: "x < d \<or> d + sz \<le> x" using g(5) [of x] xh linorder_not_less by blast
  have a1: "a = cell_addr h1 d" using d(1) g(2) by (simp add: cell_addr_def)
  have d1: "d + sz \<le> total_cells_of h1" using g(1,3) by (simp add: total_cells_of_def)
  have u1: "cell_used h1 (d + i)" if "i < sz" for i using g(4) that by simp
  have ux: "cell_used h1 x" using g(4) xh by simp
  let ?h2 = "install_copy L x a sz h1"
  note ic = install_copy_facts [where L = L and c = x, OF ac(1) a1 d1 ac(3) u1 ux apart]
  have keep: "cells ?h2 y = cells h y" if "cell_used h y" "y \<noteq> x" for y
    using ic(2) [of y] that g(5,6) [of y] by auto
  have b: "as_cons = is_cons_start_at (start_bits h0) x"
    using x(2) by (auto simp: object_extent_def Let_def split: if_splits)
  have dgen: "in_gen ?h2 dest_gen y" if "d \<le> y" "y < d + sz" for y
  proof -
    have "y div PAGE_SIZE_CELLS = d div PAGE_SIZE_CELLS"
      using d(3) that div_le_mono [OF that(1), of PAGE_SIZE_CELLS] div_le_mono [of y "d + sz - 1" PAGE_SIZE_CELLS]
      by (simp add: object_placed_def)
    moreover have "pgen (descs h1 ! (d div PAGE_SIZE_CELLS)) = dest_gen" using d(3) unfolding object_placed_def by blast
    moreover have "d div PAGE_SIZE_CELLS < n_pages h1"
      using d1 ac(3) by (simp add: total_cells_of_def page_cell_bound)
    ultimately show ?thesis by (simp add: in_gen_def)
  qed
  have new: "copied_object L dest_gen h0 ?h2 x d"
  proof -
    have "\<not> cell_used h0 (d + i)" if "i < sz" for i using frame [of "d + i"] g(5) [of "d + i"] that by auto
    moreover have "cells ?h2 (d + i) = cells h0 (x + i)" if "i < sz" for i
      using ic(2) [of "d + i"] apart that body [OF that] frame [of "x + i"] g(6) [of "x + i"] by auto
    moreover have "is_start_at (start_bits ?h2) (d + i) = (i = 0)" if "i < sz" for i
      using d(3) that by (simp add: object_placed_def)
    moreover have "cells ?h2 x = make_forward L (cell_addr h0 d)"
      using ic(2) [of x] d(1) np(2) by (simp add: cell_addr_def)
    moreover have "in_gen ?h2 dest_gen d" using dgen [of d] ac(3) by simp
    ultimately show ?thesis
      unfolding copied_object_def
      using x(2) b ac(3) d1 g(1) np(1) u1 ic(4) d(4) by (auto simp: total_cells_of_def intro!: exI [of _ sz])
  qed
  have gens: "in_gen ?h2 gg y" if "cell_used h y" "in_gen h gg y" for y gg
    using alloc_frame_in_gen [OF ac(2) g(1) that(1)] that(2) by (simp add: in_gen_def)
  have phx: "\<phi> x = None" using body [of 0] ac(3) by simp
  have others: "copied_object L dest_gen h0 ?h2 c e" if "\<phi> c = Some e" for c e
  proof (rule copied_object_mono)
    show "copied_object L dest_gen h0 h c e" using old [OF that] by blast
    show "cell_used h c" using old [OF that] frame by blast
    have "c \<noteq> x" using that phx by auto
    then show "cell_used ?h2 y \<and> cells ?h2 y = cells h y \<and>
        is_start_at (start_bits ?h2) y = is_start_at (start_bits h) y \<and>
        is_cons_start_at (start_bits ?h2) y = is_cons_start_at (start_bits h) y"
      if "cell_used h y" "\<not> cell_used h0 y \<or> y = c" for y
      using that keep [of y] g(4,6) [of y] x(1) by auto
    show "is_dirty (cards h) j \<Longrightarrow> is_dirty (cards ?h2) j" for j
      using ic(3) ac(2) by (simp add: alloc_frame_def)
  qed (rule gens)
  have size: "object_size L h0 x = sz" by (simp add: object_size_def x(2))
  have far: "d + sz \<le> e \<or> e + object_size L h0 c \<le> d" if "\<phi> c = Some e" for c e
  proof -
    have "cell_used h (e + i)" if "i < object_size L h0 c" for i
      using old [OF \<open>\<phi> c = Some e\<close>] that by (auto simp: copied_object_def object_size_def)
    then have "\<not> (d \<le> e + i \<and> e + i < d + sz)" if "i < object_size L h0 c" for i using g(5) that by blast
    moreover have "0 < object_size L h0 c"
      using old [OF that] by (auto simp: copied_object_def object_size_def)
    ultimately have "\<not> (d \<le> e \<and> e < d + sz)" "\<not> (e \<le> d \<and> d < e + object_size L h0 c)"
      using ac(3) by (metis add.right_neutral, metis add_diff_inverse_nat le_add1 less_add_same_cancel1 less_diff_conv2
          linorder_not_less nat_add_left_cancel_less order_refl)
    then show ?thesis by linarith
  qed
  have "relocated L dest_gen h0 ?h2 (\<phi>(x \<mapsto> d))"
    unfolding relocated_def
  proof (intro conjI allI impI)
    show "alloc_ok ?h2" by (rule ic(1))
    show "tidy (start_bits ?h2)" using ac(2) td by (simp add: alloc_frame_def)
    show "n_pages ?h2 = n_pages h0" "base_ptr ?h2 = base_ptr h0" using g np by simp_all
    show "mark_bits ?h2 = mark_bits h0" "pinned_cells ?h2 = pinned_cells h0"
      using R ac(2) by (simp_all add: relocated_def alloc_frame_def)
    show "\<exists>w. descs ?h2 ! p = (descs h0 ! p)\<lparr>words_used := w\<rparr>"
      if p: "p < n_pages h0" "pgen (descs h0 ! p) \<noteq> Gen_Free" for p
      using descs_after_alloc [OF R ac(2) p] by simp
    fix y assume y: "cell_used h0 y"
    note f = frame [OF y]
    show "cell_used ?h2 y" "is_start_at (start_bits ?h2) y = is_start_at (start_bits h0) y"
      "is_cons_start_at (start_bits ?h2) y = is_cons_start_at (start_bits h0) y"
      using f g(4,6) [of y] by auto
    show "cells ?h2 y = cells h0 y" if "(\<phi>(x \<mapsto> d)) y = None"
      using that f keep [of y] by (auto split: if_splits)
  next
    fix y assume "cell_used ?h2 y"
    then show "cell_used h0 y \<or> in_gen ?h2 dest_gen y"
      using g(4) [of y] newgen [of y] gens [of y] dgen [of y] by auto
  next
    fix c e assume "(\<phi>(x \<mapsto> d)) c = Some e"
    then show "cell_used h0 c" "copied_object L dest_gen h0 ?h2 c e"
      using x(1) new old others by (auto split: if_splits)
  next
    fix c c' e e' assume "(\<phi>(x \<mapsto> d)) c = Some e \<and> (\<phi>(x \<mapsto> d)) c' = Some e' \<and> c \<noteq> c'"
    then show "e + object_size L h0 c \<le> e' \<or> e' + object_size L h0 c' \<le> e"
      using far dis size by (auto split: if_splits)
  qed
  then show ?thesis by blast
qed

lemma relocated_same_used:
  assumes R: "relocated L dest_gen h0 h \<phi>" and ok: "alloc_ok h1" and fr: "alloc_frame h h1" and su: "same_used h h1"
  shows "relocated L dest_gen h0 h1 \<phi>"
proof -
  note td = relocatedD(2) [OF R] and np = relocatedD(3,4) [OF R] and frame = relocatedD(8) [OF R]
    and newgen = relocatedD(9) [OF R] and old = relocatedD(10) [OF R] and dis = relocatedD(11) [OF R]
  have n1: "n_pages h1 = n_pages h" "base_ptr h1 = base_ptr h" using su by (simp_all add: same_used_def)
  have same: "cell_used h1 y = cell_used h y" "cell_used h y \<Longrightarrow> cells h1 y = cells h y \<and>
        is_start_at (start_bits h1) y = is_start_at (start_bits h) y \<and>
        is_cons_start_at (start_bits h1) y = is_cons_start_at (start_bits h) y" for y
    using su unfolding same_used_def by blast+
  have gens: "in_gen h1 g y" if "cell_used h y" "in_gen h g y" for g y
    using alloc_frame_in_gen [OF fr n1(1) that(1)] that(2) by simp
  show ?thesis
    unfolding relocated_def
  proof (intro conjI allI impI)
    show "alloc_ok h1" by (rule ok)
    show "tidy (start_bits h1)" using fr td by (simp add: alloc_frame_def)
    show "n_pages h1 = n_pages h0" "base_ptr h1 = base_ptr h0" using n1 np by simp_all
    show "mark_bits h1 = mark_bits h0" "pinned_cells h1 = pinned_cells h0"
      using R fr by (simp_all add: relocated_def alloc_frame_def)
    show "\<exists>w. descs h1 ! p = (descs h0 ! p)\<lparr>words_used := w\<rparr>"
      if p: "p < n_pages h0" "pgen (descs h0 ! p) \<noteq> Gen_Free" for p
      by (rule descs_after_alloc [OF R fr p])
    fix y assume y: "cell_used h0 y"
    note f = frame [OF y]
    show "cell_used h1 y" "is_start_at (start_bits h1) y = is_start_at (start_bits h0) y"
      "is_cons_start_at (start_bits h1) y = is_cons_start_at (start_bits h0) y"
      using f same [of y] by auto
    show "cells h1 y = cells h0 y" if "\<phi> y = None" using that f same [of y] by auto
  next
    fix y assume "cell_used h1 y"
    then show "cell_used h0 y \<or> in_gen h1 dest_gen y" using same(1) [of y] newgen [of y] gens [of y] by auto
  next
    fix c e assume c: "\<phi> c = Some e"
    then show "cell_used h0 c" using old by blast
    show "copied_object L dest_gen h0 h1 c e"
    proof (rule copied_object_mono)
      show "copied_object L dest_gen h0 h c e" "cell_used h c" using old [OF c] frame by blast+
      show "is_dirty (cards h) j \<Longrightarrow> is_dirty (cards h1) j" for j using fr by (simp add: alloc_frame_def)
    qed (use same gens in auto)
  next
    fix c c' e e' assume "\<phi> c = Some e \<and> \<phi> c' = Some e' \<and> c \<noteq> c'"
    then show "e + object_size L h0 c \<le> e' \<or> e' + object_size L h0 c' \<le> e" using dis by blast
  qed
qed

section \<open>The copy loop\<close>

text \<open>What the loop moves: marked objects that are neither pinned nor already moved.\<close>

definition movable :: "heap_layout \<Rightarrow> page_heap \<Rightarrow> nat \<Rightarrow> bool" where
  "movable L h c \<longleftrightarrow> is_marked h c \<and> is_start_at (start_bits h) c \<and> \<not> is_pinned_cell h c \<and>
     is_real_forward_target_at L h c (cells h c) = None"

text \<open>
  Every cell of the range is in use, and every marked object that starts there, unless it has
  moved, has a size, lies in the range and holds no other start.
\<close>

definition objects_in_range :: "heap_layout \<Rightarrow> page_heap \<Rightarrow> nat \<Rightarrow> nat \<Rightarrow> bool" where
  "objects_in_range L h lo hi \<longleftrightarrow>
     (\<forall>y. lo \<le> y \<and> y < hi \<longrightarrow> cell_used h y \<and>
        (is_start_at (start_bits h) y \<and> is_marked h y \<and> is_real_forward_target_at L h y (cells h y) = None \<longrightarrow>
           (\<exists>b sz. object_extent L h y = Some (b, sz) \<and> 0 < sz \<and> y + sz \<le> hi \<and>
              (\<forall>i. 0 < i \<and> i < sz \<longrightarrow> \<not> is_start_at (start_bits h) (y + i)))))"

text \<open>
  What a stretch of the copy does to a heap in which \<open>\<phi>\<close> has already moved: it moves exactly
  \<open>ys\<close> and counts them, or stalls having moved some of them; it never panics and never spins.
\<close>

definition copy_outcome ::
  "heap_layout \<Rightarrow> generation \<Rightarrow> page_heap \<Rightarrow> (nat \<Rightarrow> nat option) \<Rightarrow> nat list \<Rightarrow> nat \<Rightarrow> nat \<Rightarrow>
     gc_abort + (page_heap \<times> nat \<times> nat) \<Rightarrow> bool" where
  "copy_outcome L dest_gen h0 \<phi> ys objs ncells r =
     (case r of
        Inr (h', objs', ncells') \<Rightarrow>
          objs' = objs + length ys \<and> ncells' = ncells + sum_list (map (object_size L h0) ys) \<and>
          (\<exists>\<phi>'. relocated L dest_gen h0 h' \<phi>' \<and> dom \<phi>' = dom \<phi> \<union> set ys)
      | Inl (Stall e h') \<Rightarrow> (\<exists>\<phi>'. relocated L dest_gen h0 h' \<phi>' \<and> dom \<phi> \<subseteq> dom \<phi>' \<and> dom \<phi>' \<subseteq> dom \<phi> \<union> set ys)
      | Inl _ \<Rightarrow> False)"

lemma copy_outcome_Cons:
  assumes "copy_outcome L g h0 (\<phi>(x \<mapsto> d)) ys (objs + 1) (ncells + object_size L h0 x) r"
  shows "copy_outcome L g h0 \<phi> (x # ys) objs ncells r"
  using assms by (fastforce simp: copy_outcome_def split: sum.splits gc_abort.splits)

lemma copy_outcome_stall:
  "relocated L g h0 h \<phi> \<Longrightarrow> copy_outcome L g h0 \<phi> ys objs ncells (Inl (Stall e h))"
  by (auto simp: copy_outcome_def)

lemma copy_outcome_done:
  "relocated L g h0 h \<phi> \<Longrightarrow> copy_outcome L g h0 \<phi> [] objs ncells (Inr (h, objs, ncells))"
  by (auto simp: copy_outcome_def)

lemma relocated_reads:
  assumes R: "relocated L g h0 h \<phi>" and y: "cell_used h0 y"
  shows "is_marked h y = is_marked h0 y" "is_start_at (start_bits h) y = is_start_at (start_bits h0) y"
    "is_pinned_cell h y = is_pinned_cell h0 y"
    "\<phi> y = None \<Longrightarrow> is_real_forward_target_at L h y (cells h y) = is_real_forward_target_at L h0 y (cells h0 y)"
    "\<phi> y = None \<Longrightarrow> object_extent L h y = object_extent L h0 y"
proof -
  note f = relocatedD(8) [OF R y]
  have p: "y div PAGE_SIZE_CELLS < n_pages h0" "pgen (descs h0 ! (y div PAGE_SIZE_CELLS)) \<noteq> Gen_Free"
    using y by (simp_all add: cell_used_def)
  obtain w where w: "descs h ! (y div PAGE_SIZE_CELLS) = (descs h0 ! (y div PAGE_SIZE_CELLS))\<lparr>words_used := w\<rparr>"
    using relocatedD(7) [OF R p] by blast
  show "is_marked h y = is_marked h0 y" by (simp add: is_marked_def relocatedD(5) [OF R])
  show "is_start_at (start_bits h) y = is_start_at (start_bits h0) y" using f by blast
  show "is_pinned_cell h y = is_pinned_cell h0 y"
    using w relocatedD(3,6) [OF R] by (simp add: is_pinned_cell_def desc_def is_pinned_def Let_def)
  show "is_real_forward_target_at L h y (cells h y) = is_real_forward_target_at L h0 y (cells h0 y)" if "\<phi> y = None"
    using f that relocatedD(3,4) [OF R]
    by (simp add: is_real_forward_target_at_def page_of_def reserved_bytes_def split: word_kind.splits)
  show "object_extent L h y = object_extent L h0 y" if "\<phi> y = None"
    using f that by (simp add: object_extent_def Let_def)
qed

lemma filter_object:
  assumes "P x" "0 < sz" "\<And>i. 0 < i \<Longrightarrow> i < sz \<Longrightarrow> \<not> P (x + i)" "x + sz \<le> n"
  shows "filter P [x..<n] = x # filter P [x + sz..<n]"
proof -
  have "[x..<n] = x # [x + 1..<x + sz] @ [x + sz..<n]"
    using assms(2,4) by (metis Suc_eq_plus1 Suc_leI less_add_same_cancel1 le_iff_add less_le_trans upt_add_eq_append upt_conv_Cons)
  moreover have "\<not> P y" if "y \<in> set [x + 1..<x + sz]" for y
  proof -
    have "0 < y - x" "y - x < sz" "x + (y - x) = y" using that by auto
    then show ?thesis using assms(3) [of "y - x"] by simp
  qed
  ultimately show ?thesis using assms(1) by (simp del: upt_Suc upt.simps)
qed

lemma upt_skip:
  assumes "x + sz \<le> n" "\<And>i. i < sz \<Longrightarrow> \<not> P (x + i)"
  shows "filter P [x..<n] = filter P [x + sz..<n]"
proof -
  have "[x..<n] = [x..<x + sz] @ [x + sz..<n]"
    using assms(1) upt_add_eq_append [of x "x + sz" "n - (x + sz)"] by simp
  moreover have "\<not> P y" if "y \<in> set [x..<x + sz]" for y
  proof -
    have "y - x < sz" "x + (y - x) = y" using that by auto
    then show ?thesis using assms(2) [of "y - x"] by simp
  qed
  ultimately show ?thesis by (simp del: upt_Suc upt.simps)
qed

lemma alloc_copy_none:
  assumes ok: "alloc_ok h" and e: "object_extent L h c = Some (as_cons, sz)" and g: "g \<noteq> Gen_Free"
  shows "alloc_copy h g as_cons sz \<noteq> None"
    "0 < sz \<Longrightarrow> alloc_copy h g as_cons sz = Some (None, h') \<Longrightarrow> alloc_ok h' \<and> same_used h h' \<and> alloc_frame h h'"
proof -
  have r: "alloc_region h g k \<noteq> None" if "k \<noteq> Kind_Large \<and> k \<noteq> Kind_Free" for k
    using g that by (cases g; cases k) (simp_all add: alloc_region_def)
  show "alloc_copy h g as_cons sz \<noteq> None"
  proof -
    obtain p q p' q' where "try_alloc_in_region h g Kind_Cons 2 True = Some (p, q)"
      "try_alloc_in_region h g Kind_Boxed sz False = Some (p', q')"
      using try_alloc_defined [OF ok r] by (metis page_kind.distinct)
    then show ?thesis by (simp add: alloc_copy_def try_alloc_cons_in_def try_alloc_boxed_in_def)
  qed
  assume sz: "0 < sz" and a: "alloc_copy h g as_cons sz = Some (None, h')"
  consider "h' = h" | k where "try_alloc_in_region h g k sz as_cons = Some (None, h')"
  proof (cases as_cons)
    case True
    have "sz = 2" using e True by (simp add: object_extent_def Let_def split: if_splits)
    then have "try_alloc_in_region h g Kind_Cons sz as_cons = Some (None, h')"
      using a True by (simp add: alloc_copy_def try_alloc_cons_in_def)
    then show ?thesis using that(2) by blast
  next
    case False
    then have "h' = h \<or> try_alloc_in_region h g Kind_Boxed sz as_cons = Some (None, h')"
      using a by (simp add: alloc_copy_def try_alloc_boxed_in_def split: if_splits)
    then show ?thesis using that by blast
  qed
  then show "alloc_ok h' \<and> same_used h h' \<and> alloc_frame h h'"
  proof cases
    case 1
    then show ?thesis using ok by simp
  next
    case 2
    then show ?thesis using try_alloc_in_region_ok [OF ok sz 2] try_alloc_frame [OF ok 2] by simp
  qed
qed

lemma objects_in_range_start:
  assumes "objects_in_range L h lo hi" "lo \<le> y" "y < hi"
    and "is_start_at (start_bits h) y \<and> is_marked h y \<and> is_real_forward_target_at L h y (cells h y) = None"
  shows "\<exists>b sz. object_extent L h y = Some (b, sz) \<and> 0 < sz \<and> y + sz \<le> hi \<and>
      (\<forall>i. 0 < i \<and> i < sz \<longrightarrow> \<not> is_start_at (start_bits h) (y + i))"
  using assms unfolding objects_in_range_def by blast

lemma objects_in_range_later:
  "objects_in_range L h lo hi \<Longrightarrow> lo \<le> lo' \<Longrightarrow> objects_in_range L h lo' hi"
  by (auto simp: objects_in_range_def)

lemma copy_loop_outcome:
  assumes "relocated L g h0 h \<phi>" "\<And>y. lo \<le> y \<Longrightarrow> y < hi \<Longrightarrow> \<phi> y = None" "objects_in_range L h0 lo hi"
    and g: "g \<noteq> Gen_Free"
  shows "copy_outcome L g h0 \<phi> (filter (movable L h0) [lo..<hi]) objs ncells (copy_loop L f g tot hi lo (h, objs, ncells))"
  using assms(1-3)
proof (induction "hi - lo" arbitrary: lo h \<phi> objs ncells rule: less_induct)
  case less
  note R = less.prems(1) and free = less.prems(2) and ir = less.prems(3)
  obtain o0 c0 f0 where tot: "tot = (o0, c0, f0)" by (cases tot)
  show ?case
  proof (cases "lo < hi")
    case False
    then show ?thesis using copy_outcome_done [OF R] by (simp add: tot copy_loop.simps)
  next
    case lt: True
    have u: "cell_used h0 lo" using ir lt by (simp add: objects_in_range_def)
    note rd = relocated_reads [OF R u] and un = free [OF order_refl lt]
    have skip: "copy_outcome L g h0 \<phi> (filter (movable L h0) [lo..<hi]) objs ncells
        (copy_loop L f g tot hi (lo + 1) (h, objs, ncells))" if "\<not> movable L h0 lo"
      using less.hyps [OF _ R, of "lo + 1" objs ncells] that lt free objects_in_range_later [OF ir, of "lo + 1"]
      by (simp add: upt_conv_Cons diff_less_mono2)
    show ?thesis
    proof (cases "is_marked h lo \<and> is_start_at (start_bits h) lo \<and> is_real_forward_target_at L h lo (cells h lo) = None")
      case False
      then have "\<not> movable L h0 lo" using rd un by (auto simp: movable_def)
      then show ?thesis using skip False lt by (auto simp: tot copy_loop.simps [of L f g _ _ _ hi lo])
    next
      case obj: True
      obtain b sz where e: "object_extent L h0 lo = Some (b, sz)" "0 < sz" "lo + sz \<le> hi"
        "\<And>i. 0 < i \<Longrightarrow> i < sz \<Longrightarrow> \<not> is_start_at (start_bits h0) (lo + i)"
        using objects_in_range_start [OF ir order_refl lt] obj rd un by auto
      have eh: "object_extent L h lo = Some (b, sz)" using rd(5) un e(1) by simp
      have inner: "\<not> movable L h0 (lo + i)" if "0 < i" "i < sz" for i using e(4) that by (simp add: movable_def)
      have next_ok: "hi - (lo + sz) < hi - lo" "objects_in_range L h0 (lo + sz) hi"
        using e(2) lt objects_in_range_later [OF ir] by auto
      have unf: "copy_loop L f g tot hi lo (h, objs, ncells) =
          (if is_pinned_cell h lo then copy_loop L f g tot hi (lo + sz) (h, objs, ncells)
           else (case alloc_copy h g b sz of
                  None \<Rightarrow> Inl Panic
                | Some (None, h) \<Rightarrow> Inl (Stall (mid_evac_oom h f g sz (if b then Kind_Cons else Kind_Boxed)
                                  (o0 + objs) (c0 + ncells) f0) h)
                | Some (Some dest_ptr, h) \<Rightarrow>
                    copy_loop L f g tot hi (lo + sz) (install_copy L lo dest_ptr sz h, objs + 1, ncells + sz)))"
        using lt obj eh e(2) unfolding tot by (subst copy_loop.simps) simp
      show ?thesis
      proof (cases "is_pinned_cell h0 lo")
        case True
        have "\<not> movable L h0 (lo + i)" if "i < sz" for i
          using inner [of i] that True by (cases "i = 0") (simp_all add: movable_def)
        then have "filter (movable L h0) [lo..<hi] = filter (movable L h0) [lo + sz..<hi]"
          using e(3) by (simp add: upt_skip)
        then show ?thesis
          using less.hyps [OF next_ok(1) R _ next_ok(2), of objs ncells] free unf rd(3) True by simp
      next
        case False
        have mv: "movable L h0 lo" using False obj rd un by (simp add: movable_def)
        have fl: "filter (movable L h0) [lo..<hi] = lo # filter (movable L h0) [lo + sz..<hi]"
          by (rule filter_object [where P = "movable L h0", OF mv e(2) inner e(3)])
        have "alloc_copy h g b sz \<noteq> None" by (rule alloc_copy_none(1) [OF relocatedD(1) [OF R] eh g])
        then obtain res h1 where a: "alloc_copy h g b sz = Some (res, h1)" by auto
        show ?thesis
        proof (cases res)
          case None
          then have "alloc_ok h1 \<and> same_used h h1 \<and> alloc_frame h h1"
            using alloc_copy_none(2) [OF relocatedD(1) [OF R] eh g e(2)] a by simp
          then have "relocated L g h0 h1 \<phi>" using relocated_same_used [OF R] by blast
          then show ?thesis using unf a None False rd(3) by (simp add: copy_outcome_stall)
        next
          case (Some dp)
          have body: "cell_used h0 (lo + i) \<and> \<phi> (lo + i) = None" if "i < sz" for i
            using that e(3) ir free [of "lo + i"] by (simp add: objects_in_range_def)
          obtain d where R': "relocated L g h0 (install_copy L lo dp sz h1) (\<phi>(lo \<mapsto> d))"
            using relocated_step [OF R u e(1) body] a Some by blast
          have size: "object_size L h0 lo = sz" by (simp add: object_size_def e(1))
          have "copy_outcome L g h0 (\<phi>(lo \<mapsto> d)) (filter (movable L h0) [lo + sz..<hi]) (objs + 1) (ncells + sz)
              (copy_loop L f g tot hi (lo + sz) (install_copy L lo dp sz h1, objs + 1, ncells + sz))"
            using less.hyps [OF next_ok(1) R' _ next_ok(2)] free e(2) by simp
          then have "copy_outcome L g h0 \<phi> (lo # filter (movable L h0) [lo + sz..<hi]) objs ncells
              (copy_loop L f g tot hi (lo + sz) (install_copy L lo dp sz h1, objs + 1, ncells + sz))"
            using size by (intro copy_outcome_Cons) simp
          then show ?thesis using unf a Some False rd(3) fl by simp
        qed
      qed
    qed
  qed
qed

section \<open>Pages and chunks\<close>

definition page_objects_ok :: "heap_layout \<Rightarrow> page_heap \<Rightarrow> generation \<Rightarrow> nat \<Rightarrow> bool" where
  "page_objects_ok L h from_gen p \<longleftrightarrow> p < n_pages h \<and> pgen (desc h p) = from_gen \<and>
     (kind (desc h p) \<noteq> Kind_Large \<longrightarrow>
        objects_in_range L h (p * PAGE_SIZE_CELLS) (p * PAGE_SIZE_CELLS + unat (words_used (desc h p))))"

definition page_objects :: "heap_layout \<Rightarrow> page_heap \<Rightarrow> nat \<Rightarrow> nat list" where
  "page_objects L h p =
     (if kind (desc h p) \<noteq> Kind_Large
      then filter (movable L h) [p * PAGE_SIZE_CELLS..<p * PAGE_SIZE_CELLS + unat (words_used (desc h p))]
      else [])"

definition chunk_objects :: "heap_layout \<Rightarrow> page_heap \<Rightarrow> nat list \<Rightarrow> nat list" where
  "chunk_objects L h chunk = concat (map (page_objects L h) chunk)"

text \<open>A page outside the destination generation keeps its descriptor.\<close>

lemma relocated_desc:
  assumes R: "relocated L g h0 h \<phi>" and ok0: "alloc_ok h0" and p: "p < n_pages h0"
    and gens: "pgen (descs h0 ! p) \<noteq> Gen_Free" "pgen (descs h0 ! p) \<noteq> g"
  shows "desc h p = desc h0 p"
proof -
  obtain w where w: "descs h ! p = (descs h0 ! p)\<lparr>words_used := w\<rparr>"
    using relocatedD(7) [OF R p gens(1)] by blast
  let ?u = "unat (words_used (descs h0 ! p))"
  have p': "p < n_pages h" using p relocatedD(3) [OF R] by simp
  have bound: "?u \<le> PAGE_SIZE_CELLS" "unat w \<le> PAGE_SIZE_CELLS"
    using alloc_okD(2) [OF ok0 p] alloc_okD(2) [OF relocatedD(1) [OF R] p'] w gens(1) by (simp_all add: page_ok_def)
  have used: "cell_used h0 (p * PAGE_SIZE_CELLS + i) = (i < ?u)" "cell_used h (p * PAGE_SIZE_CELLS + i) = (i < unat w)"
    if "i < PAGE_SIZE_CELLS" for i
    using that p p' w gens(1) by (simp_all add: cell_used_def)
  have "i < ?u \<longleftrightarrow> i < unat w" if i: "i < PAGE_SIZE_CELLS" for i
    using used [OF i] relocatedD(8) [OF R, of "p * PAGE_SIZE_CELLS + i"] relocatedD(9) [OF R, of "p * PAGE_SIZE_CELLS + i"]
      i w gens by (auto simp: in_gen_def)
  then have "?u = unat w" using bound by (metis linorder_neqE_nat less_le_trans less_irrefl)
  then have "w = words_used (descs h0 ! p)" by (simp add: word_unat_eq_iff)
  then show ?thesis using w by (simp add: desc_def)
qed

lemma copy_outcome_append:
  assumes "relocated L g h0 h' \<phi>'" "dom \<phi>' = dom \<phi> \<union> set xs"
    and "copy_outcome L g h0 \<phi>' ys (objs + length xs) (ncells + sum_list (map (object_size L h0) xs)) r"
  shows "copy_outcome L g h0 \<phi> (xs @ ys) objs ncells r"
proof (cases r)
  case (Inl e)
  then show ?thesis using assms(2,3) by (cases e) (auto simp: copy_outcome_def, blast)
next
  case (Inr s)
  then show ?thesis using assms(2,3) by (cases s) (auto simp: copy_outcome_def Un_assoc)
qed

lemma copy_outcome_cut:
  assumes "copy_outcome L g h0 \<phi> xs objs ncells (Inl e)"
  shows "copy_outcome L g h0 \<phi> (xs @ ys) objs ncells (Inl e)"
  using assms by (cases e) (auto simp: copy_outcome_def, blast)

lemma copy_page_outcome:
  assumes R: "relocated L g h0 h \<phi>" and ok0: "alloc_ok h0" and f: "f \<noteq> Gen_Free" "f \<noteq> g" "g \<noteq> Gen_Free"
    and po: "page_objects_ok L h0 f p" and free: "\<And>y. y div PAGE_SIZE_CELLS = p \<Longrightarrow> \<phi> y = None"
  shows "copy_outcome L g h0 \<phi> (page_objects L h0 p) objs ncells (copy_page L f g tot p (h, objs, ncells))"
proof -
  have p: "p < n_pages h0" and gen: "pgen (desc h0 p) = f" using po by (simp_all add: page_objects_ok_def)
  have d: "desc h p = desc h0 p" using relocated_desc [OF R ok0 p] gen f by (simp add: desc_def)
  show ?thesis
  proof (cases "kind (desc h0 p) = Kind_Large")
    case True
    then show ?thesis
      using copy_outcome_done [OF R] d by (simp add: copy_page_def page_objects_def)
  next
    case False
    have "unat (words_used (desc h0 p)) \<le> PAGE_SIZE_CELLS"
      using alloc_okD(2) [OF ok0 p] gen f(1) by (simp add: page_ok_def desc_def)
    then have none: "\<phi> y = None"
      if "p * PAGE_SIZE_CELLS \<le> y" "y < p * PAGE_SIZE_CELLS + unat (words_used (desc h0 p))" for y
      using free [of y] that page_cell_div [of "y - p * PAGE_SIZE_CELLS" p] by simp
    have "objects_in_range L h0 (p * PAGE_SIZE_CELLS) (p * PAGE_SIZE_CELLS + unat (words_used (desc h0 p)))"
      using po False by (simp add: page_objects_ok_def)
    then show ?thesis
      using copy_loop_outcome [OF R none _ f(3)] False d gen
      by (simp add: copy_page_def page_objects_def Let_def)
  qed
qed

lemma page_objects_page:
  assumes "page_objects_ok L h f p" "alloc_ok h" "f \<noteq> Gen_Free" "y \<in> set (page_objects L h p)"
  shows "y div PAGE_SIZE_CELLS = p"
proof -
  have "p * PAGE_SIZE_CELLS \<le> y" "y < p * PAGE_SIZE_CELLS + unat (words_used (desc h p))"
    using assms(4) by (auto simp: page_objects_def split: if_splits)
  moreover have "unat (words_used (desc h p)) \<le> PAGE_SIZE_CELLS"
    using alloc_okD(2) [OF assms(2), of p] assms(1,3) by (simp add: page_objects_ok_def page_ok_def desc_def)
  ultimately show ?thesis using page_cell_div [of "y - p * PAGE_SIZE_CELLS" p] by simp
qed

lemma copy_chunk_outcome:
  assumes R: "relocated L g h0 h \<phi>" and ok0: "alloc_ok h0" and f: "f \<noteq> Gen_Free" "f \<noteq> g" "g \<noteq> Gen_Free"
    and po: "\<And>p. p \<in> set chunk \<Longrightarrow> page_objects_ok L h0 f p" and "distinct chunk"
    and free: "\<And>y. y div PAGE_SIZE_CELLS \<in> set chunk \<Longrightarrow> \<phi> y = None"
  shows "copy_outcome L g h0 \<phi> (chunk_objects L h0 chunk) objs ncells
    (fold_res (copy_page L f g tot) chunk (h, objs, ncells))"
  using R po \<open>distinct chunk\<close> free
proof (induction chunk arbitrary: h \<phi> objs ncells)
  case Nil
  then show ?case by (simp add: chunk_objects_def copy_outcome_done)
next
  case (Cons p ps)
  let ?xs = "page_objects L h0 p"
  have page: "copy_outcome L g h0 \<phi> ?xs objs ncells (copy_page L f g tot p (h, objs, ncells))"
    using copy_page_outcome [OF Cons.prems(1) ok0 f Cons.prems(2)] Cons.prems(4) by simp
  have split: "chunk_objects L h0 (p # ps) = ?xs @ chunk_objects L h0 ps" by (simp add: chunk_objects_def)
  show ?case
  proof (cases "copy_page L f g tot p (h, objs, ncells)")
    case (Inl e)
    then show ?thesis using page copy_outcome_cut split by simp
  next
    case (Inr s)
    obtain h1 o1 n1 where s: "s = (h1, o1, n1)" by (cases s)
    obtain \<phi>1 where m: "relocated L g h0 h1 \<phi>1" "dom \<phi>1 = dom \<phi> \<union> set ?xs"
      "o1 = objs + length ?xs" "n1 = ncells + sum_list (map (object_size L h0) ?xs)"
      using page Inr s by (auto simp: copy_outcome_def)
    have "\<phi>1 y = None" if y: "y div PAGE_SIZE_CELLS \<in> set ps" for y
    proof -
      have "y \<notin> set ?xs"
        using page_objects_page [OF Cons.prems(2) ok0 f(1)] Cons.prems(3) y by fastforce
      moreover have "\<phi> y = None" using Cons.prems(4) y by simp
      ultimately show ?thesis using m(2) by blast
    qed
    then have "copy_outcome L g h0 \<phi>1 (chunk_objects L h0 ps) o1 n1
        (fold_res (copy_page L f g tot) ps (h1, o1, n1))"
      using Cons.IH [OF m(1)] Cons.prems(2,3) by simp
    then show ?thesis using copy_outcome_append [OF m(1,2)] m(3,4) Inr s split by simp
  qed
qed

section \<open>Following the markers\<close>

lemma relocated_cell_addr:
  assumes "relocated L g h0 h \<phi>" "c < total_cells_of h0"
  shows "page_of h (cell_addr h0 c) = Some (c div PAGE_SIZE_CELLS)" "cell_index h (cell_addr h0 c) = c"
    "cell_addr h0 c AND 7 = 0"
proof -
  have r: "reservation_ok h" by (rule alloc_okD(1) [OF relocatedD(1) [OF assms(1)]])
  have a: "cell_addr h c = cell_addr h0 c" and c: "c < total_cells_of h"
    using relocatedD(3,4) [OF assms(1)] assms(2) by (simp_all add: cell_addr_def total_cells_of_def)
  show "page_of h (cell_addr h0 c) = Some (c div PAGE_SIZE_CELLS)" "cell_index h (cell_addr h0 c) = c"
    "cell_addr h0 c AND 7 = 0"
    using page_of_cell_addr [OF r c] cell_index_addr [OF r c] cell_addr_aligned [OF r, of c] by (simp_all add: a)
qed

lemma used_cell_bound: "cell_used h c \<Longrightarrow> c < total_cells_of h"
  by (simp add: cell_used_def total_cells_of_def page_cell_bound)

context layout_laws
begin

lemma pointer_target_rewrite:
  "pointer_target L w = Some (b, k) \<Longrightarrow> a AND 7 = 0 \<Longrightarrow>
   pointer_target L (rewrite_pointer_addr L w a) = Some (a, k)"
  using rewrite_cons [of w b a] rewrite_header [of w b a]
  by (auto simp: pointer_target_def split: word_kind.splits)

lemma relocated_rewrite:
  assumes R: "relocated L g h0 h \<phi>" and c: "\<phi> c = Some d" "is_start_at (start_bits h0) c"
    and w: "pointer_target L w = Some (cell_addr h0 c, k)"
  shows "maybe_rewrite L h w = Some (rewrite_pointer_addr L w (cell_addr h0 d))"
    "pointer_target L (rewrite_pointer_addr L w (cell_addr h0 d)) = Some (cell_addr h0 d, k)"
proof -
  have u: "cell_used h0 c" and co: "copied_object L g h0 h c d" using relocatedD(10) [OF R c(1)] by blast+
  have d: "d < total_cells_of h0" and m: "cells h c = make_forward L (cell_addr h0 d)"
    using co by (auto simp: copied_object_def)
  note ac = relocated_cell_addr [OF R used_cell_bound [OF u]] and ad = relocated_cell_addr [OF R d]
  show "pointer_target L (rewrite_pointer_addr L w (cell_addr h0 d)) = Some (cell_addr h0 d, k)"
    by (rule pointer_target_rewrite [OF w ad(3)])
  have "is_start_at (start_bits h) c" using relocatedD(8) [OF R u] c(2) by blast
  moreover have "cell_used h c" using relocatedD(8) [OF R u] by blast
  ultimately show "maybe_rewrite L h w = Some (rewrite_pointer_addr L w (cell_addr h0 d))"
    using w ac ad m classify_forward [OF ad(3)]
    by (simp add: maybe_rewrite_def is_real_forward_target_at_def desc_def cell_used_def)
qed

end

section \<open>Properties\<close>

text \<open>
  C2. Phase 1 moves exactly the marked objects. On a heap in good order, when source and destination
  are different generations, a chunk of pages of the source generation is either copied completely: exactly its marked, unpinned objects that have
  not moved yet get a copy in the destination generation and a forwarding marker, copies are
  fresh and disjoint, everything else in use is as it was, and the two tallies are the number of
  objects and of cells moved; or the copy stalls for want of a page, with the same description
  of the part already moved. It neither panics nor fails to advance.
\<close>

theorem phase1_moves_marked_objects:
  assumes "alloc_ok h" "tidy (start_bits h)" "f \<noteq> Gen_Free" "f \<noteq> g" "g \<noteq> Gen_Free" "distinct chunk"
    and "\<And>p. p \<in> set chunk \<Longrightarrow> page_objects_ok L h f p"
  shows "copy_outcome L g h (\<lambda>_. None) (chunk_objects L h chunk) 0 0
    (phase1_copy_chunk L h f g chunk obj0 cell0 freed0)"
  unfolding phase1_copy_chunk_def
  by (rule copy_chunk_outcome [OF relocated_empty [OF assms(1,2)] assms(1,3-5,7,6)]) simp_all

lemma chunk_copied:
  assumes "alloc_ok h" "tidy (start_bits h)" "f \<noteq> Gen_Free" "f \<noteq> g" "g \<noteq> Gen_Free" "distinct chunk"
    and "\<And>p. p \<in> set chunk \<Longrightarrow> page_objects_ok L h f p"
    and "phase1_copy_chunk L h f g chunk obj0 cell0 freed0 = Inr (h', objs, ncells)"
  shows "\<exists>\<phi>. relocated L g h h' \<phi> \<and> dom \<phi> = set (chunk_objects L h chunk)"
proof -
  have "copy_outcome L g h (\<lambda>_. None) (chunk_objects L h chunk) 0 0
      (fold_res (copy_page L f g (obj0, cell0, freed0)) chunk (h, 0, 0))"
    by (rule copy_chunk_outcome [OF relocated_empty [OF assms(1,2)] assms(1,3-5,7,6)]) simp_all
  then show ?thesis using assms(8) by (simp add: phase1_copy_chunk_def copy_outcome_def)
qed

lemma chunk_objects_movable: "c \<in> set (chunk_objects L h chunk) \<Longrightarrow> movable L h c"
  by (auto simp: chunk_objects_def page_objects_def split: if_splits)

text \<open>
  C3. After phase 1 between two different generations the old pointers lead to the copies: a
  pointer to a moved object is rewritten to a pointer of the same kind whose target is a new
  object of the destination generation with the same cells and the same start pair.
\<close>

theorem pointers_follow_the_copies:
  assumes "layout_laws L" "alloc_ok h" "tidy (start_bits h)" "f \<noteq> Gen_Free" "f \<noteq> g" "g \<noteq> Gen_Free"
    and "distinct chunk" "\<And>p. p \<in> set chunk \<Longrightarrow> page_objects_ok L h f p"
    and "phase1_copy_chunk L h f g chunk obj0 cell0 freed0 = Inr (h', objs, ncells)"
    and "c \<in> set (chunk_objects L h chunk)" "pointer_target L w = Some (cell_addr h c, k)"
  shows "\<exists>d w'. maybe_rewrite L h' w = Some w' \<and> pointer_target L w' = Some (cell_addr h d, k) \<and>
    \<not> cell_used h d \<and> in_gen h' g d \<and> is_start_at (start_bits h') d \<and>
    is_cons_start_at (start_bits h') d = is_cons_start_at (start_bits h) c \<and>
    (\<forall>i < object_size L h c. cells h' (d + i) = cells h (c + i))"
proof -
  obtain \<phi> where R: "relocated L g h h' \<phi>" and dm: "dom \<phi> = set (chunk_objects L h chunk)"
    using chunk_copied [OF assms(2-9)] by blast
  obtain d where d: "\<phi> c = Some d" using assms(10) dm by blast
  have s: "is_start_at (start_bits h) c" using chunk_objects_movable [OF assms(10)] by (simp add: movable_def)
  have co: "copied_object L g h h' c d" using relocatedD(10) [OF R d] by blast
  have "\<not> cell_used h d" "is_start_at (start_bits h') d" "in_gen h' g d"
    "is_cons_start_at (start_bits h') d = is_cons_start_at (start_bits h) c"
    "\<forall>i < object_size L h c. cells h' (d + i) = cells h (c + i)"
    using co by (auto simp: copied_object_def object_size_def)
  then show ?thesis
    using layout_laws.relocated_rewrite [OF assms(1) R d s assms(11)] by blast
qed

subsection \<open>A cons to move\<close>

text \<open>The self-referential cons, marked, with a Free page to move to.\<close>

definition marked_cons_heap :: page_heap where
  "marked_cons_heap = (with_reservation 65536 (\<lambda>_. True) 131072)\<lparr>
     committed_bits := bit1_set (\<lambda>_. 0) 0, committed_count := 1, pages_high_water := 1, free_page_list := [1],
     descs := [(desc_fresh G0 Kind_Cons)\<lparr>words_used := 2\<rparr>, desc_FREE],
     start_bits := set_cons_start_bit_at (\<lambda>_. 0) 0, mark_bits := bit1_set (\<lambda>_. 0) 0,
     cells := (\<lambda>_. 0)(0 := lisp_make_pointer 65536 PK_Cons, 1 := lisp_make_pointer 65536 PK_Cons)\<rparr>"

lemma marked_cons_sel:
  "n_pages marked_cons_heap = 2" "base_ptr marked_cons_heap = 65536"
  "descs marked_cons_heap = [(desc_fresh G0 Kind_Cons)\<lparr>words_used := 2\<rparr>, desc_FREE]"
  "pinned_cells marked_cons_heap = []" "free_page_list marked_cons_heap = [1]" "pages_high_water marked_cons_heap = 1"
  "alloc_regions marked_cons_heap = initial_regions" "\<not> poisoned marked_cons_heap"
  "os_answers marked_cons_heap = (\<lambda>_. True)"
  by (simp_all add: marked_cons_heap_def div_ceil_def PAGE_SIZE_BYTES_def, simp add: with_reservation_def Let_def)

lemma marked_cons_bits:
  "is_start_at (start_bits marked_cons_heap) c = (c = 0)" "is_cons_start_at (start_bits marked_cons_heap) c = (c = 0)"
  "is_marked marked_cons_heap c = (c = 0)" "is_committed marked_cons_heap i = (i = 0)"
proof -
  have "\<not> bit1_test (\<lambda>_. 0) j" for j by (simp add: bit1_test_bit)
  then show "is_start_at (start_bits marked_cons_heap) c = (c = 0)"
    "is_cons_start_at (start_bits marked_cons_heap) c = (c = 0)"
    "is_marked marked_cons_heap c = (c = 0)" "is_committed marked_cons_heap i = (i = 0)"
    by (auto simp: marked_cons_heap_def is_marked_def is_committed_def bitmap_simps div_ceil_def PAGE_SIZE_BYTES_def)
qed

lemma marked_cons_cells:
  "cells marked_cons_heap c = (if c < 2 then lisp_make_pointer 65536 PK_Cons else 0)"
  by (auto simp: marked_cons_heap_def less_2_cases_iff)

lemma marked_cons_ok: "alloc_ok marked_cons_heap" "tidy (start_bits marked_cons_heap)"
proof -
  have two: "i < n_pages marked_cons_heap \<longleftrightarrow> i = 0 \<or> i = 1" for i by (auto simp: marked_cons_sel)
  show "alloc_ok marked_cons_heap"
  proof (rule alloc_okI)
    have card1: "{i. is_committed marked_cons_heap i} = {0}" by (auto simp: marked_cons_bits)
    have count: "committed_count marked_cons_heap = 1" by (simp add: marked_cons_heap_def)
    have cards: "n_cards (cards marked_cons_heap) = 2 * cards_per_page"
      by (simp add: marked_cons_heap_def card_table_new_def cards_per_page_def div_ceil_def PAGE_SIZE_BYTES_def
          PAGE_SIZE_CELLS_num CARD_SIZE_BYTES_def CARD_SIZE_CELLS_def)
    have "cells marked_cons_heap c = 0" if "c div PAGE_SIZE_CELLS \<noteq> 0" for c
      using that by (auto simp: marked_cons_cells PAGE_SIZE_CELLS_num less_2_cases_iff)
    then show "reservation_ok marked_cons_heap"
      unfolding reservation_ok_def card1 count cards
      by (simp add: marked_cons_sel marked_cons_bits reserved_bytes_def PAGE_SIZE_BYTES_def)
    show "page_ok marked_cons_heap i" if "i < n_pages marked_cons_heap" for i
    proof -
      have "cells marked_cons_heap c = 0" if "2 \<le> c mod PAGE_SIZE_CELLS" for c
        using that by (auto simp: marked_cons_cells PAGE_SIZE_CELLS_num less_2_cases_iff)
      moreover have "cells marked_cons_heap c = 0" if "c div PAGE_SIZE_CELLS = Suc 0" for c
        using that by (auto simp: marked_cons_cells PAGE_SIZE_CELLS_num less_2_cases_iff)
      moreover have "0 < c" if "2 \<le> c mod PAGE_SIZE_CELLS" for c using that by (cases c) auto
      moreover have "(2::nat) \<le> PAGE_SIZE_CELLS" by (simp add: PAGE_SIZE_CELLS_num)
      ultimately show ?thesis
        using that[unfolded two] by (elim disjE) (auto simp: page_ok_def marked_cons_sel marked_cons_bits desc_fresh_def desc_FREE_def)
    qed
    show "region_ok marked_cons_heap g k" for g k
      by (auto simp: region_ok_def alloc_region_def marked_cons_sel initial_regions_def region_empty_def split: prod.splits)
    show "pgen (descs marked_cons_heap ! i) = Gen_Free"
      if "i < n_pages marked_cons_heap" "pages_high_water marked_cons_heap \<le> i" for i
      using that by (auto simp: two marked_cons_sel)
  qed (simp_all add: marked_cons_sel)
  show "tidy (start_bits marked_cons_heap)" by (auto simp: marked_cons_heap_def)
qed

lemma marked_cons_movable: "movable lisp_layout marked_cons_heap c \<longleftrightarrow> c = 0"
proof -
  have "lisp_classify (lisp_make_pointer 65536 PK_Cons) = PointerCons 65536"
    using lisp.classify_pointer [of 65536 PK_Cons] by simp
  then have "is_real_forward_target_at lisp_layout marked_cons_heap 0 (cells marked_cons_heap 0) = None"
    by (simp add: is_real_forward_target_at_def marked_cons_cells)
  moreover have "\<not> is_pinned_cell marked_cons_heap 0"
    by (simp add: is_pinned_cell_def Let_def marked_cons_sel)
  ultimately show ?thesis by (auto simp: movable_def marked_cons_bits)
qed

lemma marked_cons_page: "page_objects_ok lisp_layout marked_cons_heap G0 0"
  by (auto simp: page_objects_ok_def objects_in_range_def marked_cons_sel marked_cons_bits desc_def cell_used_def
      PAGE_SIZE_CELLS_num object_extent_def)

lemma marked_cons_objects: "chunk_objects lisp_layout marked_cons_heap [0] = [0]"
proof -
  have "[0..<2] = [0::nat, 1]" by (simp add: numeral_2_eq_2)
  then show ?thesis
    by (simp add: chunk_objects_def page_objects_def marked_cons_sel desc_def marked_cons_movable)
qed

theorem phase1_moves_marked_objects_witness:
  "copy_outcome lisp_layout G1 marked_cons_heap (\<lambda>_. None) [0] 0 0
     (phase1_copy_chunk lisp_layout marked_cons_heap G0 G1 [0] 0 0 0)"
  using phase1_moves_marked_objects [OF marked_cons_ok, of G0 G1 "[0]" lisp_layout] marked_cons_page
  by (simp add: marked_cons_objects)

lemma marked_cons_copied:
  "\<exists>h'. phase1_copy_chunk lisp_layout marked_cons_heap G0 G1 [0] 0 0 0 = Inr (h', 1, 2)"
proof -
  obtain a h1 where t: "try_alloc_in_region marked_cons_heap G1 Kind_Cons 2 True = Some (Some a, h1)"
    using small_alloc_succeeds [OF marked_cons_ok(1), of G1 Kind_Cons 1 2 True]
    by (auto simp: alloc_region_def marked_cons_sel young_cap_reached_def PAGE_SIZE_CELLS_num)
  have m: "is_marked marked_cons_heap 0" "is_start_at (start_bits marked_cons_heap) 0"
    "is_real_forward_target_at lisp_layout marked_cons_heap 0 (cells marked_cons_heap 0) = None"
    "\<not> is_pinned_cell marked_cons_heap 0" "object_extent lisp_layout marked_cons_heap 0 = Some (True, 2)"
    using marked_cons_movable [of 0] by (simp_all add: movable_def object_extent_def marked_cons_bits)
  show ?thesis
    by (simp add: phase1_copy_chunk_def copy_page_def desc_def marked_cons_sel copy_loop.simps m alloc_copy_def
        try_alloc_cons_in_def t)
qed

theorem pointers_follow_the_copies_witness:
  "\<exists>h' d w'. phase1_copy_chunk lisp_layout marked_cons_heap G0 G1 [0] 0 0 0 = Inr (h', 1, 2) \<and>
     maybe_rewrite lisp_layout h' (lisp_make_pointer 65536 PK_Cons) = Some w' \<and>
     pointer_target lisp_layout w' = Some (cell_addr marked_cons_heap d, PK_Cons) \<and> in_gen h' G1 d"
proof -
  obtain h' where h': "phase1_copy_chunk lisp_layout marked_cons_heap G0 G1 [0] 0 0 0 = Inr (h', 1, 2)"
    using marked_cons_copied by blast
  have pages: "p \<in> set [0] \<Longrightarrow> page_objects_ok lisp_layout marked_cons_heap G0 p" for p
    using marked_cons_page by simp
  have w: "pointer_target lisp_layout (lisp_make_pointer 65536 PK_Cons) = Some (cell_addr marked_cons_heap 0, PK_Cons)"
    using self_cons_pointer(1) by (simp add: cell_addr_def marked_cons_sel)
  show ?thesis
    using pointers_follow_the_copies [OF lisp.layout_laws_axioms marked_cons_ok _ _ _ _ pages h' _ w]
    by (simp add: marked_cons_objects h') blast
qed

end
