(* ===== verification/Evac_Reclaim.thy ===== *)
theory Evac_Reclaim
  imports Evac_Copy
begin

text \<open>
  Phase 3 gives the source pages back: what \<open>phase3_reclaim\<close> leaves of each page of the chunk. A
  page without pins is Free, zero and on the free list; a page with pins belongs to the
  destination generation and holds its pinned objects and nothing else.
\<close>

section \<open>Zeroing around the pinned objects\<close>

definition in_ranges :: "(nat \<times> nat) list \<Rightarrow> nat \<Rightarrow> bool" where
  "in_ranges rs c \<longleftrightarrow> (\<exists>(s, n) \<in> set rs. s \<le> c \<and> c < s + n)"

lemma zero_outside_at:
  "zero_outside rs hi lo m x = (if lo \<le> x \<and> x < hi \<and> \<not> in_ranges rs x then 0 else m x)"
proof (induction "hi - lo" arbitrary: lo m rule: less_induct)
  case less
  show ?case
  proof (cases "lo < hi")
    case False
    then show ?thesis by (subst zero_outside.simps) auto
  next
    case True
    show ?thesis
    proof (cases "find (\<lambda>(s, n). s \<le> lo \<and> lo < s + n) rs")
      case None
      have "\<not> in_ranges rs lo" using None by (auto simp: in_ranges_def find_None_iff)
      moreover have "zero_outside rs hi (lo + 1) (m(lo := 0)) x =
          (if lo + 1 \<le> x \<and> x < hi \<and> \<not> in_ranges rs x then 0 else (m(lo := 0)) x)"
        by (rule less) (use True in simp)
      ultimately show ?thesis using True None
        by (subst zero_outside.simps) (auto simp: le_Suc_eq not_less_eq_eq)
    next
      case (Some r)
      obtain s n where r: "r = (s, n)" by (cases r)
      have sn: "(s, n) \<in> set rs" "s \<le> lo" "lo < s + n"
        using Some r by (auto simp: find_Some_iff in_set_conv_nth)
      have "zero_outside rs hi (s + n) m x =
          (if s + n \<le> x \<and> x < hi \<and> \<not> in_ranges rs x then 0 else m x)"
        by (rule less) (use True sn in simp)
      moreover have "in_ranges rs x" if "lo \<le> x" "x < s + n" for x
        using sn that by (auto simp: in_ranges_def intro!: bexI [of _ "(s, n)"])
      ultimately show ?thesis using True Some r sn
        by (subst zero_outside.simps) auto
    qed
  qed
qed

definition pinned_size :: "heap_layout \<Rightarrow> page_heap \<Rightarrow> nat \<Rightarrow> bool \<Rightarrow> nat" where
  "pinned_size L h c as_cons = (if as_cons then 2 else total_cells (the (header_layout L (cells h c))))"

lemma pinned_ranges_set:
  "pinned_ranges L h p pk = Some rs \<Longrightarrow>
   set rs = {(c, pinned_size L h c b) |c b. (c, b) \<in> set pk \<and> c div PAGE_SIZE_CELLS = p}"
proof (induction pk arbitrary: rs)
  case (Cons x pk)
  obtain c b where x: "x = (c, b)" by (cases x)
  show ?case
  proof (cases "c div PAGE_SIZE_CELLS = p")
    case False
    then show ?thesis using Cons by (auto simp: x)
  next
    case True
    obtain rs' where rs: "pinned_ranges L h p pk = Some rs'" "rs = (c, pinned_size L h c b) # rs'"
      using Cons.prems True by (auto simp: x pinned_size_def split: option.splits if_splits)
    show ?thesis using Cons.IH [OF rs(1)] True by (auto simp: x rs(2))
  qed
qed simp

lemma restore_pairs:
  "start_lo (fold (restore_start p) pk bits) c \<longleftrightarrow>
     start_lo bits c \<or> (\<exists>b. (c, b) \<in> set pk \<and> c div PAGE_SIZE_CELLS = p)"
  "start_hi (fold (restore_start p) pk bits) c \<longleftrightarrow>
     start_hi bits c \<or> ((c, True) \<in> set pk \<and> c div PAGE_SIZE_CELLS = p)"
proof (induction pk arbitrary: bits)
  case (Cons x pk)
  obtain d b where x: "x = (d, b)" by (cases x)
  have s: "start_lo (restore_start p x bits) c \<longleftrightarrow> start_lo bits c \<or> (c = d \<and> d div PAGE_SIZE_CELLS = p)"
    "start_hi (restore_start p x bits) c \<longleftrightarrow> start_hi bits c \<or> (c = d \<and> b \<and> d div PAGE_SIZE_CELLS = p)"
    for bits
    by (auto simp: restore_start_def x start_bits_set_header start_bits_set_cons)
  { case 1 show ?case by (auto simp: Cons.IH s [unfolded x] x) }
  { case 2 show ?case by (auto simp: Cons.IH s [unfolded x] x) }
qed simp_all

lemma restore_starts:
  "is_start_at (fold (restore_start p) pk (clear_page_start_bits bits p)) c \<longleftrightarrow>
     (if c div PAGE_SIZE_CELLS = p then \<exists>b. (c, b) \<in> set pk else is_start_at bits c)"
  "is_cons_start_at (fold (restore_start p) pk (clear_page_start_bits bits p)) c \<longleftrightarrow>
     (if c div PAGE_SIZE_CELLS = p then (c, True) \<in> set pk else is_cons_start_at bits c)"
  by (auto simp: is_start_lo is_cons_start_bits restore_pairs start_bits_clear_page PAGE_SIZE_CELLS_num)

section \<open>One page\<close>

definition page_same :: "page_heap \<Rightarrow> page_heap \<Rightarrow> nat \<Rightarrow> bool" where
  "page_same h h' q \<longleftrightarrow> desc h' q = desc h q \<and>
     (\<forall>c. c div PAGE_SIZE_CELLS = q \<longrightarrow> cells h' c = cells h c \<and>
        is_start_at (start_bits h') c = is_start_at (start_bits h) c \<and>
        is_cons_start_at (start_bits h') c = is_cons_start_at (start_bits h) c)"

definition page_flipped ::
  "heap_layout \<Rightarrow> generation \<Rightarrow> (nat \<times> bool) list \<Rightarrow> page_heap \<Rightarrow> page_heap \<Rightarrow> nat \<Rightarrow> bool" where
  "page_flipped L g pk h h' p \<longleftrightarrow> desc h' p = (desc h p)\<lparr>pgen := g, age := 0\<rparr> \<and>
     (\<forall>c. c div PAGE_SIZE_CELLS = p \<longrightarrow>
        (is_start_at (start_bits h') c \<longleftrightarrow> (\<exists>b. (c, b) \<in> set pk)) \<and>
        (is_cons_start_at (start_bits h') c \<longleftrightarrow> (c, True) \<in> set pk) \<and>
        cells h' c =
          (if \<exists>(s, b) \<in> set pk. s div PAGE_SIZE_CELLS = p \<and> s \<le> c \<and> c < s + pinned_size L h s b
           then cells h c else 0))"

definition page_released :: "page_heap \<Rightarrow> nat \<Rightarrow> bool" where
  "page_released h' p \<longleftrightarrow> desc h' p = desc_FREE\<lparr>zeroed := True\<rparr> \<and> p \<in> set (free_page_list h') \<and>
     (\<forall>c. c div PAGE_SIZE_CELLS = p \<longrightarrow> \<not> is_start_at (start_bits h') c \<and> cells h' c = 0)"

lemma page_same_refl [simp]: "page_same h h q"
  by (simp add: page_same_def)

lemma page_same_trans: "page_same h h1 q \<Longrightarrow> page_same h1 h2 q \<Longrightarrow> page_same h h2 q"
  by (simp add: page_same_def)

lemma in_page_range: "c div PAGE_SIZE_CELLS = p \<longleftrightarrow> p * PAGE_SIZE_CELLS \<le> c \<and> c < p * PAGE_SIZE_CELLS + PAGE_SIZE_CELLS"
  by (auto simp: PAGE_SIZE_CELLS_num)

lemma flip_page_facts:
  assumes f: "flip_page L g pk p h = Some h'" and p: "p < length (descs h)"
  shows "page_flipped L g pk h h' p" "q \<noteq> p \<Longrightarrow> page_same h h' q" "free_page_list h' = free_page_list h"
    "n_pages h' = n_pages h" "length (descs h') = length (descs h)"
proof -
  obtain rs where rs: "pinned_ranges L h p pk = Some rs" using f by (auto simp: flip_page_def split: option.splits)
  let ?m = "zero_outside rs (p * PAGE_SIZE_CELLS + PAGE_SIZE_CELLS) (p * PAGE_SIZE_CELLS) (cells h)"
  let ?b = "fold (restore_start p) pk (clear_page_start_bits (start_bits h) p)"
  have h': "cells h' = ?m" "start_bits h' = ?b" "descs h' = (descs h)[p := (descs h ! p)\<lparr>pgen := g, age := 0\<rparr>]"
    "free_page_list h' = free_page_list h" "n_pages h' = n_pages h"
    using f rs by (auto simp: flip_page_def zero_page_outside_ranges_def desc_update_def desc_def Let_def)
  have rng: "in_ranges rs c \<longleftrightarrow>
      (\<exists>(s, b) \<in> set pk. s div PAGE_SIZE_CELLS = p \<and> s \<le> c \<and> c < s + pinned_size L h s b)" for c
    unfolding in_ranges_def pinned_ranges_set [OF rs] by fastforce
  have m: "?m c = (if c div PAGE_SIZE_CELLS = p \<and> \<not> in_ranges rs c then 0 else cells h c)" for c
    by (simp add: zero_outside_at in_page_range)
  show "page_flipped L g pk h h' p"
    unfolding page_flipped_def h'(1,2) m rng restore_starts using h'(3) p by (simp add: desc_def)
  show "page_same h h' q" if "q \<noteq> p"
    unfolding page_same_def h'(1,2) m restore_starts using h'(3) that by (simp add: desc_def)
  show "free_page_list h' = free_page_list h" "n_pages h' = n_pages h" "length (descs h') = length (descs h)"
    using h' by simp_all
qed

lemma zero_page_at: "cells (zero_page_cells h p) c = (if c div PAGE_SIZE_CELLS = p then 0 else cells h c)"
  by (simp add: zero_page_cells_def fill_range_def in_page_range)

lemma release_page_facts:
  assumes "p < length (descs h)"
  shows "page_released (release_page p h) p" "q \<noteq> p \<Longrightarrow> page_same h (release_page p h) q"
    "free_page_list (release_page p h) = p # free_page_list h" "n_pages (release_page p h) = n_pages h"
    "length (descs (release_page p h)) = length (descs h)"
  using assms
  by (simp_all add: page_released_def page_same_def release_page_def release_page_to_free_def zero_page_at
      bitmap_simps Let_def desc_def desc_update_def desc_release_zeroed_def)

section \<open>A chunk\<close>

text \<open>
  What a step leaves of the rest of the heap: the pages outside \<open>S\<close>, the page table's length, the
  entries of the free list, and the heads of Large runs, of which it makes no new ones.
\<close>

definition leaves :: "nat set \<Rightarrow> page_heap \<Rightarrow> page_heap \<Rightarrow> bool" where
  "leaves S h h' \<longleftrightarrow> n_pages h' = n_pages h \<and> length (descs h') = length (descs h) \<and>
     (\<forall>q. q \<notin> S \<longrightarrow> page_same h h' q) \<and> set (free_page_list h) \<subseteq> set (free_page_list h') \<and>
     (\<forall>p < length (descs h). is_large_head (desc h' p) \<longrightarrow>
        is_large_head (desc h p) \<and> n_span (desc h' p) = n_span (desc h p))"

lemma leaves_refl [simp]: "leaves S h h"
  by (simp add: leaves_def)

lemma leaves_trans: "leaves S h h1 \<Longrightarrow> leaves S h1 h2 \<Longrightarrow> leaves S h h2"
  unfolding leaves_def by (auto intro: page_same_trans)

lemma leaves_mono: "leaves S h h' \<Longrightarrow> S \<subseteq> T \<Longrightarrow> leaves T h h'"
  unfolding leaves_def by blast

lemma leaves_fold:
  assumes "\<And>i h. i \<in> set is \<Longrightarrow> leaves S h (f i h)"
  shows "leaves S h (fold f is h)"
  using assms by (induction "is" arbitrary: h) (auto intro: leaves_trans)

lemma nth_update: "j < length xs \<Longrightarrow> xs[i := x] ! j = (if i = j then x else xs ! j)"
  by auto

lemma leaves_flip_large: "leaves {p + i} h (flip_large_page g p i h)"
  unfolding leaves_def page_same_def flip_large_page_def
  by (auto simp: desc_def desc_update_def Let_def bitmap_simps is_large_head_def nth_update)

lemma leaves_release_large: "leaves {p + i} h (release_large_page p i h)"
proof -
  let ?h1 = "release_page_to_free (zero_page_cells (h\<lparr>start_bits := clear_page_start_bits (start_bits h) (p + i)\<rparr>) (p + i)) (p + i) True"
  have 1: "leaves {p + i} h ?h1"
    unfolding leaves_def page_same_def release_page_to_free_def
    by (auto simp: desc_def desc_update_def Let_def bitmap_simps zero_page_at is_large_head_def nth_update
        desc_release_zeroed_def desc_FREE_def)
  have 2: "leaves {p + i} h1 (snd (decommit_page h1 (p + i)))" for h1
  proof -
    obtain r h2 where d: "decommit_page h1 (p + i) = (r, h2)" by fastforce
    show ?thesis
      using decommit_page_frame [OF d] unfolding d leaves_def page_same_def by (auto simp: desc_def)
  qed
  show ?thesis
    using 1 leaves_trans [OF 1 2] by (simp add: release_large_page_def Let_def)
qed

definition large_run :: "page_heap \<Rightarrow> nat \<Rightarrow> nat set" where
  "large_run h p = (if is_large_head (desc h p) then {p..<p + unat (n_span (desc h p))} else {})"

lemma reclaim_page_leaves:
  assumes r: "reclaim_page L g pk p (h, r, f) = Some (h', r', f')" and p: "p < length (descs h)"
  shows "leaves ({p} \<union> large_run h p) h h'"
proof -
  let ?S = "{p} \<union> large_run h p"
  have "h' = h \<or>
      (is_large_head (desc h p) \<and> h' = fold (flip_large_page g p) [0..<unat (n_span (desc h p))] h) \<or>
      (is_large_head (desc h p) \<and> h' = fold (release_large_page p) [0..<unat (n_span (desc h p))] h) \<or>
      flip_page L g pk p h = Some h' \<or> h' = release_page p h"
    using r unfolding reclaim_page_def prod.case Let_def by (simp split: if_split_asm) (elim exE conjE; simp)?
  then consider "h' = h"
    | "is_large_head (desc h p)" "h' = fold (flip_large_page g p) [0..<unat (n_span (desc h p))] h"
    | "is_large_head (desc h p)" "h' = fold (release_large_page p) [0..<unat (n_span (desc h p))] h"
    | "flip_page L g pk p h = Some h'" | "h' = release_page p h"
    by blast
  then show ?thesis
  proof cases
    case 2
    show ?thesis unfolding 2(2)
      by (rule leaves_fold, rule leaves_mono [OF leaves_flip_large]) (auto simp: large_run_def 2(1))
  next
    case 3
    show ?thesis unfolding 3(2)
      by (rule leaves_fold, rule leaves_mono [OF leaves_release_large]) (auto simp: large_run_def 3(1))
  next
    case 4
    have "is_large_head (desc h' q) \<longrightarrow> is_large_head (desc h q) \<and> n_span (desc h' q) = n_span (desc h q)" for q
      using flip_page_facts(1) [OF 4 p] flip_page_facts(2) [OF 4 p, of q] by (cases "q = p") (auto simp: page_flipped_def page_same_def is_large_head_def)
    then show ?thesis using flip_page_facts [OF 4 p] by (simp add: leaves_def)
  next
    case 5
    have "is_large_head (desc h' q) \<longrightarrow> is_large_head (desc h q) \<and> n_span (desc h' q) = n_span (desc h q)" for q
      using release_page_facts(1) [OF p] release_page_facts(2) [OF p, of q] unfolding 5
      by (cases "q = p") (auto simp: page_released_def page_same_def is_large_head_def desc_FREE_def)
    then show ?thesis using release_page_facts [OF p] by (auto simp: leaves_def 5)
  qed simp
qed

text \<open>No Large run reaches page \<open>q\<close>.\<close>

definition off_runs :: "page_heap \<Rightarrow> nat \<Rightarrow> bool" where
  "off_runs h q \<longleftrightarrow> (\<forall>p < n_pages h. q \<notin> large_run h p)"

lemma off_runs_leaves:
  assumes "off_runs h q" "leaves S h h'" "length (descs h) = n_pages h"
  shows "off_runs h' q"
proof -
  have "n_pages h' = n_pages h" using assms(2) by (simp add: leaves_def)
  moreover have "q \<notin> large_run h' p" if "p < n_pages h" for p
  proof -
    have "large_run h' p \<subseteq> large_run h p"
      using assms(2,3) that unfolding leaves_def large_run_def by auto
    then show ?thesis using assms(1) that unfolding off_runs_def by blast
  qed
  ultimately show ?thesis by (simp add: off_runs_def)
qed

lemma reclaim_others:
  assumes "fold_opt (reclaim_page L g pk) chunk (h, r, f) = Some (h', r', f')"
    and "length (descs h) = n_pages h" "\<forall>p \<in> set chunk. p < n_pages h" "off_runs h q" "q \<notin> set chunk"
  shows "page_same h h' q" "n_pages h' = n_pages h" "length (descs h') = n_pages h'"
    "set (free_page_list h) \<subseteq> set (free_page_list h')" "off_runs h' q"
proof -
  have "page_same h h' q \<and> n_pages h' = n_pages h \<and> length (descs h') = n_pages h' \<and>
      set (free_page_list h) \<subseteq> set (free_page_list h') \<and> off_runs h' q"
    using assms
  proof (induction chunk arbitrary: h r f)
    case (Cons p ps)
    obtain h1 r1 f1 where s: "reclaim_page L g pk p (h, r, f) = Some (h1, r1, f1)"
      "fold_opt (reclaim_page L g pk) ps (h1, r1, f1) = Some (h', r', f')"
      using Cons.prems(1) by (auto split: option.splits)
    have p: "p < length (descs h)" "p < n_pages h" using Cons.prems(2,3) by simp_all
    note l = reclaim_page_leaves [OF s(1) p(1)]
    have "q \<notin> {p} \<union> large_run h p" using Cons.prems(4,5) p(2) by (auto simp: off_runs_def)
    then have f: "page_same h h1 q" "n_pages h1 = n_pages h" "length (descs h1) = n_pages h1"
      "set (free_page_list h) \<subseteq> set (free_page_list h1)"
      using l Cons.prems(2) by (simp_all add: leaves_def)
    have "page_same h1 h' q \<and> n_pages h' = n_pages h1 \<and> length (descs h') = n_pages h' \<and>
        set (free_page_list h1) \<subseteq> set (free_page_list h') \<and> off_runs h' q"
      by (rule Cons.IH [OF s(2) f(3)])
        (use f Cons.prems off_runs_leaves [OF Cons.prems(4) l Cons.prems(2)] in auto)
    then show ?case using f page_same_trans by auto
  qed simp
  then show "page_same h h' q" "n_pages h' = n_pages h" "length (descs h') = n_pages h'"
    "set (free_page_list h) \<subseteq> set (free_page_list h')" "off_runs h' q" by blast+
qed

lemma reclaim_small_page:
  assumes r: "reclaim_page L g pk p (h, n, f) = Some (h', n', f')" and p: "p < length (descs h)"
    and k: "pgen (desc h p) \<noteq> Gen_Free" "kind (desc h p) \<noteq> Kind_Large"
  shows "if has_pins (desc h p) then page_flipped L g pk h h' p else page_released h' p"
proof -
  have "\<not> is_large_head (desc h p)" "\<not> is_large_cont (desc h p)" using k(2) by (simp_all add: is_large_head_def is_large_cont_def)
  then have "if has_pins (desc h p) then flip_page L g pk p h = Some h' else h' = release_page p h"
    using r k(1) unfolding reclaim_page_def prod.case Let_def by (simp split: if_split_asm) (elim exE conjE; simp)?
  then show ?thesis using flip_page_facts(1) [OF _ p] release_page_facts(1) [OF p] by (simp split: if_splits)
qed

lemma page_flipped_cong:
  assumes "page_same h0 h p" "page_flipped L g pk h h1 p" "page_same h1 h' p"
  shows "page_flipped L g pk h0 h' p"
proof -
  have "pinned_size L h s b = pinned_size L h0 s b" if "s div PAGE_SIZE_CELLS = p" for s b
    using assms(1) that by (simp add: pinned_size_def page_same_def)
  then have "(\<exists>(s, b) \<in> set pk. s div PAGE_SIZE_CELLS = p \<and> s \<le> c \<and> c < s + pinned_size L h s b) \<longleftrightarrow>
      (\<exists>(s, b) \<in> set pk. s div PAGE_SIZE_CELLS = p \<and> s \<le> c \<and> c < s + pinned_size L h0 s b)" for c
    by fastforce
  then show ?thesis using assms unfolding page_flipped_def page_same_def by simp
qed

lemma reclaim_chunk:
  assumes r: "fold_opt (reclaim_page L g pk) chunk (h, n, f) = Some (h', n', f')"
    and len: "length (descs h) = n_pages h" and chunk: "\<forall>p \<in> set chunk. p < n_pages h" "distinct chunk"
    and p: "p \<in> set chunk" "off_runs h p" "pgen (desc h p) \<noteq> Gen_Free" "kind (desc h p) \<noteq> Kind_Large"
  shows "if has_pins (desc h p) then page_flipped L g pk h h' p else page_released h' p"
proof -
  obtain xs ys where c: "chunk = xs @ p # ys" using p(1) by (meson split_list)
  obtain h1 n1 f1 h2 n2 f2 where s: "fold_opt (reclaim_page L g pk) xs (h, n, f) = Some (h1, n1, f1)"
    "reclaim_page L g pk p (h1, n1, f1) = Some (h2, n2, f2)"
    "fold_opt (reclaim_page L g pk) ys (h2, n2, f2) = Some (h', n', f')"
    using r unfolding c fold_opt_append by (auto split: option.splits)
  have out: "p \<notin> set xs" "p \<notin> set ys" using chunk(2) by (simp_all add: c)
  have "\<forall>p \<in> set xs. p < n_pages h" using chunk(1) by (simp add: c)
  note b = reclaim_others [OF s(1) len this p(2) out(1)]
  have lt: "p < length (descs h1)" using chunk(1) b by (simp add: c)
  have d: "desc h1 p = desc h p" using b(1) by (simp add: page_same_def)
  have step: "if has_pins (desc h p) then page_flipped L g pk h1 h2 p else page_released h2 p"
    using reclaim_small_page [OF s(2) lt] p(3,4) d by simp
  note l = reclaim_page_leaves [OF s(2) lt]
  have l2: "n_pages h2 = n_pages h1" "length (descs h2) = n_pages h2" using l b(3) by (simp_all add: leaves_def)
  have "\<forall>p \<in> set ys. p < n_pages h2" using chunk(1) b(2) l2(1) by (simp add: c)
  note a = reclaim_others [OF s(3) l2(2) this off_runs_leaves [OF b(5) l b(3)] out(2)]
  show ?thesis
    using step page_flipped_cong [OF b(1) _ a(1)] a(1,4)
    by (auto simp: page_released_def page_same_def split: if_splits)
qed

section \<open>Properties\<close>

text \<open>
  C11. Phase 3 keeps the pinned objects and nothing else. Of a page of the chunk that is not part of
  a Large run, the phase leaves either a Free page, zero, without starts and on the free list,
  when nothing on it is pinned, or a page of the destination generation whose starts are exactly
  the pinned objects, whose pinned objects read as before and whose other cells are zero.
\<close>

theorem reclaim_keeps_the_pinned:
  assumes "phase3_reclaim L h g chunk pk = Some (h', released, flipped)"
    and "length (descs h) = n_pages h" "\<forall>p \<in> set chunk. p < n_pages h" "distinct chunk"
    and "p \<in> set chunk" "off_runs h p" "pgen (desc h p) \<noteq> Gen_Free" "kind (desc h p) \<noteq> Kind_Large"
  shows "if has_pins (desc h p) then page_flipped L g pk h h' p else page_released h' p"
  by (rule reclaim_chunk [OF assms(1) [unfolded phase3_reclaim_def] assms(2-8)])

theorem reclaim_keeps_the_pinned_witness:
  "\<exists>h'. phase3_reclaim lisp_layout (with_explicit_pins pinned_cons_heap) G1 [0] [(0, True)] = Some (h', 0, 1) \<and>
     is_start_at (start_bits h') 0 \<and> cells h' 0 = lisp_make_pointer 65536 PK_Cons \<and> pgen (desc h' 0) = G1"
proof -
  let ?h = "with_explicit_pins pinned_cons_heap"
  have sel: "descs ?h = [set_pin ((desc_fresh G0 Kind_Cons)\<lparr>words_used := 2\<rparr>) 0]" "n_pages ?h = 1"
    "cells ?h = cells self_cons_heap"
    by (simp_all add: pinned_cons_explicit pinned_cons_sel) (simp add: pinned_cons_heap_def)
  have p: "has_pins (desc ?h 0)" "pgen (desc ?h 0) \<noteq> Gen_Free" "kind (desc ?h 0) \<noteq> Kind_Large"
    by (simp_all add: sel desc_def has_pins_set_pin)
  then have "\<not> is_large_head (desc ?h 0)" "\<not> is_large_cont (desc ?h 0)" by (simp_all add: is_large_head_def is_large_cont_def)
  then obtain h' where h': "phase3_reclaim lisp_layout ?h G1 [0] [(0, True)] = Some (h', 0, 1)"
    using p by (auto simp: phase3_reclaim_def reclaim_page_def Let_def flip_page_def)
  have "off_runs ?h 0" using \<open>\<not> is_large_head (desc ?h 0)\<close> by (simp add: off_runs_def large_run_def sel)
  then have "page_flipped lisp_layout G1 [(0, True)] ?h h' 0"
    using reclaim_keeps_the_pinned [OF h', of 0] p by (simp add: sel)
  then have "is_start_at (start_bits h') 0 \<and> cells h' 0 = cells ?h 0 \<and> pgen (desc h' 0) = G1"
    by (auto simp: page_flipped_def pinned_size_def)
  then show ?thesis using h' self_cons_cells(1) by (simp add: sel)
qed

end
