(* ===== verification/Coordinator.thy ===== *)
theory Coordinator
  imports Evac_Reclaim
begin

text \<open>
  The remembered set at work (\<^verbatim>\<open>page_heap/coordinator_api.rs\<close>): the scans that offer the words of
  dirty cards to the evacuator and to the marker, the mark pass of a production minor cycle,
  which has a static segment beside the reservation, and the clearing of consumed cards. A
  memory region outside the reservation is a function from its cell numbers to words.
\<close>

section \<open>Dirty cards\<close>

record static_area =
  sa_base :: u64
  sa_cells :: nat
  sa_cards :: card_table
  sa_words :: "nat \<Rightarrow> u64"

definition card_index_max :: "card_table \<Rightarrow> nat \<Rightarrow> nat" where
  "card_index_max ct cells_len = min (div_ceil cells_len CARD_SIZE_CELLS) (n_cards ct)"

definition card_cells :: "nat \<Rightarrow> nat \<Rightarrow> nat list" where
  "card_cells cells_len card_idx =
     (let card_start = card_idx * CARD_SIZE_CELLS in [card_start..<min (card_start + CARD_SIZE_CELLS) cells_len])"

text \<open>A card stays dirty as long as one of its cells looks like a heap pointer.\<close>

definition clear_card_unless_intergen ::
  "heap_layout \<Rightarrow> (nat \<Rightarrow> u64) \<Rightarrow> nat \<Rightarrow> nat \<Rightarrow> card_table \<Rightarrow> card_table" where
  "clear_card_unless_intergen L mem cells_len card_idx ct =
     (if \<not> is_dirty ct card_idx then ct
      else
        (let has_heap_pointer = list_ex (\<lambda>c. is_pointer_word L (mem c)) (card_cells cells_len card_idx)
         in if \<not> has_heap_pointer then clear_card ct card_idx else ct))"

definition clear_cards_unless_intergen ::
  "heap_layout \<Rightarrow> (nat \<Rightarrow> u64) \<Rightarrow> nat \<Rightarrow> card_table \<Rightarrow> card_table" where
  "clear_cards_unless_intergen L mem cells_len ct =
     fold (clear_card_unless_intergen L mem cells_len) [0..<card_index_max ct cells_len] ct"

section \<open>Cards as roots of an evacuation\<close>

text \<open>
  The page filter: a snapshot of the page table, or none for a region without pages. Cards of
  the generation under evacuation and of Free pages are passed over.
\<close>

definition root_card_passes :: "page_desc list option \<Rightarrow> generation \<Rightarrow> nat \<Rightarrow> bool" where
  "root_card_passes page_filter from_gen card_start =
     (case page_filter of
        None \<Rightarrow> True
      | Some ds \<Rightarrow>
          (let page_idx = card_start div PAGE_SIZE_CELLS in
           if page_idx \<ge> length ds then False
           else \<not> (pgen (ds ! page_idx) = Gen_Free \<or> pgen (ds ! page_idx) = from_gen)))"

definition visit_external_cell ::
  "heap_layout \<Rightarrow> nat \<Rightarrow> (nat \<Rightarrow> u64) \<times> page_evacuator \<Rightarrow> (nat \<Rightarrow> u64) \<times> page_evacuator" where
  "visit_external_cell L c = (\<lambda>(mem, ev). let (w, ev) = visit L (mem c) ev in (mem(c := w), ev))"

definition scan_card_as_roots ::
  "heap_layout \<Rightarrow> card_table \<Rightarrow> u64 \<Rightarrow> nat \<Rightarrow> page_desc list option \<Rightarrow> nat \<Rightarrow>
     (nat \<Rightarrow> u64) \<times> page_evacuator \<Rightarrow> ((nat \<Rightarrow> u64) \<times> page_evacuator) option" where
  "scan_card_as_roots L ct base cells_len page_filter card_idx = (\<lambda>(mem, ev).
     if \<not> is_dirty ct card_idx then Some (mem, ev)
     else
       (let card_start = card_idx * CARD_SIZE_CELLS; card_end = min (card_start + CARD_SIZE_CELLS) cells_len in
        if \<not> root_card_passes page_filter (ev_from_gen ev) card_start then Some (mem, ev)
        else if base = base_ptr (ev_heap ev)
        then map_option (\<lambda>ev. (mem, ev)) (evac_visit_card L card_start card_end ev)
        else Some (fold (visit_external_cell L) [card_start..<card_end] (mem, ev))))"

definition scan_dirty_cards_as_roots ::
  "heap_layout \<Rightarrow> card_table \<Rightarrow> u64 \<Rightarrow> nat \<Rightarrow> page_desc list option \<Rightarrow>
     (nat \<Rightarrow> u64) \<times> page_evacuator \<Rightarrow> ((nat \<Rightarrow> u64) \<times> page_evacuator) option" where
  "scan_dirty_cards_as_roots L ct base cells_len page_filter st =
     fold_opt (scan_card_as_roots L ct base cells_len page_filter) [0..<card_index_max ct cells_len] st"

section \<open>Cards as roots of a mark pass\<close>

definition mark_card_passes :: "page_desc list option \<Rightarrow> nat \<Rightarrow> bool" where
  "mark_card_passes page_filter card_start =
     (case page_filter of
        None \<Rightarrow> True
      | Some ds \<Rightarrow>
          (let page_idx = card_start div PAGE_SIZE_CELLS in
           if page_idx \<ge> length ds then False
           else pgen (ds ! page_idx) = G1 \<or> pgen (ds ! page_idx) = Tenured))"

definition scan_card_as_marks ::
  "heap_layout \<Rightarrow> generation \<Rightarrow> card_table \<Rightarrow> u64 \<Rightarrow> nat \<Rightarrow> (nat \<Rightarrow> u64) \<Rightarrow> page_desc list option \<Rightarrow> nat \<Rightarrow>
     page_heap \<times> nat list \<Rightarrow> (page_heap \<times> nat list) option" where
  "scan_card_as_marks L target ct base cells_len mem page_filter card_idx = (\<lambda>(h, q).
     if \<not> is_dirty ct card_idx then Some (h, q)
     else
       (let card_start = card_idx * CARD_SIZE_CELLS; card_end = min (card_start + CARD_SIZE_CELLS) cells_len in
        if \<not> mark_card_passes page_filter card_start then Some (h, q)
        else if base = base_ptr h then mark_visit_card L target card_start card_end (h, q)
        else Some (fold (\<lambda>c. try_mark_root L target (mem c)) [card_start..<card_end] (h, q))))"

definition scan_dirty_cards_as_marks ::
  "heap_layout \<Rightarrow> generation \<Rightarrow> card_table \<Rightarrow> u64 \<Rightarrow> nat \<Rightarrow> (nat \<Rightarrow> u64) \<Rightarrow> page_desc list option \<Rightarrow>
     page_heap \<times> nat list \<Rightarrow> (page_heap \<times> nat list) option" where
  "scan_dirty_cards_as_marks L target ct base cells_len mem page_filter st =
     fold_opt (scan_card_as_marks L target ct base cells_len mem page_filter)
       [0..<card_index_max ct cells_len] st"

text \<open>
  The mark pass before a production minor cycle. The caller's closure sees a \<open>MarkScanner\<close>,
  whose only operation leaves the slot alone, so the closure is the list of the words it visits.
\<close>

definition mark_minor_with_static ::
  "heap_layout \<Rightarrow> page_heap \<Rightarrow> static_area \<Rightarrow> u64 list \<Rightarrow> page_heap option" where
  "mark_minor_with_static L h sa roots =
     (let descs_at_scan_time = descs h;
          st = visit_word_roots L G0 roots (clear_mark_bits_in_gen h G0, [])
      in case scan_dirty_cards_as_marks L G0 (sa_cards sa) (sa_base sa) (sa_cells sa) (sa_words sa) None st of
           None \<Rightarrow> None
         | Some st \<Rightarrow>
             (case scan_dirty_cards_as_marks L G0 (cards h) (base_ptr h) (reserved_bytes h div 8) (cells h)
                     (Some descs_at_scan_time) st of
                None \<Rightarrow> None
              | Some st \<Rightarrow> map_option (\<lambda>h. prepare_recycle_live_counts_from_marks h G0) (drain L G0 st)))"


section \<open>Properties\<close>

lemma clear_card_dirty:
  "is_dirty (clear_card_unless_intergen L mem n i ct) c \<longleftrightarrow> is_dirty ct c \<and>
     (c \<noteq> i \<or> (\<exists>x \<in> set (card_cells n i). is_pointer_word L (mem x)))"
  by (auto simp: clear_card_unless_intergen_def Let_def list_ex_iff is_dirty_clear_card)

lemma clear_cards_dirty:
  "is_dirty (fold (clear_card_unless_intergen L mem n) is ct) c \<longleftrightarrow> is_dirty ct c \<and>
     (c \<notin> set is \<or> (\<exists>x \<in> set (card_cells n c). is_pointer_word L (mem x)))"
  by (induction "is" arbitrary: ct) (auto simp: clear_card_dirty)

lemma less_div_ceil:
  assumes "0 < b"
  shows "c < div_ceil n b \<longleftrightarrow> c * b < n"
proof
  assume "c < div_ceil n b"
  then have "Suc c * b \<le> div_ceil n b * b" by (intro mult_le_mono1) simp
  then show "c * b < n" using div_ceil_bounds(2) [OF assms, of n] by simp
next
  assume "c * b < n"
  then have "c * b < div_ceil n b * b" using div_ceil_bounds(1) [OF assms, of n] by linarith
  then show "c < div_ceil n b" by simp
qed

lemma card_cells_set: "set (card_cells n c) = {x. x div CARD_SIZE_CELLS = c \<and> x < n}"
proof -
  have pos: "0 < CARD_SIZE_CELLS" by (simp add: CARD_SIZE_CELLS_def CARD_SIZE_BYTES_def)
  have eq: "x div CARD_SIZE_CELLS = c \<longleftrightarrow> c * CARD_SIZE_CELLS \<le> x \<and> x < c * CARD_SIZE_CELLS + CARD_SIZE_CELLS" for x
  proof -
    have "x div CARD_SIZE_CELLS = c \<longleftrightarrow> c \<le> x div CARD_SIZE_CELLS \<and> x div CARD_SIZE_CELLS < Suc c" by linarith
    also have "\<dots> \<longleftrightarrow> c * CARD_SIZE_CELLS \<le> x \<and> x < Suc c * CARD_SIZE_CELLS"
      by (simp only: less_eq_div_iff_mult_less_eq [OF pos] div_less_iff_less_mult [OF pos])
    finally show ?thesis by (simp only: mult_Suc add.commute)
  qed
  show ?thesis unfolding card_cells_def Let_def set_upt eq by auto
qed

text \<open>
  C27. Consumed cards are cleared, the others kept: after \<open>clear_cards_unless_intergen\<close> a card
  inside the region is dirty exactly when it was dirty and one of its cells is still a pointer
  word, so the record of a reference into a younger generation is never lost. A card past the
  end of the region is left as it was.
\<close>

theorem cards_kept_while_intergen:
  "is_dirty (clear_cards_unless_intergen L mem cells_len ct) i \<longleftrightarrow> is_dirty ct i \<and>
     (cells_len \<le> i * CARD_SIZE_CELLS \<or>
      (\<exists>c. c div CARD_SIZE_CELLS = i \<and> c < cells_len \<and> is_pointer_word L (mem c)))"
proof -
  have pos: "0 < CARD_SIZE_CELLS" by (simp add: CARD_SIZE_CELLS_def CARD_SIZE_BYTES_def)
  have "is_dirty ct i \<Longrightarrow> i \<notin> set [0..<card_index_max ct cells_len] \<longleftrightarrow> cells_len \<le> i * CARD_SIZE_CELLS"
    by (auto simp: card_index_max_def less_div_ceil [OF pos] is_dirty_def)
  then show ?thesis
    unfolding clear_cards_unless_intergen_def clear_cards_dirty card_cells_set by blast
qed

end
