(* ===== verification/Cycle.thy ===== *)
theory Cycle
  imports Coordinator
begin

text \<open>
  The cycle policy of \<^verbatim>\<open>page_heap/cycle.rs\<close>: which generation is evacuated where, and when a
  cohort is promoted; the automatic choice and the fallible entry points of \<^verbatim>\<open>space.rs\<close>; the
  production minor cycle of \<^verbatim>\<open>coordinator_api.rs\<close>. The caller's closure is a \<open>root_visitor\<close>
  threading the caller's own state. A cycle ends in its result or in a \<open>gc_abort\<close>.
\<close>

section \<open>Results\<close>

definition G0_PROMOTION_THRESHOLD :: u32 where "G0_PROMOTION_THRESHOLD = 3"
definition G1_PROMOTION_THRESHOLD :: u32 where "G1_PROMOTION_THRESHOLD = 5"

record collect_result =
  evac :: evac_result
  cascade :: "evac_result option"
  promoted_g0 :: bool
  promoted_g1 :: bool
  minors_since_g0_promote_after :: u32

record full_collect_result =
  g0_evac :: evac_result
  g1_evac :: evac_result
  tenured_evac :: evac_result
  tenured_freed_bytes :: nat

section \<open>Cycles\<close>

text \<open>The closure every pass hands to the evacuator: the caller's roots, then the dirty cards.\<close>

definition with_cards :: "heap_layout \<Rightarrow> page_desc list \<Rightarrow> 'r root_visitor \<Rightarrow> 'r root_visitor" where
  "with_cards L descs_at_scan_time visit_roots r ev =
     bind_res (visit_roots r ev)
       (\<lambda>(r, ev).
          (let h = ev_heap ev in
           case scan_dirty_cards_as_roots L (cards h) (base_ptr h) (reserved_bytes h div 8)
                  (Some descs_at_scan_time) (cells h, ev) of
             None \<Rightarrow> Inl Panic
           | Some (_, ev) \<Rightarrow> Inr (r, ev)))"

definition collect_minor ::
  "heap_layout \<Rightarrow> 'r root_visitor \<Rightarrow> 'r \<times> page_heap \<Rightarrow> gc_abort + ('r \<times> page_heap \<times> collect_result)" where
  "collect_minor L visit_roots = (\<lambda>(r, h).
     (let h = h\<lparr>minors_since_g0_promote := saturating_add (minors_since_g0_promote h) 1\<rparr>;
          promote_g0 = (minors_since_g0_promote h \<ge> G0_PROMOTION_THRESHOLD);
          dest = (if promote_g0 then G1 else G0);
          roots = with_cards L (descs h) visit_roots
      in bind_res (evacuate_with_roots L G0 dest roots (r, h))
           (\<lambda>(r, h, evac_result).
              bind_res
                (if promote_g0
                 then
                   (let h = h\<lparr>minors_since_g0_promote := 0\<rparr>;
                        h = h\<lparr>g0_promotes_since_g1_promote := saturating_add (g0_promotes_since_g1_promote h) 1\<rparr>
                    in if g0_promotes_since_g1_promote h \<ge> G1_PROMOTION_THRESHOLD
                       then bind_res (evacuate_with_roots L G1 Tenured roots (r, h))
                              (\<lambda>(r, h, cas). Inr (r, h\<lparr>g0_promotes_since_g1_promote := 0\<rparr>, True, Some cas))
                       else Inr (r, h, False, None))
                 else Inr (r, h, False, None))
                (\<lambda>(r, h, promoted, casc).
                   (let h = clear_all_pins (rebuild_cards_for_old_gens L h)
                    in Inr (r, h, \<lparr>evac = evac_result, cascade = casc, promoted_g0 = promote_g0,
                                   promoted_g1 = promoted,
                                   minors_since_g0_promote_after = minors_since_g0_promote h\<rparr>))))))"

definition collect_major ::
  "heap_layout \<Rightarrow> 'r root_visitor \<Rightarrow> 'r \<times> page_heap \<Rightarrow> gc_abort + ('r \<times> page_heap \<times> collect_result)" where
  "collect_major L visit_roots = (\<lambda>(r, h).
     bind_res (evacuate_with_roots L G1 Tenured (with_cards L (descs h) visit_roots) (r, h))
       (\<lambda>(r, h, g1_result).
          bind_res (evacuate_with_roots L G0 G0 (with_cards L (descs h) visit_roots) (r, h))
            (\<lambda>(r, h, g0_result).
               (let h = clear_all_pins (rebuild_cards_for_old_gens L h);
                    h = h\<lparr>minors_since_g0_promote := 0, g0_promotes_since_g1_promote := 0\<rparr>
                in Inr (r, h, \<lparr>evac = g0_result, cascade = Some g1_result, promoted_g0 = False,
                               promoted_g1 = (objects_copied g1_result > 0 \<or> pages_flipped g1_result > 0),
                               minors_since_g0_promote_after = 0\<rparr>)))))"

definition collect_full ::
  "heap_layout \<Rightarrow> 'r root_visitor \<Rightarrow> 'r \<times> page_heap \<Rightarrow> gc_abort + ('r \<times> page_heap \<times> full_collect_result)" where
  "collect_full L visit_roots = (\<lambda>(r, h).
     bind_res (evacuate_with_roots L G0 G1 (with_cards L (descs h) visit_roots) (r, h))
       (\<lambda>(r, h, g0).
          bind_res (evacuate_with_roots L G1 Tenured (with_cards L (descs h) visit_roots) (r, h))
            (\<lambda>(r, h, g1).
               bind_res (evacuate_with_roots L Tenured Tenured visit_roots (r, h))
                 (\<lambda>(r, h, t).
                    (let h = clear_all_pins (rebuild_cards_for_old_gens L h);
                         h = h\<lparr>minors_since_g0_promote := 0, g0_promotes_since_g1_promote := 0\<rparr>
                     in Inr (r, h, \<lparr>g0_evac = g0, g1_evac = g1, tenured_evac = t,
                                    tenured_freed_bytes = pages_freed t * PAGE_SIZE_BYTES\<rparr>))))))"

definition collect_auto ::
  "heap_layout \<Rightarrow> 'r root_visitor \<Rightarrow> 'r \<times> page_heap \<Rightarrow> gc_abort + ('r \<times> page_heap \<times> collect_result)" where
  "collect_auto L visit_roots = (\<lambda>(r, h).
     bind_res (if should_collect_major h then collect_major L visit_roots (r, h)
               else collect_minor L visit_roots (r, h))
       (\<lambda>(r, h, res). Inr (r, recompute_auto_trigger h, res)))"

section \<open>Fallible entry points\<close>

datatype gc_error = Mid_Evac_Oom gc_stall_error | Heap_Poisoned

definition poisoned_err :: "page_heap \<Rightarrow> gc_error option" where
  "poisoned_err h = (if poisoned h then Some Heap_Poisoned else None)"

text \<open>
  \<open>catch_unwind\<close> around a cycle: a stall becomes an error value, with the heap it left; every
  other panic goes on.
\<close>

definition run_catching_oom ::
  "gc_abort + ('r \<times> page_heap \<times> 'a) \<Rightarrow> gc_abort + ((gc_error + 'r \<times> 'a) \<times> page_heap)" where
  "run_catching_oom result =
     (case result of
        Inr (r, h, v) \<Rightarrow> Inr (Inr (r, v), h)
      | Inl (Stall stall h) \<Rightarrow> Inr (Inl (Mid_Evac_Oom stall), h)
      | Inl other \<Rightarrow> Inl other)"

definition try_collect ::
  "('r \<times> page_heap \<Rightarrow> gc_abort + ('r \<times> page_heap \<times> 'a)) \<Rightarrow> 'r \<times> page_heap \<Rightarrow>
     gc_abort + ((gc_error + 'r \<times> 'a) \<times> page_heap)" where
  "try_collect collect = (\<lambda>(r, h).
     case poisoned_err h of
       Some err \<Rightarrow> Inr (Inl err, h)
     | None \<Rightarrow>
         bind_res (run_catching_oom (collect (r, h)))
           (\<lambda>(result, h). Inr (result, case result of Inl _ \<Rightarrow> h\<lparr>poisoned := True\<rparr> | Inr _ \<Rightarrow> h)))"

definition try_collect_minor ::
  "heap_layout \<Rightarrow> 'r root_visitor \<Rightarrow> 'r \<times> page_heap \<Rightarrow>
     gc_abort + ((gc_error + 'r \<times> collect_result) \<times> page_heap)" where
  "try_collect_minor L visit_roots = try_collect (collect_minor L visit_roots)"

definition try_collect_major ::
  "heap_layout \<Rightarrow> 'r root_visitor \<Rightarrow> 'r \<times> page_heap \<Rightarrow>
     gc_abort + ((gc_error + 'r \<times> collect_result) \<times> page_heap)" where
  "try_collect_major L visit_roots = try_collect (collect_major L visit_roots)"

definition try_collect_auto ::
  "heap_layout \<Rightarrow> 'r root_visitor \<Rightarrow> 'r \<times> page_heap \<Rightarrow>
     gc_abort + ((gc_error + 'r \<times> collect_result) \<times> page_heap)" where
  "try_collect_auto L visit_roots = try_collect (collect_auto L visit_roots)"

section \<open>The production minor cycle\<close>

text \<open>The conservative pins from the stack ranges; \<open>cfg\<close> says whether the feature is compiled in.\<close>

definition pin_stacks ::
  "heap_layout \<Rightarrow> bool \<Rightarrow> bool \<Rightarrow> (u64 \<Rightarrow> u64) \<Rightarrow> (u64 \<times> u64) list \<Rightarrow> page_heap \<Rightarrow> page_heap" where
  "pin_stacks L cfg no_conservative_pin mem ranges h =
     (if \<not> cfg then h\<lparr>last_pin_summary := (0, 0)\<rparr>
      else
        (let (pin_g0, h) = pin_pointers_in_ranges L no_conservative_pin mem h G0 ranges;
             (pin_g1, h) = pin_pointers_in_ranges L no_conservative_pin mem h G1 ranges
         in h\<lparr>last_pin_summary := (n_objects pin_g0 + n_objects pin_g1, n_cells pin_g0 + n_cells pin_g1)\<rparr>))"

definition extend_for_pins :: "heap_layout \<Rightarrow> page_heap \<Rightarrow> page_heap option" where
  "extend_for_pins L h =
     (if recycle_live_counts_active_for h G0
      then (case extend_mark_from_pinned L h G0 of
              None \<Rightarrow> None
            | Some (_, h) \<Rightarrow>
                (case extend_mark_from_pinned L h G1 of
                   None \<Rightarrow> None
                 | Some (_, h) \<Rightarrow>
                     (case extend_mark_from_cross_gen_pinned L h G0 of
                        None \<Rightarrow> None
                      | Some (_, h) \<Rightarrow>
                          Some (release_zero_live_unpinned_pages (prepare_recycle_live_counts_from_marks h G0) G0))))
      else Some h)"

text \<open>The roots of the cycle: the caller's, the static area's dirty cards, the reservation's.\<close>

definition with_static ::
  "heap_layout \<Rightarrow> page_desc list \<Rightarrow> 'r root_visitor \<Rightarrow> ('r \<times> static_area) root_visitor" where
  "with_static L descs_at_scan_time visit_roots = (\<lambda>(r, sa) ev.
     bind_res (visit_roots r ev)
       (\<lambda>(r, ev).
          (case scan_dirty_cards_as_roots L (sa_cards sa) (sa_base sa) (sa_cells sa) None (sa_words sa, ev) of
             None \<Rightarrow> Inl Panic
           | Some (mem, ev) \<Rightarrow>
               with_cards L descs_at_scan_time (\<lambda>r ev. Inr (r, ev)) (r, sa\<lparr>sa_words := mem\<rparr>) ev)))"

definition collect_minor_with_static ::
  "heap_layout \<Rightarrow> bool \<Rightarrow> bool \<Rightarrow> (u64 \<Rightarrow> u64) \<Rightarrow> (u64 \<times> u64) list \<Rightarrow> 'r root_visitor \<Rightarrow>
     ('r \<times> static_area) \<times> page_heap \<Rightarrow> gc_abort + (('r \<times> static_area) \<times> page_heap)" where
  "collect_minor_with_static L cfg no_conservative_pin mem ranges visit_roots = (\<lambda>(rs, h).
     (let h = pin_stacks L cfg no_conservative_pin mem ranges h in
      case extend_for_pins L h of
        None \<Rightarrow> Inl Panic
      | Some h \<Rightarrow>
          bind_res (collect_minor L (with_static L (descs h) visit_roots) (rs, h))
            (\<lambda>((r, sa), h, res).
               (let h = h\<lparr>cards := clear_cards_unless_intergen L (cells h) (reserved_bytes h div 8) (cards h)\<rparr>;
                    sa = sa\<lparr>sa_cards := clear_cards_unless_intergen L (sa_words sa) (sa_cells sa) (sa_cards sa)\<rparr>
                in Inr ((r, sa), h)))))"

section \<open>A driver's collection\<close>

text \<open>
  What \<open>drive_collect\<close> does with the heap once the world is stopped, for the windows
  \<open>(active, lo, hi)\<close> of the mutators in its list: pin what the stacks name, in every generation
  the collection moves, then run it.
\<close>

definition stack_windows :: "(bool \<times> u64 \<times> u64) list \<Rightarrow> (u64 \<times> u64) list" where
  "stack_windows others = map snd (filter (\<lambda>(active, lo, hi). active \<and> lo < hi) others)"

definition pin_windows ::
  "heap_layout \<Rightarrow> bool \<Rightarrow> (u64 \<Rightarrow> u64) \<Rightarrow> (bool \<times> u64 \<times> u64) list \<Rightarrow> generation list \<Rightarrow> page_heap \<Rightarrow> page_heap" where
  "pin_windows L no_conservative_pin mem others pin_gens h =
     (let ranges = stack_windows others in
      if ranges = [] then h
      else fold (\<lambda>g h. snd (pin_pointers_in_ranges L no_conservative_pin mem h g ranges)) pin_gens h)"

definition drive_minor ::
  "heap_layout \<Rightarrow> bool \<Rightarrow> (u64 \<Rightarrow> u64) \<Rightarrow> (bool \<times> u64 \<times> u64) list \<Rightarrow> 'r root_visitor \<Rightarrow> 'r \<times> page_heap \<Rightarrow>
     gc_abort + ('r \<times> page_heap \<times> collect_result)" where
  "drive_minor L no_conservative_pin mem others visit_roots = (\<lambda>(r, h).
     collect_minor L visit_roots (r, pin_windows L no_conservative_pin mem others [G0, G1] h))"

definition drive_full ::
  "heap_layout \<Rightarrow> bool \<Rightarrow> (u64 \<Rightarrow> u64) \<Rightarrow> (bool \<times> u64 \<times> u64) list \<Rightarrow> 'r root_visitor \<Rightarrow> 'r \<times> page_heap \<Rightarrow>
     gc_abort + ('r \<times> page_heap \<times> full_collect_result)" where
  "drive_full L no_conservative_pin mem others visit_roots = (\<lambda>(r, h).
     collect_full L visit_roots (r, pin_windows L no_conservative_pin mem others [G0, G1, Tenured] h))"

end
