(* ===== verification/Cycle_Frame.thy ===== *)
theory Cycle_Frame
  imports Cycle
begin

text \<open>
  What the passes of an evacuation leave alone, stated once for all of them: the counters of the
  cycle policy, the poison flag, and the page table up to the pages that change hands.
  \<open>shape d h h'\<close> says that a page in use keeps its generation, kind and span and that a Free page
  stays Free or becomes a small page of generation \<open>d\<close>; the mark, copy and rewrite passes are all
  of this form. \<open>keeps_out g h h'\<close> says that no page enters generation \<open>g\<close>.
\<close>

section \<open>Frames\<close>

definition policy :: "page_heap \<Rightarrow> u32 \<times> u32 \<times> bool \<times> nat" where
  "policy h = (minors_since_g0_promote h, g0_promotes_since_g1_promote h, poisoned h, length (descs h))"

definition desc_tag :: "page_desc \<Rightarrow> generation \<times> page_kind \<times> u16" where
  "desc_tag d = (pgen d, kind d, n_span d)"

definition shape :: "generation \<Rightarrow> page_heap \<Rightarrow> page_heap \<Rightarrow> bool" where
  "shape g h h' \<longleftrightarrow> policy h' = policy h \<and>
     (\<forall>p < length (descs h).
        (pgen (descs h ! p) \<noteq> Gen_Free \<longrightarrow> desc_tag (descs h' ! p) = desc_tag (descs h ! p)) \<and>
        (pgen (descs h ! p) = Gen_Free \<longrightarrow> pgen (descs h' ! p) = Gen_Free \<or>
           (pgen (descs h' ! p) = g \<and> kind (descs h' ! p) \<noteq> Kind_Large)))"

definition keeps_out :: "generation \<Rightarrow> page_heap \<Rightarrow> page_heap \<Rightarrow> bool" where
  "keeps_out g h h' \<longleftrightarrow> policy h' = policy h \<and>
     (\<forall>p < length (descs h). pgen (descs h' ! p) = g \<longrightarrow> desc_tag (descs h' ! p) = desc_tag (descs h ! p))"

lemma shape_refl [simp, intro]: "shape g h h"
  by (simp add: shape_def)

lemma policy_length: "policy h' = policy h \<Longrightarrow> length (descs h') = length (descs h)"
  by (simp add: policy_def)

lemma shape_trans:
  assumes "shape g h h1" "shape g h1 h2" "g \<noteq> Gen_Free"
  shows "shape g h h2"
proof -
  have len: "length (descs h1) = length (descs h)" using assms(1) by (auto simp: shape_def policy_def)
  show ?thesis
    unfolding shape_def
  proof (intro conjI allI impI)
    show "policy h2 = policy h" using assms by (simp add: shape_def)
    fix p assume p: "p < length (descs h)"
    note 1 = assms(1) [unfolded shape_def, THEN conjunct2, rule_format, OF p]
    note 2 = assms(2) [unfolded shape_def, THEN conjunct2, rule_format, OF p [folded len]]
    show "desc_tag (descs h2 ! p) = desc_tag (descs h ! p)" if "pgen (descs h ! p) \<noteq> Gen_Free"
      using 1 2 that by (simp add: desc_tag_def)
    show "pgen (descs h2 ! p) = Gen_Free \<or> pgen (descs h2 ! p) = g \<and> kind (descs h2 ! p) \<noteq> Kind_Large"
      if "pgen (descs h ! p) = Gen_Free"
      using 1 2 that assms(3) by (auto simp: desc_tag_def)
  qed
qed

text \<open>The page table keeps its tags, whatever else changes.\<close>

lemma shapeI:
  assumes "policy h' = policy h" "\<And>p. p < length (descs h) \<Longrightarrow> desc_tag (descs h' ! p) = desc_tag (descs h ! p)"
  shows "shape g h h'"
  using assms by (simp add: shape_def desc_tag_def)

lemma shape_same: "policy h' = policy h \<Longrightarrow> descs h' = descs h \<Longrightarrow> shape g h h'"
  by (rule shapeI) simp_all

lemma shape_marks:
  assumes "same_but_marks h h'"
  shows "shape g h h'"
proof (rule shape_same)
  have e: "h' = h\<lparr>mark_bits := mark_bits h'\<rparr>" using assms by (simp add: same_but_marks_def)
  show "policy h' = policy h" by (subst e) (simp add: policy_def)
  show "descs h' = descs h" by (subst e) simp
qed

lemma shape_marks_pins:
  assumes "same_but_marks_pins h h'"
  shows "shape g h h'"
proof (rule shapeI)
  note s = same_but_marks_pins_sel [OF assms]
  have e: "h' = h\<lparr>mark_bits := mark_bits h', descs := descs h', pinned_cells := pinned_cells h'\<rparr>"
    using assms by (simp add: same_but_marks_pins_def)
  have "minors_since_g0_promote h' = minors_since_g0_promote h"
    "g0_promotes_since_g1_promote h' = g0_promotes_since_g1_promote h" "poisoned h' = poisoned h"
    by (subst e, simp)+
  then show "policy h' = policy h" using s(5) by (simp add: policy_def)
  show "desc_tag (descs h' ! p) = desc_tag (descs h ! p)" for p using s by (simp add: desc_tag_def)
qed

lemma shape_desc_update:
  assumes "\<And>d. desc_tag (f d) = desc_tag d"
  shows "shape g h (desc_update h i f)"
proof (rule shapeI)
  show "policy (desc_update h i f) = policy h" by (simp add: policy_def desc_update_def)
  show "desc_tag (descs (desc_update h i f) ! p) = desc_tag (descs h ! p)" if "p < length (descs h)" for p
    using that assms by (cases "p = i") auto
qed

lemma policy_updates [simp]:
  "policy (h\<lparr>cells := m\<rparr>) = policy h" "policy (h\<lparr>start_bits := b\<rparr>) = policy h"
  "policy (h\<lparr>mark_bits := b\<rparr>) = policy h" "policy (h\<lparr>cards := c\<rparr>) = policy h"
  "policy (h\<lparr>free_page_list := l\<rparr>) = policy h" "policy (h\<lparr>alloc_regions := a\<rparr>) = policy h"
  "policy (h\<lparr>bytes_alloc_since_gc := n\<rparr>) = policy h" "policy (h\<lparr>pinned_cells := cs\<rparr>) = policy h"
  "policy (h\<lparr>pages_high_water := n\<rparr>) = policy h" "policy (h\<lparr>os_calls := n\<rparr>) = policy h"
  "policy (h\<lparr>committed_bits := b\<rparr>) = policy h" "policy (h\<lparr>committed_count := n\<rparr>) = policy h"
  "policy (desc_update h i f) = policy h" "policy (charge_bytes h n) = policy h"
  "policy (zero_page_cells h n) = policy h" "policy (raise_high_water h n) = policy h"
  "policy (alloc_region_update h g k r) = policy h" "policy (release_page_to_free h n z) = policy h"
  by (simp_all add: policy_def desc_update_def charge_bytes_def zero_page_cells_def raise_high_water_def
      alloc_region_update_def release_page_to_free_def Let_def split: option.split)

lemma commit_policy: "commit_page h i = (r, h') \<Longrightarrow> policy h' = policy h"
  by (auto simp: commit_page_def os_call_def policy_def Let_def split: if_splits)

lemma decommit_policy: "policy (snd (decommit_page h i)) = policy h"
  by (simp add: decommit_page_def os_call_def policy_def Let_def)

section \<open>Allocation\<close>

lemma alloc_region_update_descs [simp]: "descs (alloc_region_update h g k f) = descs h"
  by (simp add: alloc_region_update_def split: option.split)

lemma shape_acquire:
  assumes a: "acquire_free_page h g k = (r, h')" and k: "k \<noteq> Kind_Large" and g: "g \<noteq> Gen_Free"
  shows "shape g h h'"
  using a
proof (cases rule: acquire_free_page_cases)
  case exhausted
  then show ?thesis by (simp add: shape_same)
next
  case (refused idx rest e)
  have "policy h' = policy h" using commit_policy [OF refused(5)] by simp
  then show ?thesis using commit_page_frame(4) [OF refused(5)] by (simp add: shape_same)
next
  case (acquired idx rest h2 fresh)
  have p: "policy h2 = policy h" using commit_policy [OF acquired(5)] by simp
  have d: "descs h2 = descs h" using commit_page_frame(4) [OF acquired(5)] by simp
  have "policy h' = policy h" "descs h' = (descs h)[idx := desc_fresh g k]"
    using p d by (simp_all add: acquired(6) Let_def)
  then show ?thesis
    using acquired(3) k g by (auto simp: shape_def nth_update)
qed

lemma shape_bump:
  assumes "try_bump_in_current h g k n a = Some (res, h')"
  shows "shape g' h h'"
proof -
  have "shape g' h (charge_bytes (desc_update (alloc_region_update h g k f) p
      (\<lambda>d. d\<lparr>words_used := w d\<rparr>)\<lparr>start_bits := b\<rparr>) n)" for f p w b
    by (rule shapeI) (auto simp: nth_update desc_tag_def)
  then show ?thesis
    using assms by (auto simp: try_bump_in_current_def Let_def split: option.splits if_splits)
qed

lemma shape_alloc_in_region:
  assumes t: "try_alloc_in_region h g k n a = Some (res, h')" and k: "k \<noteq> Kind_Large" and g: "g \<noteq> Gen_Free"
  shows "shape g h h'"
proof (cases "poisoned h")
  case True
  then show ?thesis using t by (simp add: try_alloc_in_region_def)
next
  case False
  obtain b h1 where b: "try_bump_in_current h g k n a = Some (b, h1)"
    using t False by (auto simp: try_alloc_in_region_def split: option.splits)
  note s1 = shape_bump [OF b, of g]
  obtain ar h2 where a: "acquire_free_page h1 g k = (ar, h2)" by fastforce
  note s2 = shape_trans [OF s1 shape_acquire [OF a k g] g]
  have s3: "shape g h (open_region_on h2 g k idx)" for idx
    by (rule shape_trans [OF s2 shape_same g]) (simp_all add: open_region_on_def)
  show ?thesis
    using t False b a s1 s2 shape_trans [OF s3 shape_bump g]
    by (auto simp: try_alloc_in_region_def split: option.splits if_splits)
qed

lemma shape_alloc_copy:
  assumes "alloc_copy h g a n = Some (res, h')" "g \<noteq> Gen_Free"
  shows "shape g h h'"
  using assms shape_alloc_in_region [of h g Kind_Cons 2 True res h'] shape_alloc_in_region [of h g Kind_Boxed n False res h']
  by (auto simp: alloc_copy_def try_alloc_cons_in_def try_alloc_boxed_in_def split: if_splits)

section \<open>Phases 1 and 2\<close>

lemma shape_install: "shape g h (install_copy L c p n h)"
  by (rule shape_same) (simp_all add: install_copy_def Let_def)

lemma shape_copy_loop:
  assumes "copy_loop L f g tot lim c (h, objs, n) = Inr (h', objs', n')" "g \<noteq> Gen_Free"
  shows "shape g h h'"
proof -
  obtain obj0 cell0 freed0 where t: "tot = (obj0, cell0, freed0)" by (cases tot)
  show ?thesis
    using assms unfolding t
  proof (induction L f g "(obj0, cell0, freed0)" lim c "(h, objs, n)" arbitrary: h objs n rule: copy_loop.induct)
    case (1 L f g lim c h objs n)
    note g = "1.prems"(2)
    note eq = "1.prems"(1) [unfolded copy_loop.simps [of L f g _ _ _ lim c]]
    show ?case
    proof (cases "c < lim \<and> is_marked h c \<and> is_start_at (start_bits h) c \<and> is_real_forward_target_at L h c (cells h c) = None")
      case False
      then show ?thesis using eq g 1(1-3) by (auto split: if_splits)
    next
      case True
      then obtain a sz where o: "object_extent L h c = Some (a, sz)"
        using eq by (auto split: option.splits)
      show ?thesis
      proof (cases "is_pinned_cell h c")
        case p: True
        then show ?thesis using eq g True o 1(4) by (auto split: if_splits)
      next
        case p: False
        obtain d h1 where al: "alloc_copy h g a sz = Some (Some d, h1)"
          using eq True o p by (auto split: option.splits)
        have "copy_loop L f g (obj0, cell0, freed0) lim (c + sz) (install_copy L c d sz h1, objs + 1, n + sz) = Inr (h', objs', n')"
          using eq True o p al by simp
        then have "shape g (install_copy L c d sz h1) h'"
          using 1(5) g True o p al by auto
        then show ?thesis
          using shape_trans [OF shape_trans [OF shape_alloc_copy [OF al g] shape_install g] _ g]
          by blast
      qed
    qed
  qed
qed

lemma fold_res_shape:
  assumes "fold_res f xs s = Inr s'" "g \<noteq> Gen_Free"
    "\<And>x t t'. x \<in> set xs \<Longrightarrow> f x t = Inr t' \<Longrightarrow> shape g (hp t) (hp t')"
  shows "shape g (hp s) (hp s')"
  by (rule fold_res_invariant [OF assms(1), of "\<lambda>t. shape g (hp s) (hp t)"])
    (use assms(2,3) shape_trans in blast)+

lemma fold_shape:
  assumes "g \<noteq> Gen_Free" "\<And>x t. x \<in> set xs \<Longrightarrow> shape g (hp t) (hp (f x t))"
  shows "shape g (hp s) (hp (fold f xs s))"
  using assms(2)
proof (induction xs arbitrary: s)
  case (Cons x xs)
  show ?case
    using shape_trans [OF Cons.prems [of x s] Cons.IH [of "f x s"] assms(1)] Cons.prems by simp
qed simp

lemma shape_phase1:
  assumes "phase1_copy_chunk L h f g chunk o0 c0 f0 = Inr (h', objs, n)" "g \<noteq> Gen_Free"
  shows "shape g h h'"
proof -
  have "shape g (fst (h, 0::nat, 0::nat)) (fst (h', objs, n))"
  proof (rule fold_res_shape [OF assms(1) [unfolded phase1_copy_chunk_def] assms(2)])
    fix p t t' assume c: "copy_page L f g (o0, c0, f0) p t = Inr t'"
    obtain h1 o1 n1 where t: "t = (h1, o1, n1)" by (cases t)
    obtain h2 o2 n2 where t': "t' = (h2, o2, n2)" by (cases t')
    show "shape g (fst t) (fst t')"
      using c shape_copy_loop [OF _ assms(2)] by (auto simp: copy_page_def t t' Let_def split: if_splits)
  qed
  then show ?thesis by simp
qed

lemma shape_rewrite_cells: "g \<noteq> Gen_Free \<Longrightarrow> shape g h (rewrite_cells L f cs h)"
  unfolding rewrite_cells_def
  by (rule fold_shape [of g _ "\<lambda>h. h"]) (auto intro: shape_same split: option.split)

lemma shape_rewrite_loop:
  assumes "g \<noteq> Gen_Free"
  shows "rewrite_loop L f lim c h = Inr h' \<Longrightarrow> shape g h h'"
proof (induction L f lim c h rule: rewrite_loop.induct)
  case (1 L f lim c h)
  note eq = "1.prems" [unfolded rewrite_loop.simps [of L f lim c h]]
  show ?case
  proof (cases "c < lim \<and> is_start_at (start_bits h) c \<and> is_real_forward_target_at L h c (cells h c) = None")
    case False
    then show ?thesis using eq "1.IH"(1,2) by (auto split: if_splits)
  next
    case True
    then obtain a sz where o: "object_extent L h c = Some (a, sz)"
      using eq by (auto split: option.splits)
    obtain cs where cs: "cross_gen_payload L h c = Some cs" using eq True o by (auto split: option.splits)
    have sz: "sz \<noteq> 0" "rewrite_loop L f lim (c + sz) (rewrite_cells L f cs h) = Inr h'"
      using eq True o cs by (auto split: if_splits)
    then have "shape g (rewrite_cells L f cs h) h'" using "1.IH"(3) True o cs by auto
    then show ?thesis using shape_trans [OF shape_rewrite_cells _ assms] assms by blast
  qed
qed

text \<open>A caller's closure is tame when it touches the heap through the scanner only.\<close>

definition tame :: "'r root_visitor \<Rightarrow> bool" where
  "tame v \<longleftrightarrow> (\<forall>r ev r' ev' g. v r ev = Inr (r', ev') \<longrightarrow> g \<noteq> Gen_Free \<longrightarrow> shape g (ev_heap ev) (ev_heap ev'))"

lemma tameD: "tame v \<Longrightarrow> v r ev = Inr (r', ev') \<Longrightarrow> g \<noteq> Gen_Free \<Longrightarrow> shape g (ev_heap ev) (ev_heap ev')"
  by (simp add: tame_def)

lemma shape_phase2:
  assumes p: "phase2_rewrite L f g v (r, h) = Inr (r', h')" and v: "tame v" and g: "g \<noteq> Gen_Free"
  shows "shape g h h'"
proof -
  obtain rw where 1: "v r \<lparr>ev_heap = h, ev_from_gen = f, ev_dest_gen = g, ev_mode = Mode_Rewrite, mark_queue = []\<rparr>
      = Inr (r', rw)" and rest: "bind_res (fold_res (rewrite_page L f) (pages_in_gen (ev_heap rw) g) (ev_heap rw))
        (\<lambda>h. fold_res (rewrite_pinned_object L f) (pinned_cells h) h) = Inr h'"
    using p by (auto simp: phase2_rewrite_def bind_res_Inr Let_def)
  have s1: "shape g h (ev_heap rw)" using tameD [OF v 1 g] by simp
  obtain h2 where 2: "fold_res (rewrite_page L f) (pages_in_gen (ev_heap rw) g) (ev_heap rw) = Inr h2"
    and 3: "fold_res (rewrite_pinned_object L f) (pinned_cells h2) h2 = Inr h'"
    using rest by (auto simp: bind_res_Inr)
  have s2: "shape g (ev_heap rw) h2"
    by (rule fold_res_shape [OF 2 g, of "\<lambda>h. h"])
      (auto simp: rewrite_page_def Let_def shape_rewrite_loop [OF g] split: if_splits)
  have s3: "shape g h2 h'"
    by (rule fold_res_shape [OF 3 g, of "\<lambda>h. h"])
      (auto simp: rewrite_pinned_object_def shape_rewrite_cells [OF g] split: if_splits option.splits)
  show ?thesis using shape_trans [OF shape_trans [OF s1 s2 g] s3 g] .
qed

section \<open>Marks, pins and visitors\<close>

lemma shape_clear_marks [simp]: "shape g h (clear_mark_bits_in_gen h t)"
  by (rule shape_same) (simp_all add: clear_mark_bits_in_gen_def)

lemma shape_prepare [simp]: "shape g h (prepare_recycle_live_counts_from_marks h t)"
  by (rule shape_same)
    (simp_all add: prepare_recycle_live_counts_from_marks_def policy_def Let_def split: prod.split)

lemma shape_insert_pinned: "shape g h (desc_update (snd (insert_pinned h c)) p (\<lambda>d. set_pin d s))"
proof (rule shapeI)
  show "policy (desc_update (snd (insert_pinned h c)) p (\<lambda>d. set_pin d s)) = policy h"
    by (simp add: insert_pinned_def)
  show "desc_tag (descs (desc_update (snd (insert_pinned h c)) p (\<lambda>d. set_pin d s)) ! q) = desc_tag (descs h ! q)"
    if "q < length (descs h)" for q
    using that by (auto simp: insert_pinned_def nth_update desc_tag_def)
qed

lemma shape_fold_explicit: "g \<noteq> Gen_Free \<Longrightarrow> shape g h (fold fold_explicit_pin cs h)"
  by (rule fold_shape [of g _ "\<lambda>h. h"]) (simp_all add: fold_explicit_pin_def Let_def shape_insert_pinned)

lemma shape_extend:
  assumes "extend_mark_from_pinned L h t = Some (n, h')"
  shows "shape g h h'"
proof (cases "pinned_cells h = []")
  case True
  then show ?thesis using assms by (simp add: extend_mark_from_pinned_def)
next
  case False
  obtain m h1 q where f: "fold (offer_pin t) (pinned_cells h) (0, h, []) = (m, h1, q)" by (metis prod_cases3)
  have "drain L t (h1, q) = Some h'" using assms False by (auto simp: extend_mark_from_pinned_def f)
  then show ?thesis
    using offer_pins_facts [OF f] drain_same by (metis fst_conv same_but_marks_trans shape_marks)
qed

lemma shape_extend_cross:
  assumes "extend_mark_from_cross_gen_pinned L h t = Some (n, h')"
  shows "shape g h h'"
proof (cases "pinned_cells h = []")
  case True
  then show ?thesis using assms by (simp add: extend_mark_from_cross_gen_pinned_def)
next
  case False
  obtain m h1 q where f: "fold_opt (offer_cross_gen_pin L t) (pinned_cells h) (0, h, []) = Some (m, h1, q)"
    and d: "drain L t (h1, q) = Some h'"
    using assms False by (auto simp: extend_mark_from_cross_gen_pinned_def split: option.splits)
  then show ?thesis
    using offer_crosses_facts [OF f] drain_same [OF d] by (metis fst_conv same_but_marks_trans shape_marks)
qed

lemma shape_apply_pins:
  assumes a: "apply_pins_and_extend_mark L h f = Some h'" and g: "g \<noteq> Gen_Free"
  shows "shape g h h'"
proof -
  define h0 where "h0 = fold fold_explicit_pin (map fst (explicit_pins h)) h"
  have s0: "shape g h h0" unfolding h0_def by (rule shape_fold_explicit [OF g])
  show ?thesis
  proof (cases "recycle_live_counts_active_for h0 f \<and> pinned_cells h0 \<noteq> []")
    case False
    then have "h' = h0"
      using a unfolding apply_pins_and_extend_mark_def h0_def [symmetric] Let_def by (simp split: if_splits)
    then show ?thesis using s0 by simp
  next
    case True
    then obtain n h1 m h2 where "extend_mark_from_pinned L h0 f = Some (n, h1)"
      "extend_mark_from_cross_gen_pinned L h1 f = Some (m, h2)" "h' = prepare_recycle_live_counts_from_marks h2 f"
      using a by (auto simp: apply_pins_and_extend_mark_def h0_def [symmetric] split: option.splits)
    then show ?thesis
      using shape_trans [OF shape_trans [OF shape_trans [OF s0 shape_extend g] shape_extend_cross g] shape_prepare g]
      by blast
  qed
qed

lemma shape_visit_slot: "mark_visit_slot L f w (h, q) = (h', q') \<Longrightarrow> shape g h h'"
  by (rule shape_marks_pins [OF mark_visit_slot_same])

lemma shape_visit: "visit L w ev = (w', ev') \<Longrightarrow> shape g (ev_heap ev) (ev_heap ev')"
  using shape_visit_slot [of L "ev_from_gen ev" w "ev_heap ev" "mark_queue ev"]
  by (auto simp: visit_def split: evac_mode.splits prod.splits option.splits)

lemma shape_visit_cell: "shape g (ev_heap ev) (ev_heap (visit_cell L c ev))"
  using shape_visit_slot [of L "ev_from_gen ev" "cells (ev_heap ev) c" "ev_heap ev" "mark_queue ev"]
  by (auto simp: visit_cell_def shape_same split: evac_mode.splits prod.splits option.splits)

lemma visit_word_list_shape:
  assumes "g \<noteq> Gen_Free"
  shows "visit_word_list L ws ev = (ws', ev') \<Longrightarrow> shape g (ev_heap ev) (ev_heap ev')"
proof (induction ws arbitrary: ev ws' ev')
  case (Cons w ws)
  obtain w1 ev1 where 1: "visit L w ev = (w1, ev1)" by fastforce
  obtain ws1 ev2 where 2: "visit_word_list L ws ev1 = (ws1, ev2)" by fastforce
  show ?case using Cons.prems Cons.IH [OF 2] shape_trans [OF shape_visit [OF 1] _ assms] by (simp add: 1 2)
qed simp

lemma tame_word_roots: "tame (word_roots_visitor L)"
  using visit_word_list_shape by (auto simp: tame_def word_roots_visitor_def)

lemma shape_card_loop:
  assumes "g \<noteq> Gen_Free"
  shows "card_loop L (visit_cell L) (ev_heap :: page_evacuator \<Rightarrow> page_heap) s e ev = Some ev' \<Longrightarrow>
    shape g (ev_heap ev) (ev_heap ev')"
proof (induction L "visit_cell L" "ev_heap :: page_evacuator \<Rightarrow> page_heap" s e ev rule: card_loop.induct)
  case (1 L s e ev)
  note eq = "1.prems" [unfolded card_loop.simps [of L _ _ s e ev]]
  have f: "shape g (ev_heap ev) (ev_heap (fold (visit_cell L) cs ev))" for cs
    by (rule fold_shape [OF assms]) (rule shape_visit_cell)
  show ?case
  proof (cases "s < e \<and> is_start_at (start_bits (ev_heap ev)) s")
    case False
    then show ?thesis using eq by (auto split: if_splits)
  next
    case True
    then obtain sz a b where o: "object_pointer_cells L (ev_heap ev) s = Some (sz, a, b)"
      using eq by (auto split: option.splits)
    show ?thesis
    proof (cases "sz = 0")
      case z: True
      then show ?thesis using eq True o f by (auto simp: Let_def)
    next
      case z: False
      then have "card_loop L (visit_cell L) ev_heap (s + sz) e (fold (visit_cell L) [s + a..<s + b] ev) = Some ev'"
        using eq True o by (simp add: Let_def)
      then have "shape g (ev_heap (fold (visit_cell L) [s + a..<s + b] ev)) (ev_heap ev')"
        using 1(1) [OF _ _ o refl refl refl z] True by simp
      then show ?thesis using shape_trans [OF f _ assms] by blast
    qed
  qed
qed

lemma shape_scan_cards:
  assumes s: "scan_dirty_cards_as_roots L ct b n flt (mem, ev) = Some (mem', ev')" and g: "g \<noteq> Gen_Free"
  shows "shape g (ev_heap ev) (ev_heap ev')"
proof -
  let ?hp = "\<lambda>t :: (nat \<Rightarrow> u64) \<times> page_evacuator. ev_heap (snd t)"
  have card: "shape g (?hp t) (?hp t')" if c: "scan_card_as_roots L ct b n flt i t = Some t'" for i t t'
  proof -
    obtain m ev m' ev' where t: "t = (m, ev)" "t' = (m', ev')" by fastforce
    have ext: "shape g (?hp t) (?hp (fold (visit_external_cell L) cs t))" for cs t
      by (rule fold_shape [OF g]) (auto simp: visit_external_cell_def shape_visit split: prod.splits)
    have ext': "fold (visit_external_cell L) cs (m, ev) = (m', ev') \<Longrightarrow> shape g (ev_heap ev) (ev_heap ev')" for cs
      using ext [of "(m, ev)" cs] by simp
    show ?thesis
      using c ext' shape_card_loop [OF g] unfolding t
      by (auto simp: scan_card_as_roots_def Let_def evac_visit_card_def visit_card_pointer_cells_def split: if_splits)
  qed
  have "shape g (?hp (mem, ev)) (?hp (mem', ev'))"
    by (rule fold_opt_invariant [OF s [unfolded scan_dirty_cards_as_roots_def], of "\<lambda>t. shape g (?hp (mem, ev)) (?hp t)"])
      (use card shape_trans [OF _ _ g] in blast)+
  then show ?thesis by simp
qed

lemma tame_with_cards:
  assumes "tame v"
  shows "tame (with_cards L ds v)"
  unfolding tame_def
proof (intro allI impI)
  fix r ev r' ev' g assume w: "with_cards L ds v r ev = Inr (r', ev')" and g: "g \<noteq> Gen_Free"
  obtain ev1 mem where 1: "v r ev = Inr (r', ev1)"
    and 2: "scan_dirty_cards_as_roots L (cards (ev_heap ev1)) (base_ptr (ev_heap ev1))
      (reserved_bytes (ev_heap ev1) div 8) (Some ds) (cells (ev_heap ev1), ev1) = Some (mem, ev')"
    using w by (auto simp: with_cards_def bind_res_Inr Let_def split: option.splits)
  show "shape g (ev_heap ev) (ev_heap ev')"
    using shape_trans [OF tameD [OF assms 1 g] shape_scan_cards [OF 2 g] g] .
qed

lemma shape_internal_mark:
  assumes m: "internal_mark L f d v (r, h) = Inr (r', h')" and v: "tame v" and g: "g \<noteq> Gen_Free"
  shows "shape g h h'"
proof -
  obtain ev h1 where 1: "v r \<lparr>ev_heap = clear_mark_bits_in_gen h f, ev_from_gen = f, ev_dest_gen = d,
      ev_mode = Mode_Mark, mark_queue = []\<rparr> = Inr (r', ev)"
    and 2: "mark_drain L f (ev_heap ev, mark_queue ev) = Some h1"
    and h': "h' = prepare_recycle_live_counts_from_marks h1 f"
    using m by (auto simp: internal_mark_def bind_res_Inr split: option.splits)
  have "shape g (clear_mark_bits_in_gen h f) (ev_heap ev)" using tameD [OF v 1 g] by simp
  then have "shape g h (ev_heap ev)" by (rule shape_trans [OF shape_clear_marks _ g])
  then show ?thesis
    using shape_trans [OF shape_trans [OF _ shape_marks_pins [OF mark_drain_facts(1) [OF 2]] g] shape_prepare g]
    unfolding h' by blast
qed

end
