(* ===== verification/Cycle_Pages.thy ===== *)
theory Cycle_Pages
  imports Cycle_Frame
begin

text \<open>
  What a whole evacuation does to the page table. Large runs stay whole, no page enters a
  generation that is neither source nor destination, and when source and destination differ the
  source generation is empty at the end, whatever the number of chunks. For the cycles:
  counters, pins and which generations are empty afterwards.
\<close>

section \<open>Whole runs\<close>

text \<open>Every Large run in use is a head followed by its continuations, all in one generation.\<close>

definition runs_whole :: "page_heap \<Rightarrow> bool" where
  "runs_whole h \<longleftrightarrow>
     (\<forall>q < length (descs h). is_large_head (descs h ! q) \<and> pgen (descs h ! q) \<noteq> Gen_Free \<longrightarrow>
        q + unat (n_span (descs h ! q)) \<le> length (descs h) \<and>
        (\<forall>p. q < p \<and> p < q + unat (n_span (descs h ! q)) \<longrightarrow>
           is_large_cont (descs h ! p) \<and> pgen (descs h ! p) = pgen (descs h ! q))) \<and>
     (\<forall>p < length (descs h). is_large_cont (descs h ! p) \<and> pgen (descs h ! p) \<noteq> Gen_Free \<longrightarrow>
        (\<exists>q < p. is_large_head (descs h ! q) \<and> pgen (descs h ! q) = pgen (descs h ! p) \<and>
           p < q + unat (n_span (descs h ! q))))"

lemma runs_wholeD:
  assumes "runs_whole h"
  shows "q < length (descs h) \<Longrightarrow> is_large_head (descs h ! q) \<Longrightarrow> pgen (descs h ! q) \<noteq> Gen_Free \<Longrightarrow>
      q + unat (n_span (descs h ! q)) \<le> length (descs h)"
    "q < length (descs h) \<Longrightarrow> is_large_head (descs h ! q) \<Longrightarrow> pgen (descs h ! q) \<noteq> Gen_Free \<Longrightarrow>
      q < p \<Longrightarrow> p < q + unat (n_span (descs h ! q)) \<Longrightarrow>
      is_large_cont (descs h ! p) \<and> pgen (descs h ! p) = pgen (descs h ! q)"
    "p < length (descs h) \<Longrightarrow> is_large_cont (descs h ! p) \<Longrightarrow> pgen (descs h ! p) \<noteq> Gen_Free \<Longrightarrow>
      \<exists>q < p. is_large_head (descs h ! q) \<and> pgen (descs h ! q) = pgen (descs h ! p) \<and>
        p < q + unat (n_span (descs h ! q))"
  using assms unfolding runs_whole_def by blast+

lemma runs_wholeI:
  assumes "\<And>q. q < length (descs h) \<Longrightarrow> is_large_head (descs h ! q) \<Longrightarrow> pgen (descs h ! q) \<noteq> Gen_Free \<Longrightarrow>
      q + unat (n_span (descs h ! q)) \<le> length (descs h)"
    "\<And>q p. q < length (descs h) \<Longrightarrow> is_large_head (descs h ! q) \<Longrightarrow> pgen (descs h ! q) \<noteq> Gen_Free \<Longrightarrow>
      q < p \<Longrightarrow> p < q + unat (n_span (descs h ! q)) \<Longrightarrow>
      is_large_cont (descs h ! p) \<and> pgen (descs h ! p) = pgen (descs h ! q)"
    "\<And>p. p < length (descs h) \<Longrightarrow> is_large_cont (descs h ! p) \<Longrightarrow> pgen (descs h ! p) \<noteq> Gen_Free \<Longrightarrow>
      \<exists>q < p. is_large_head (descs h ! q) \<and> pgen (descs h ! q) = pgen (descs h ! p) \<and>
        p < q + unat (n_span (descs h ! q))"
  shows "runs_whole h"
  using assms unfolding runs_whole_def by blast

lemma large_tag:
  assumes "desc_tag d' = desc_tag d"
  shows "is_large_head d' = is_large_head d" "is_large_cont d' = is_large_cont d" "n_span d' = n_span d" "pgen d' = pgen d"
  using assms by (simp_all add: desc_tag_def is_large_head_def is_large_cont_def)

lemma head_not_cont: "is_large_head d \<Longrightarrow> \<not> is_large_cont d"
  by (auto simp: is_large_head_def is_large_cont_def)

lemma shape_desc:
  assumes s: "shape g h h'" and p: "p < length (descs h)"
  shows "pgen (descs h ! p) \<noteq> Gen_Free \<Longrightarrow> desc_tag (descs h' ! p) = desc_tag (descs h ! p)"
    "pgen (descs h ! p) = Gen_Free \<Longrightarrow> pgen (descs h' ! p) = Gen_Free \<or>
       (pgen (descs h' ! p) = g \<and> \<not> is_large_head (descs h' ! p) \<and> \<not> is_large_cont (descs h' ! p))"
  using s p by (auto simp: shape_def is_large_head_def is_large_cont_def)

lemma shape_length: "shape g h h' \<Longrightarrow> length (descs h') = length (descs h)"
  by (simp add: shape_def policy_def)

lemma shape_runs_whole:
  assumes s: "shape g h h'" and w: "runs_whole h"
  shows "runs_whole h'"
proof (rule runs_wholeI)
  note len = shape_length [OF s]
  have old: "desc_tag (descs h' ! p) = desc_tag (descs h ! p) \<and> pgen (descs h ! p) \<noteq> Gen_Free"
    if "p < length (descs h)" "is_large_head (descs h' ! p) \<or> is_large_cont (descs h' ! p)" "pgen (descs h' ! p) \<noteq> Gen_Free" for p
    using shape_desc [OF s that(1)] that(2,3) by blast
  show "q + unat (n_span (descs h' ! q)) \<le> length (descs h')"
    if q: "q < length (descs h')" "is_large_head (descs h' ! q)" "pgen (descs h' ! q) \<noteq> Gen_Free" for q
  proof -
    have t: "desc_tag (descs h' ! q) = desc_tag (descs h ! q)" "pgen (descs h ! q) \<noteq> Gen_Free"
      using old [of q] q len by simp_all
    then show ?thesis using runs_wholeD(1) [OF w, of q] q large_tag [OF t(1)] len by simp
  qed
  show "is_large_cont (descs h' ! p) \<and> pgen (descs h' ! p) = pgen (descs h' ! q)"
    if q: "q < length (descs h')" "is_large_head (descs h' ! q)" "pgen (descs h' ! q) \<noteq> Gen_Free" "q < p"
      "p < q + unat (n_span (descs h' ! q))" for q p
  proof -
    have t: "desc_tag (descs h' ! q) = desc_tag (descs h ! q)" "pgen (descs h ! q) \<noteq> Gen_Free"
      using old [of q] q len by simp_all
    note l = large_tag [OF t(1)]
    have q': "q < length (descs h)" "is_large_head (descs h ! q)" "p < q + unat (n_span (descs h ! q))"
      using q(1,2,5) unfolding l len by simp_all
    note r = runs_wholeD(1) [OF w q'(1,2) t(2)] runs_wholeD(2) [OF w q'(1,2) t(2) q(4) q'(3)]
    have "p < length (descs h)" "pgen (descs h ! p) \<noteq> Gen_Free" using r q'(3) t(2) by auto
    note l' = large_tag [OF shape_desc(1) [OF s this]]
    show ?thesis using r(2) unfolding l l' .
  qed
  show "\<exists>q < p. is_large_head (descs h' ! q) \<and> pgen (descs h' ! q) = pgen (descs h' ! p) \<and>
      p < q + unat (n_span (descs h' ! q))"
    if p: "p < length (descs h')" "is_large_cont (descs h' ! p)" "pgen (descs h' ! p) \<noteq> Gen_Free" for p
  proof -
    have t: "desc_tag (descs h' ! p) = desc_tag (descs h ! p)" "pgen (descs h ! p) \<noteq> Gen_Free"
      using old [of p] p len by simp_all
    note l = large_tag [OF t(1)]
    have p': "p < length (descs h)" "is_large_cont (descs h ! p)" using p(1,2) unfolding l len by simp_all
    obtain q where q: "q < p" "is_large_head (descs h ! q)" "pgen (descs h ! q) = pgen (descs h ! p)"
        "p < q + unat (n_span (descs h ! q))"
      using runs_wholeD(3) [OF w p' t(2)] by blast
    have "q < length (descs h)" "pgen (descs h ! q) \<noteq> Gen_Free" using q t(2) p'(1) by simp_all
    note l' = large_tag [OF shape_desc(1) [OF s this]]
    show ?thesis by (intro exI [of _ q]) (unfold l l', use q in simp)
  qed
qed

section \<open>Reclaiming one page\<close>

lemma fold_descs_at:
  assumes "\<And>i h. policy (f i h) = policy h \<and> descs (f i h) = (descs h)[q + i := F (descs h ! (q + i))]"
  shows "policy (fold f [0..<n] h) = policy h \<and>
    (\<forall>p < length (descs h). descs (fold f [0..<n] h) ! p =
       (if q \<le> p \<and> p < q + n then F (descs h ! p) else descs h ! p))"
proof (induction n)
  case (Suc n)
  let ?h = "fold f [0..<n] h"
  have "length (descs ?h) = length (descs h)" using Suc by (auto intro: policy_length)
  then show ?case using Suc assms [of n ?h] by (auto simp: nth_update)
qed auto

lemma flip_large_at:
  "policy (flip_large_page d q i h) = policy h \<and>
   descs (flip_large_page d q i h) = (descs h)[q + i := (descs h ! (q + i))\<lparr>pgen := d, age := 0, pin_byte := 0\<rparr>]"
  by (simp add: flip_large_page_def Let_def)

lemma release_descs:
  "descs (release_page_to_free h p z) = (descs h)[p := (if z then desc_release_zeroed else desc_release) (descs h ! p)]"
  by (simp add: release_page_to_free_def)

lemma decommit_descs: "descs (snd (decommit_page h p)) = descs h"
  using decommit_page_frame(3) [of h p] by (cases "decommit_page h p") simp

lemma release_large_at:
  "policy (release_large_page q i h) = policy h \<and>
   descs (release_large_page q i h) = (descs h)[q + i := desc_release_zeroed (descs h ! (q + i))]"
  by (simp add: release_large_page_def Let_def decommit_policy decommit_descs release_descs)

text \<open>The pages a reclaim step touches, and what becomes of them together.\<close>

definition touched :: "page_heap \<Rightarrow> nat \<Rightarrow> nat set" where
  "touched h q = {q} \<union> large_run h q"

lemma reclaim_cases:
  assumes r: "reclaim_page L d pk q (h, a, b) = Some (h', a', b')" and q: "q < length (descs h)"
  obtains (skip) "h' = h" "pgen (descs h ! q) = Gen_Free \<or> is_large_cont (descs h ! q)"
  | (freed) "pgen (descs h ! q) \<noteq> Gen_Free" "\<not> is_large_cont (descs h ! q)" "policy h' = policy h"
      "\<And>p. p < length (descs h) \<Longrightarrow> p \<notin> touched h q \<Longrightarrow> descs h' ! p = descs h ! p"
      "\<And>p. p < length (descs h) \<Longrightarrow> p \<in> touched h q \<Longrightarrow> pgen (descs h' ! p) = Gen_Free"
  | (flipped) "pgen (descs h ! q) \<noteq> Gen_Free" "\<not> is_large_cont (descs h ! q)" "policy h' = policy h"
      "\<And>p. p < length (descs h) \<Longrightarrow> p \<notin> touched h q \<Longrightarrow> descs h' ! p = descs h ! p"
      "\<And>p. p < length (descs h) \<Longrightarrow> p \<in> touched h q \<Longrightarrow>
         desc_tag (descs h' ! p) = (d, kind (descs h ! p), n_span (descs h ! p))"
proof (cases "pgen (desc h q) = Gen_Free \<or> is_large_cont (desc h q)")
  case True
  then have "h' = h" using r by (auto simp: reclaim_page_def Let_def split: if_splits)
  then show ?thesis using skip True by (simp add: desc_def)
next
  case gen: False
  then have ne: "pgen (descs h ! q) \<noteq> Gen_Free" "\<not> is_large_cont (descs h ! q)" by (simp_all add: desc_def)
  show ?thesis
  proof (cases "is_large_head (desc h q)")
    case True
    let ?n = "unat (n_span (desc h q))"
    have S: "p \<in> touched h q \<longleftrightarrow> q \<le> p \<and> p < q + ?n" for p
    proof -
      have "0 < ?n" using True by (auto simp: is_large_head_def unat_gt_0)
      then show ?thesis using True by (auto simp: touched_def large_run_def)
    qed
    show ?thesis
    proof (cases "has_pins (desc h q)")
      case pins: True
      then have "h' = fold (flip_large_page d q) [0..<?n] h"
        using r gen True by (simp add: reclaim_page_def Let_def)
      then show ?thesis
        using fold_descs_at [OF flip_large_at [of d q], of ?n h] by (intro flipped [OF ne]) (auto simp: S desc_tag_def)
    next
      case pins: False
      then have "h' = fold (release_large_page q) [0..<?n] h"
        using r gen True by (simp add: reclaim_page_def Let_def)
      then show ?thesis
        using fold_descs_at [OF release_large_at [of q], of ?n h] by (intro freed [OF ne]) (auto simp: S desc_tag_def)
    qed
  next
    case small: False
    then have S: "p \<in> touched h q \<longleftrightarrow> p = q" for p by (simp add: touched_def large_run_def)
    show ?thesis
    proof (cases "has_pins (desc h q)")
      case True
      then have "flip_page L d pk q h = Some h'"
        using r gen small by (auto simp: reclaim_page_def Let_def)
      then have "policy h' = policy h" "descs h' = (descs h)[q := (descs h ! q)\<lparr>pgen := d, age := 0\<rparr>]"
        by (auto simp: flip_page_def zero_page_outside_ranges_def Let_def split: option.splits)
      then show ?thesis using flipped ne by (auto simp: S desc_tag_def nth_update)
    next
      case False
      then have "h' = release_page q h" using r gen small by (simp add: reclaim_page_def Let_def)
      then have "policy h' = policy h" "descs h' = (descs h)[q := desc_release_zeroed (descs h ! q)]"
        by (simp_all add: release_page_def Let_def release_descs)
      then show ?thesis using freed ne by (auto simp: S nth_update)
    qed
  qed
qed

text \<open>The pages of the source generation that still have to be reclaimed are in the list.\<close>

definition pending :: "generation \<Rightarrow> page_heap \<Rightarrow> nat list \<Rightarrow> bool" where
  "pending f h todo \<longleftrightarrow>
     (\<forall>p < length (descs h). pgen (descs h ! p) = f \<and> \<not> is_large_cont (descs h ! p) \<longrightarrow> p \<in> set todo)"

lemma keeps_out_refl [simp]: "keeps_out g h h"
  by (simp add: keeps_out_def)

lemma keeps_out_trans: "keeps_out g h h1 \<Longrightarrow> keeps_out g h1 h2 \<Longrightarrow> keeps_out g h h2"
  by (auto simp: keeps_out_def policy_def desc_tag_def)

lemma shape_keeps_out: "shape d h h' \<Longrightarrow> g \<noteq> d \<Longrightarrow> g \<noteq> Gen_Free \<Longrightarrow> keeps_out g h h'"
  by (force simp: shape_def keeps_out_def desc_tag_def)

lemma shape_pending:
  assumes s: "shape d h h'" and p: "pending f h todo" and f: "f \<noteq> d" "f \<noteq> Gen_Free"
  shows "pending f h' todo"
  unfolding pending_def
proof (intro allI impI)
  fix q assume q: "q < length (descs h')" "pgen (descs h' ! q) = f \<and> \<not> is_large_cont (descs h' ! q)"
  have "desc_tag (descs h' ! q) = desc_tag (descs h ! q)"
    using shape_keeps_out [OF s f] q shape_length [OF s] by (simp add: keeps_out_def)
  note l = large_tag [OF this]
  show "q \<in> set todo" using p q unfolding pending_def shape_length [OF s] l by blast
qed

text \<open>Where Large runs are whole, the touched pages are one run, or one small page.\<close>

lemma touched_run:
  assumes w: "runs_whole h" and q: "q < length (descs h)" "pgen (descs h ! q) \<noteq> Gen_Free" "\<not> is_large_cont (descs h ! q)"
    and p: "p \<in> touched h q"
  shows "p < length (descs h)" "p \<noteq> q \<Longrightarrow> is_large_cont (descs h ! p)" "pgen (descs h ! p) = pgen (descs h ! q)"
    "p \<noteq> q \<Longrightarrow> is_large_head (descs h ! q) \<and> q < p \<and> p < q + unat (n_span (descs h ! q))"
proof -
  have "p = q \<or> (is_large_head (descs h ! q) \<and> q < p \<and> p < q + unat (n_span (descs h ! q)))"
    using p by (auto simp: touched_def large_run_def desc_def split: if_splits)
  then consider "p = q" | "p \<noteq> q" "is_large_head (descs h ! q)" "q < p" "p < q + unat (n_span (descs h ! q))" by auto
  then have "p < length (descs h) \<and> (p \<noteq> q \<longrightarrow> is_large_cont (descs h ! p)) \<and> pgen (descs h ! p) = pgen (descs h ! q) \<and>
      (p \<noteq> q \<longrightarrow> is_large_head (descs h ! q) \<and> q < p \<and> p < q + unat (n_span (descs h ! q)))"
  proof cases
    case 2
    then show ?thesis using runs_wholeD(1) [OF w q(1) 2(2) q(2)] runs_wholeD(2) [OF w q(1) 2(2) q(2) 2(3,4)] by simp
  qed (use q in simp)
  then show "p < length (descs h)" "p \<noteq> q \<Longrightarrow> is_large_cont (descs h ! p)" "pgen (descs h ! p) = pgen (descs h ! q)"
    "p \<noteq> q \<Longrightarrow> is_large_head (descs h ! q) \<and> q < p \<and> p < q + unat (n_span (descs h ! q))"
    by blast+
qed

lemma head_touches_run:
  assumes "is_large_head (descs h ! q)" "q \<le> p" "p < q + unat (n_span (descs h ! q))"
  shows "p \<in> touched h q"
  using assms by (simp add: touched_def large_run_def desc_def)

text \<open>A run is touched whole or not at all.\<close>

lemma untouched_run:
  assumes w: "runs_whole h" and q: "q < length (descs h)" "pgen (descs h ! q) \<noteq> Gen_Free" "\<not> is_large_cont (descs h ! q)"
    and e: "e < length (descs h)" "pgen (descs h ! e) \<noteq> Gen_Free" "is_large_head (descs h ! e)" "e \<notin> touched h q"
    and p: "e < p" "p < e + unat (n_span (descs h ! e))"
  shows "p \<notin> touched h q"
proof
  assume t: "p \<in> touched h q"
  have c: "is_large_cont (descs h ! p)" using runs_wholeD(2) [OF w e(1,3,2) p] by simp
  then have "p \<noteq> q" using q(3) by auto
  note r = touched_run(4) [OF w q t this]
  have eq: "e \<noteq> q" using e(4) by (auto simp: touched_def)
  show False
  proof (cases "q < e")
    case True
    then show ?thesis using head_touches_run [of h q e] r p e(4) by simp
  next
    case False
    then have "e < q" "q < e + unat (n_span (descs h ! e))" using eq r p by simp_all
    then show ?thesis using runs_wholeD(2) [OF w e(1,3,2)] q(3) by blast
  qed
qed

lemma reclaim_runs_whole:
  assumes r: "reclaim_page L d pk q (h, a, b) = Some (h', a', b')" and w: "runs_whole h"
    and q: "q < length (descs h)"
  shows "runs_whole h'"
  using r q
proof (cases rule: reclaim_cases)
  case skip
  then show ?thesis using w by simp
next
  case freed
  note len = policy_length [OF freed(3)]
  show ?thesis
  proof (rule runs_wholeI, unfold len)
    fix e assume e: "e < length (descs h)" "is_large_head (descs h' ! e)" "pgen (descs h' ! e) \<noteq> Gen_Free"
    then have out: "e \<notin> touched h q" using freed(5) by blast
    note d = freed(4) [OF e(1) out]
    note e' = e(2,3) [unfolded d]
    show "e + unat (n_span (descs h' ! e)) \<le> length (descs h)"
      unfolding d by (rule runs_wholeD(1) [OF w e(1) e'])
    fix p assume p: "e < p" "p < e + unat (n_span (descs h' ! e))"
    have "p < length (descs h)" using runs_wholeD(1) [OF w e(1) e'] p unfolding d by simp
    then show "is_large_cont (descs h' ! p) \<and> pgen (descs h' ! p) = pgen (descs h' ! e)"
      using freed(4) untouched_run [OF w q freed(1,2) e(1) e'(2,1) out p [unfolded d]]
        runs_wholeD(2) [OF w e(1) e' p [unfolded d]] unfolding d by simp
  next
    fix p assume p: "p < length (descs h)" "is_large_cont (descs h' ! p)" "pgen (descs h' ! p) \<noteq> Gen_Free"
    then have out: "p \<notin> touched h q" using freed(5) by blast
    note d = freed(4) [OF p(1) out]
    obtain e where e: "e < p" "is_large_head (descs h ! e)" "pgen (descs h ! e) = pgen (descs h ! p)"
        "p < e + unat (n_span (descs h ! e))"
      using runs_wholeD(3) [OF w p(1) p(2,3) [unfolded d]] by blast
    have "e \<notin> touched h q"
    proof
      assume t: "e \<in> touched h q"
      then have "e = q" using touched_run(2) [OF w q freed(1,2) t] head_not_cont [OF e(2)] by blast
      then show False using head_touches_run [of h q p] e out by simp
    qed
    then have "descs h' ! e = descs h ! e" using freed(4) e(1) p(1) by simp
    then show "\<exists>e < p. is_large_head (descs h' ! e) \<and> pgen (descs h' ! e) = pgen (descs h' ! p) \<and>
        p < e + unat (n_span (descs h' ! e))"
      using e unfolding d by (intro exI [of _ e]) simp
  qed
next
  case flipped
  note len = policy_length [OF flipped(3)]
  have tag: "is_large_head (descs h' ! p) = is_large_head (descs h ! p) \<and>
      is_large_cont (descs h' ! p) = is_large_cont (descs h ! p) \<and> n_span (descs h' ! p) = n_span (descs h ! p)"
    if "p < length (descs h)" for p
    using flipped(4,5) [OF that] by (cases "p \<in> touched h q") (auto simp: desc_tag_def is_large_head_def is_large_cont_def)
  have gen: "pgen (descs h' ! p) = (if p \<in> touched h q then d else pgen (descs h ! p))" if "p < length (descs h)" for p
    using flipped(4,5) [OF that] by (auto simp: desc_tag_def)
  have used: "pgen (descs h ! p) \<noteq> Gen_Free" if "p < length (descs h)" "pgen (descs h' ! p) \<noteq> Gen_Free" for p
    using gen [OF that(1)] that(2) touched_run(3) [OF w q flipped(1,2), of p] flipped(1) by (auto split: if_splits)
  have together: "e \<in> touched h q \<longleftrightarrow> p \<in> touched h q"
    if e: "e < length (descs h)" "pgen (descs h ! e) \<noteq> Gen_Free" "is_large_head (descs h ! e)"
      and p: "e < p" "p < e + unat (n_span (descs h ! e))" for e p
  proof
    assume t: "e \<in> touched h q"
    then have "e = q" using touched_run(2) [OF w q flipped(1,2) t] head_not_cont [OF e(3)] by blast
    then show "p \<in> touched h q" using head_touches_run [of h q p] e p by simp
  qed (use untouched_run [OF w q flipped(1,2) e(1,2,3) _ p] in blast)
  show ?thesis
  proof (rule runs_wholeI, unfold len)
    fix e assume e: "e < length (descs h)" "is_large_head (descs h' ! e)" "pgen (descs h' ! e) \<noteq> Gen_Free"
    have e': "is_large_head (descs h ! e)" "n_span (descs h' ! e) = n_span (descs h ! e)" using tag e by simp_all
    note u = used [OF e(1,3)]
    show "e + unat (n_span (descs h' ! e)) \<le> length (descs h)"
      unfolding e'(2) by (rule runs_wholeD(1) [OF w e(1) e'(1) u])
    fix p assume p: "e < p" "p < e + unat (n_span (descs h' ! e))"
    note p = p [unfolded e'(2)]
    have pl: "p < length (descs h)" using runs_wholeD(1) [OF w e(1) e'(1) u] p by simp
    show "is_large_cont (descs h' ! p) \<and> pgen (descs h' ! p) = pgen (descs h' ! e)"
      using runs_wholeD(2) [OF w e(1) e'(1) u p] tag [OF pl] gen [OF pl] gen [OF e(1)] together [OF e(1) u e'(1) p]
      by simp
  next
    fix p assume p: "p < length (descs h)" "is_large_cont (descs h' ! p)" "pgen (descs h' ! p) \<noteq> Gen_Free"
    have p': "is_large_cont (descs h ! p)" using tag p by simp
    note u = used [OF p(1,3)]
    obtain e where e: "e < p" "is_large_head (descs h ! e)" "pgen (descs h ! e) = pgen (descs h ! p)"
        "p < e + unat (n_span (descs h ! e))"
      using runs_wholeD(3) [OF w p(1) p' u] by blast
    have el: "e < length (descs h)" using e(1) p(1) by simp
    have "e \<in> touched h q \<longleftrightarrow> p \<in> touched h q" by (rule together [OF el _ e(2,1,4)]) (use e(3) u in simp)
    then show "\<exists>e < p. is_large_head (descs h' ! e) \<and> pgen (descs h' ! e) = pgen (descs h' ! p) \<and>
        p < e + unat (n_span (descs h' ! e))"
      using e tag [OF el] gen [OF el] gen [OF p(1)] by (intro exI [of _ e]) simp
  qed
qed

lemma reclaim_pending:
  assumes r: "reclaim_page L d pk q (h, a, b) = Some (h', a', b')" and q: "q < length (descs h)"
    and p: "pending f h (q # todo)" and f: "f \<noteq> d" "f \<noteq> Gen_Free"
  shows "pending f h' todo"
  using r q
proof (cases rule: reclaim_cases)
  case skip
  then show ?thesis using p f by (auto simp: pending_def)
next
  case freed
  show ?thesis
    unfolding pending_def policy_length [OF freed(3)]
  proof (intro allI impI)
    fix e assume e: "e < length (descs h)" "pgen (descs h' ! e) = f \<and> \<not> is_large_cont (descs h' ! e)"
    then have out: "e \<notin> touched h q" using freed(5) f(2) by metis
    then show "e \<in> set todo" using e p freed(4) by (auto simp: pending_def touched_def)
  qed
next
  case flipped
  show ?thesis
    unfolding pending_def policy_length [OF flipped(3)]
  proof (intro allI impI)
    fix e assume e: "e < length (descs h)" "pgen (descs h' ! e) = f \<and> \<not> is_large_cont (descs h' ! e)"
    then have out: "e \<notin> touched h q" using flipped(5) f(1) by (auto simp: desc_tag_def)
    then show "e \<in> set todo" using e p flipped(4) by (auto simp: pending_def touched_def)
  qed
qed

lemma reclaim_keeps_out:
  assumes r: "reclaim_page L d pk q (h, a, b) = Some (h', a', b')" and q: "q < length (descs h)"
    and g: "g \<noteq> d" "g \<noteq> Gen_Free"
  shows "keeps_out g h h'"
  using r q
proof (cases rule: reclaim_cases)
  case freed
  have "desc_tag (descs h' ! e) = desc_tag (descs h ! e)" if "e < length (descs h)" "pgen (descs h' ! e) = g" for e
    using freed(4,5) [OF that(1)] that(2) g by (cases "e \<in> touched h q") auto
  then show ?thesis using freed(3) by (simp add: keeps_out_def)
next
  case flipped
  have "desc_tag (descs h' ! e) = desc_tag (descs h ! e)" if "e < length (descs h)" "pgen (descs h' ! e) = g" for e
    using flipped(4,5) [OF that(1)] that(2) g by (cases "e \<in> touched h q") (auto simp: desc_tag_def)
  then show ?thesis using flipped(3) by (simp add: keeps_out_def)
qed simp

section \<open>A whole evacuation\<close>

text \<open>
  What the rest of an evacuation to \<open>d\<close> keeps, with the pages \<open>todo\<close> of the source generation
  \<open>f\<close> still to be done.
\<close>

definition evac_keeps :: "generation \<Rightarrow> page_heap \<Rightarrow> page_heap \<Rightarrow> bool" where
  "evac_keeps d h h' \<longleftrightarrow> policy h' = policy h \<and>
     (\<forall>g. g \<noteq> d \<and> g \<noteq> Gen_Free \<longrightarrow> keeps_out g h h') \<and> (runs_whole h \<longrightarrow> runs_whole h')"

lemma evac_keeps_refl [simp]: "evac_keeps d h h"
  by (simp add: evac_keeps_def)

lemma evac_keeps_trans: "evac_keeps d h h1 \<Longrightarrow> evac_keeps d h1 h2 \<Longrightarrow> evac_keeps d h h2"
  unfolding evac_keeps_def using keeps_out_trans by metis

lemma shape_evac_keeps: "shape d h h' \<Longrightarrow> evac_keeps d h h'"
  using shape_keeps_out shape_runs_whole by (simp add: evac_keeps_def) (auto simp: shape_def)

lemma phase3_keeps:
  assumes "phase3_reclaim L h d chunk pk = Some (h', a', b')" "\<forall>q \<in> set chunk. q < length (descs h)"
  shows "evac_keeps d h h' \<and>
    (\<forall>f rest. f \<noteq> d \<and> f \<noteq> Gen_Free \<and> pending f h (chunk @ rest) \<longrightarrow> pending f h' rest)"
proof -
  have "evac_keeps d h h' \<and>
      (\<forall>f rest. f \<noteq> d \<and> f \<noteq> Gen_Free \<and> pending f h (chunk @ rest) \<longrightarrow> pending f h' rest)"
    if "fold_opt (reclaim_page L d pk) chunk (h, a, b) = Some (h', a', b')" "\<forall>q \<in> set chunk. q < length (descs h)"
    for h a b
    using that
  proof (induction chunk arbitrary: h a b)
    case (Cons q chunk)
    obtain h1 a1 b1 where r: "reclaim_page L d pk q (h, a, b) = Some (h1, a1, b1)"
      and rest: "fold_opt (reclaim_page L d pk) chunk (h1, a1, b1) = Some (h', a', b')"
      using Cons.prems(1) by (auto split: option.splits)
    have q: "q < length (descs h)" using Cons.prems(2) by simp
    have pol: "policy h1 = policy h" using r q by (cases rule: reclaim_cases) simp_all
    have k: "evac_keeps d h h1"
      using reclaim_keeps_out [OF r q] reclaim_runs_whole [OF r _ q] pol by (simp add: evac_keeps_def)
    have "\<forall>q \<in> set chunk. q < length (descs h1)" using Cons.prems(2) policy_length [OF pol] by simp
    then show ?case
      using Cons.IH [OF rest] evac_keeps_trans [OF k] reclaim_pending [OF r q] by auto
  qed simp
  then show ?thesis using assms by (simp add: phase3_reclaim_def)
qed

lemma chunk_loop_keeps:
  assumes "chunk_loop L f d v pk pp pages (r, h, res) = Inr (r', h', res')" "tame v" "d \<noteq> Gen_Free"
    "\<forall>q \<in> set pages. q < length (descs h)"
  shows "evac_keeps d h h' \<and> (\<forall>g. g \<noteq> d \<and> g \<noteq> Gen_Free \<and> pending g h pages \<longrightarrow> pending g h' [])"
  using assms
proof (induction pages arbitrary: r h res rule: length_induct)
  case (1 pages)
  show ?case
  proof (cases "pages = []")
    case True
    then show ?thesis using "1.prems"(1) by (simp add: chunk_loop.simps)
  next
    case False
    define n where "n = chunk_size h f pp (length pages)"
    obtain h1 o1 c1 r2 h2 h3 a b res3 where
      p1: "phase1_copy_chunk L h f d (take n pages) (objects_copied res) (cells_copied res) (pages_freed res) = Inr (h1, o1, c1)"
      and p2: "phase2_rewrite L f d v (r, h1) = Inr (r2, h2)"
      and p3: "phase3_reclaim L h2 d (take n pages) pk = Some (h3, a, b)"
      and rest: "chunk_loop L f d v pk pp (drop n pages) (r2, h3, res3) = Inr (r', h', res')"
      using "1.prems"(1) False unfolding chunk_loop.simps [of L f d v pk pp pages] Let_def n_def [symmetric]
      by (auto simp: bind_res_Inr split: option.splits)
    note s = shape_trans [OF shape_phase1 [OF p1 "1.prems"(3)] shape_phase2 [OF p2 "1.prems"(2,3)] "1.prems"(3)]
    have len: "length (descs h2) = length (descs h)" by (rule shape_length [OF s])
    have "\<forall>q \<in> set (take n pages). q < length (descs h2)" using "1.prems"(4) set_take_subset len by fastforce
    note k3 = phase3_keeps [OF p3 this]
    note k = evac_keeps_trans [OF shape_evac_keeps [OF s] conjunct1 [OF k3]]
    have len3: "length (descs h3) = length (descs h)" using k by (auto simp: evac_keeps_def intro: policy_length)
    have short: "length (drop n pages) < length pages" by (rule drop_chunk_shorter [OF False n_def])
    have "\<forall>q \<in> set (drop n pages). q < length (descs h3)" using "1.prems"(4) set_drop_subset len3 by fastforce
    with "1.IH" short rest "1.prems"(2,3) have IH: "evac_keeps d h3 h' \<and>
        (\<forall>g. g \<noteq> d \<and> g \<noteq> Gen_Free \<and> pending g h3 (drop n pages) \<longrightarrow> pending g h' [])" by blast
    have "pending g h3 (drop n pages)" if "g \<noteq> d" "g \<noteq> Gen_Free" "pending g h pages" for g
      using shape_pending [OF s that(3,1,2)] k3 that(1,2) by (metis append_take_drop_id)
    then show ?thesis using IH evac_keeps_trans [OF k] by blast
  qed
qed

lemma shape_reset: "shape g h (reset_region f k h)"
  by (rule shape_same) (simp_all add: reset_region_def)

lemma evacuate_keeps:
  assumes e: "evacuate_with_roots L f d v (r, h) = Inr (r', h', res)" and v: "tame v"
  shows "evac_keeps d h h' \<and> (f \<noteq> d \<longrightarrow> pending f h' []) \<and> f \<noteq> Gen_Free \<and> d \<noteq> Gen_Free"
proof -
  have gens: "f \<noteq> Gen_Free" "d \<noteq> Gen_Free" using e by (auto simp: evacuate_with_roots_def)
  obtain r1 h1 h2 pk pp h5 where
    1: "(if recycle_live_counts_active_for h f then Inr (r, h) else internal_mark L f d v (r, h)) = Inr (r1, h1)"
    and 2: "apply_pins_and_extend_mark L h1 f = Some h2"
    and 3: "chunk_loop L f d v pk pp (pages_in_gen h2 f)
      (r1, fold (reset_region f) [Kind_Cons, Kind_Boxed] h2,
        \<lparr>objects_copied = 0, cells_copied = 0, pages_freed = 0, pages_flipped = 0\<rparr>) = Inr (r', h5, res)"
    and h': "h' = clear_recycle_live_counts (clear_mark_bits_in_gen h5 f)"
    using e gens by (auto simp: evacuate_with_roots_def bind_res_Inr Let_def split: option.splits)
  let ?h3 = "fold (reset_region f) [Kind_Cons, Kind_Boxed] h2"
  have s1: "shape d h h1" using 1 shape_internal_mark [OF _ v gens(2)] by (auto split: if_splits)
  have s2: "shape d h h2" by (rule shape_trans [OF s1 shape_apply_pins [OF 2 gens(2)] gens(2)])
  have s3: "shape d h2 ?h3" by (rule fold_shape [OF gens(2), of _ "\<lambda>h. h"]) (rule shape_reset)
  have d3: "descs ?h3 = descs h2" by (simp add: reset_region_def)
  have "\<forall>q \<in> set (pages_in_gen h2 f). q < length (descs ?h3)" unfolding d3 by (simp add: pages_in_gen_def)
  note k = chunk_loop_keeps [OF 3 v gens(2) this]
  have s4: "shape d h5 h'" unfolding h' by (rule shape_same) (simp_all add: clear_recycle_live_counts_def
        clear_mark_bits_in_gen_def policy_def)
  have "pending f ?h3 (pages_in_gen h2 f)" unfolding pending_def d3 by (simp add: pages_in_gen_def)
  then have "pending f h' []" if "f \<noteq> d"
    using k that gens(1) shape_pending [OF s4 _ that gens(1)] by blast
  moreover have "evac_keeps d h h'"
    using shape_evac_keeps [OF shape_trans [OF s2 s3 gens(2)]] k shape_evac_keeps [OF s4] evac_keeps_trans by blast
  ultimately show ?thesis using gens by blast
qed

text \<open>A generation without pages.\<close>

definition gen_empty :: "page_heap \<Rightarrow> generation \<Rightarrow> bool" where
  "gen_empty h g \<longleftrightarrow> count_pages_in_gen h g = 0"

lemma gen_empty_iff: "gen_empty h g \<longleftrightarrow> (\<forall>p < length (descs h). pgen (descs h ! p) \<noteq> g)"
  by (auto simp: gen_empty_def count_pages_in_gen_def filter_empty_conv all_set_conv_all_nth)

lemma pending_empty:
  assumes "pending f h []" "runs_whole h" "f \<noteq> Gen_Free"
  shows "gen_empty h f"
  unfolding gen_empty_iff
proof (intro allI impI notI)
  fix p assume p: "p < length (descs h)" "pgen (descs h ! p) = f"
  then have "is_large_cont (descs h ! p)" using assms(1) by (auto simp: pending_def)
  then obtain q where q: "q < p" "is_large_head (descs h ! q)" "pgen (descs h ! q) = f"
    using runs_wholeD(3) [OF assms(2) p(1)] p(2) assms(3) by auto
  then show False using assms(1) p(1) head_not_cont [OF q(2)] by (auto simp: pending_def)
qed

lemma keeps_out_empty: "keeps_out g h h' \<Longrightarrow> gen_empty h g \<Longrightarrow> gen_empty h' g"
  by (force simp: gen_empty_iff keeps_out_def policy_def desc_tag_def)

text \<open>No page enters a generation: every page it has afterwards it had before.\<close>

definition gains_no_page :: "generation \<Rightarrow> page_heap \<Rightarrow> page_heap \<Rightarrow> bool" where
  "gains_no_page g h h' \<longleftrightarrow> (\<forall>p < length (descs h'). pgen (descs h' ! p) = g \<longrightarrow> pgen (descs h ! p) = g)"

lemma gains_no_page_trans:
  "gains_no_page g h h1 \<Longrightarrow> gains_no_page g h1 h2 \<Longrightarrow> length (descs h2) = length (descs h1) \<Longrightarrow> gains_no_page g h h2"
  by (simp add: gains_no_page_def)

lemma gains_no_page_descs:
  "descs h1 = descs h \<Longrightarrow> gains_no_page g h1 h' = gains_no_page g h h'"
  "descs h1 = descs h' \<Longrightarrow> gains_no_page g h h1 = gains_no_page g h h'"
  by (simp_all add: gains_no_page_def)

lemma keeps_out_gains: "keeps_out g h h' \<Longrightarrow> gains_no_page g h h'"
  by (auto simp: keeps_out_def gains_no_page_def policy_def desc_tag_def)

text \<open>The facts a cycle needs of each of its passes.\<close>

lemma evacuation_facts:
  assumes "evacuate_with_roots L f d v (r, h) = Inr (r', h', res)" "tame v"
  shows "policy h' = policy h" "runs_whole h \<Longrightarrow> runs_whole h'"
    "runs_whole h \<Longrightarrow> f \<noteq> d \<Longrightarrow> gen_empty h' f"
    "g \<noteq> d \<Longrightarrow> g \<noteq> Gen_Free \<Longrightarrow> gen_empty h g \<Longrightarrow> gen_empty h' g"
    "g \<noteq> d \<Longrightarrow> g \<noteq> Gen_Free \<Longrightarrow> gains_no_page g h h'"
  using evacuate_keeps [OF assms] pending_empty [of f h'] keeps_out_empty [of g h h'] keeps_out_gains [of g h h']
  by (auto simp: evac_keeps_def)

end
