(* ===== verification/Cycle_Policy.thy ===== *)
theory Cycle_Policy
  imports Cycle_Pages
begin

text \<open>
  The properties of the cycles of \<^verbatim>\<open>cycle.rs\<close> and of the automatic and fallible entry points of
  \<^verbatim>\<open>space.rs\<close>: over any number of minor cycles, which generation each evacuates where and what the
  page table shows of it; which generations a full cycle leaves empty; when the automatic collection
  is a major one; and how a stall poisons the heap.
\<close>

section \<open>One cycle\<close>

lemma policy_eq:
  "policy h' = policy h \<longleftrightarrow> minors_since_g0_promote h' = minors_since_g0_promote h \<and>
     g0_promotes_since_g1_promote h' = g0_promotes_since_g1_promote h \<and> poisoned h' = poisoned h \<and>
     length (descs h') = length (descs h)"
  by (simp add: policy_def)

lemma clear_all_pins_sel:
  "policy (clear_all_pins h) = policy h" "pinned_cells (clear_all_pins h) = []"
  "gen_empty (clear_all_pins h) g = gen_empty h g" "runs_whole (clear_all_pins h) = runs_whole h"
  "gains_no_page g h0 (clear_all_pins h) = gains_no_page g h0 h"
proof -
  show "policy (clear_all_pins h) = policy h" "pinned_cells (clear_all_pins h) = []"
    by (simp_all add: clear_all_pins_def policy_def)
  have d: "descs (clear_all_pins h) ! p = clear_pins (descs h ! p)" if "p < length (descs h)" for p
    using that by (simp add: clear_all_pins_def)
  have l: "length (descs (clear_all_pins h)) = length (descs h)" by (simp add: clear_all_pins_def)
  show "gen_empty (clear_all_pins h) g = gen_empty h g" by (auto simp: gen_empty_iff l d)
  show "gains_no_page g h0 (clear_all_pins h) = gains_no_page g h0 h" by (simp add: gains_no_page_def l d)
  have t: "desc_tag (clear_pins d) = desc_tag d" for d by (simp add: desc_tag_def clear_pins_def)
  show "runs_whole (clear_all_pins h) = runs_whole h"
  proof
    assume "runs_whole h"
    then show "runs_whole (clear_all_pins h)"
      by (rule shape_runs_whole [rotated, of h G0])
        (rule shapeI, simp add: clear_all_pins_def policy_def, simp add: d t)
  next
    assume "runs_whole (clear_all_pins h)"
    then show "runs_whole h"
      by (rule shape_runs_whole [rotated, of "clear_all_pins h" G0])
        (rule shapeI, simp add: clear_all_pins_def policy_def, simp add: d t l)
  qed
qed

lemma same_descs: "descs h' = descs h \<Longrightarrow> gen_empty h' g = gen_empty h g \<and> runs_whole h' = runs_whole h"
  by (simp add: gen_empty_def count_pages_in_gen_def runs_whole_def)

lemma end_of_cycle:
  defines "E \<equiv> \<lambda>L h. clear_all_pins (rebuild_cards_for_old_gens L h)"
  shows "minors_since_g0_promote (E L h) = minors_since_g0_promote h"
    "g0_promotes_since_g1_promote (E L h) = g0_promotes_since_g1_promote h"
    "poisoned (E L h) = poisoned h" "pinned_cells (E L h) = []" "gen_empty (E L h) g = gen_empty h g"
    "runs_whole (E L h) = runs_whole h" "gains_no_page g h0 (E L h) = gains_no_page g h0 h"
proof -
  let ?r = "rebuild_cards_for_old_gens L h"
  have "policy ?r = policy h" "descs ?r = descs h" by (simp_all add: rebuild_cards_for_old_gens_def)
  then show "minors_since_g0_promote (E L h) = minors_since_g0_promote h"
    "g0_promotes_since_g1_promote (E L h) = g0_promotes_since_g1_promote h"
    "poisoned (E L h) = poisoned h" "pinned_cells (E L h) = []" "gen_empty (E L h) g = gen_empty h g"
    "runs_whole (E L h) = runs_whole h" "gains_no_page g h0 (E L h) = gains_no_page g h0 h"
    using clear_all_pins_sel [where h = ?r] same_descs [of ?r h] by (simp_all add: E_def policy_eq gains_no_page_def)
qed

lemma counter_update_sel [simp]:
  "gen_empty (h\<lparr>minors_since_g0_promote := a\<rparr>) g = gen_empty h g"
  "gen_empty (h\<lparr>g0_promotes_since_g1_promote := b\<rparr>) g = gen_empty h g"
  "runs_whole (h\<lparr>minors_since_g0_promote := a\<rparr>) = runs_whole h"
  "runs_whole (h\<lparr>g0_promotes_since_g1_promote := b\<rparr>) = runs_whole h"
  by (simp_all add: gen_empty_def count_pages_in_gen_def runs_whole_def)

lemma counter_set: "g0_promotes_since_g1_promote (h\<lparr>minors_since_g0_promote := a,
    g0_promotes_since_g1_promote := b\<rparr>) = b"
  by simp

text \<open>The schedule: the counters are those of \<open>n\<close> minor cycles after a fresh start.\<close>

definition at_cycle :: "nat \<Rightarrow> page_heap \<Rightarrow> bool" where
  "at_cycle n h \<longleftrightarrow> minors_since_g0_promote h = of_nat (n mod 3) \<and>
     g0_promotes_since_g1_promote h = of_nat (n div 3 mod 5)"

lemma bump_counter:
  "n < 2 ^ 31 \<Longrightarrow> saturating_add (of_nat n) (1 :: u32) = of_nat (Suc n)"
  "n < 2 ^ 31 \<Longrightarrow> m < 2 ^ 31 \<Longrightarrow> (of_nat m :: u32) \<le> of_nat n \<longleftrightarrow> m \<le> n"
  by (simp_all add: saturating_add_def unat_of_nat word_le_nat_alt)

text \<open>The three ways a minor cycle can go.\<close>

lemma collect_minor_cases:
  assumes c: "collect_minor L v (r, h) = Inr (r', h', res)" and n: "at_cycle n h"
  defines "h0 \<equiv> h\<lparr>minors_since_g0_promote := of_nat (Suc (n mod 3))\<rparr>"
    and "E \<equiv> \<lambda>L h. clear_all_pins (rebuild_cards_for_old_gens L h)"
  obtains (stay) r1 h1 e where "n mod 3 \<noteq> 2"
      "evacuate_with_roots L G0 G0 (with_cards L (descs h) v) (r, h0) = Inr (r1, h1, e)" "h' = E L h1"
      "\<not> promoted_g0 res" "\<not> promoted_g1 res" "cascade res = None" "evac res = e"
      "minors_since_g0_promote_after res = minors_since_g0_promote h'"
  | (promote) r1 h1 e h2 where "n mod 3 = 2"
      "evacuate_with_roots L G0 G1 (with_cards L (descs h) v) (r, h0) = Inr (r1, h1, e)"
      "h2 = h1\<lparr>minors_since_g0_promote := 0,
         g0_promotes_since_g1_promote := saturating_add (g0_promotes_since_g1_promote h1) 1\<rparr>"
      "\<not> g0_promotes_since_g1_promote h2 \<ge> G1_PROMOTION_THRESHOLD" "h' = E L h2"
      "promoted_g0 res" "\<not> promoted_g1 res" "cascade res = None" "evac res = e"
      "minors_since_g0_promote_after res = minors_since_g0_promote h'"
  | (casc) r1 h1 e h2 r3 h3 e3 where "n mod 3 = 2"
      "evacuate_with_roots L G0 G1 (with_cards L (descs h) v) (r, h0) = Inr (r1, h1, e)"
      "h2 = h1\<lparr>minors_since_g0_promote := 0,
         g0_promotes_since_g1_promote := saturating_add (g0_promotes_since_g1_promote h1) 1\<rparr>"
      "g0_promotes_since_g1_promote h2 \<ge> G1_PROMOTION_THRESHOLD"
      "evacuate_with_roots L G1 Tenured (with_cards L (descs h) v) (r1, h2) = Inr (r3, h3, e3)"
      "h' = E L (h3\<lparr>g0_promotes_since_g1_promote := 0\<rparr>)"
      "promoted_g0 res" "promoted_g1 res" "cascade res = Some e3" "evac res = e"
      "minors_since_g0_promote_after res = minors_since_g0_promote h'"
proof -
  have m: "n mod 3 < 3" "n div 3 mod 5 < 5" by simp_all
  have b: "saturating_add (minors_since_g0_promote h) 1 = of_nat (Suc (n mod 3))"
    using n bump_counter(1) [of "n mod 3"] m by (simp add: at_cycle_def)
  have p: "of_nat (Suc (n mod 3)) \<ge> G0_PROMOTION_THRESHOLD \<longleftrightarrow> n mod 3 = 2"
    using bump_counter(2) [of "Suc (n mod 3)" 3] m by (auto simp: G0_PROMOTION_THRESHOLD_def)
  note c' = c [unfolded collect_minor_def prod.case Let_def b h0_def [symmetric] bind_res_Inr]
  have d: "descs h0 = descs h" by (simp add: h0_def)
  show ?thesis
  proof (cases "n mod 3 = 2")
    case False
    then show ?thesis
      using c' p stay by (auto simp: h0_def E_def)
  next
    case True
    obtain r1 h1 e where 1: "evacuate_with_roots L G0 G1 (with_cards L (descs h) v) (r, h0) = Inr (r1, h1, e)"
      using c' p True by (auto simp: h0_def)
    define h2 where "h2 = h1\<lparr>minors_since_g0_promote := 0,
         g0_promotes_since_g1_promote := saturating_add (g0_promotes_since_g1_promote h1) 1\<rparr>"
    show ?thesis
    proof (cases "g0_promotes_since_g1_promote h2 \<ge> G1_PROMOTION_THRESHOLD")
      case le: False
      then show ?thesis
        using c' p True 1 promote [OF True 1 h2_def le] by (auto simp: h0_def h2_def E_def)
    next
      case le: True
      show ?thesis
        using c' p True 1 le casc [OF True 1 h2_def le] by (auto simp: h0_def h2_def E_def bind_res_Inr)
    qed
  qed
qed


text \<open>
  The \<open>n\<close>-th minor cycle after a fresh start, \<open>n\<close> counted from 1, as the schedule has it: G0 is
  evacuated into G1 when \<open>n\<close> is a multiple of 3 and into itself otherwise; when it is a multiple of
  15, what G1 then holds is evacuated into Tenured, with the same roots. The page table shows it: a
  promoted generation has no page left, one that is not due receives none.
\<close>

definition scheduled_minor ::
  "heap_layout \<Rightarrow> nat \<Rightarrow> 'r root_visitor \<Rightarrow> 'r \<times> page_heap \<Rightarrow> collect_result \<Rightarrow> page_heap \<Rightarrow> bool" where
  "scheduled_minor L n v = (\<lambda>(r, h) res h'.
     (let roots = with_cards L (descs h) v in
      \<exists>r1 h1. evacuate_with_roots L G0 (if 3 dvd n then G1 else G0) roots
          (r, h\<lparr>minors_since_g0_promote := minors_since_g0_promote h + 1\<rparr>) = Inr (r1, h1, evac res) \<and>
        (if 15 dvd n
         then \<exists>r2 h2 cas. evacuate_with_roots L G1 Tenured roots
             (r1, h1\<lparr>minors_since_g0_promote := 0, g0_promotes_since_g1_promote := 5\<rparr>) = Inr (r2, h2, cas) \<and>
             cascade res = Some cas
         else cascade res = None)) \<and>
     promoted_g0 res = (3 dvd n) \<and> promoted_g1 res = (15 dvd n) \<and>
     (if 3 dvd n then count_pages_in_gen h' G0 = 0 else gains_no_page G1 h h') \<and>
     (if 15 dvd n then count_pages_in_gen h' G1 = 0 else gains_no_page Tenured h h'))"


lemma schedule_arith:
  assumes "n mod 3 = (2::nat)"
  shows "Suc n mod 3 = 0" "Suc n mod 15 = 0 \<longleftrightarrow> n div 3 mod 5 = 4"
    "Suc n div 3 mod 5 = (if n div 3 mod 5 = 4 then 0 else Suc (n div 3 mod 5))"
proof -
  obtain q where n: "Suc n = 3 * Suc q" "n div 3 = q"
    using assms div_mult_mod_eq [of n 3] by (metis Suc_eq_plus1 add_2_eq_Suc' eval_nat_numeral(3) mult.commute mult_Suc_right add.commute add_Suc_right)
  show "Suc n mod 3 = 0" by (simp add: n(1))
  have "Suc n mod 15 = 3 * (Suc q mod 5)" unfolding n(1) by (simp add: mult_mod_right)
  then show "Suc n mod 15 = 0 \<longleftrightarrow> n div 3 mod 5 = 4" unfolding n(2) by (simp add: mod_Suc)
  have "Suc n div 3 = Suc q" unfolding n(1) by (rule nonzero_mult_div_cancel_left) simp
  then show "Suc n div 3 mod 5 = (if n div 3 mod 5 = 4 then 0 else Suc (n div 3 mod 5))"
    unfolding n(2) by (simp add: mod_Suc)
qed

lemma minor_cycle:
  assumes c: "collect_minor L v (r, h) = Inr (r', h', res)" and n: "at_cycle n h" and v: "tame v"
  shows "at_cycle (Suc n) h'" (is ?at)
    and "promoted_g0 res \<longleftrightarrow> Suc n mod 3 = 0" (is ?p0)
    and "promoted_g1 res \<longleftrightarrow> Suc n mod 15 = 0" (is ?p1)
    and "cascade res \<noteq> None \<longleftrightarrow> Suc n mod 15 = 0" (is ?ca)
    and "minors_since_g0_promote_after res = minors_since_g0_promote h'" (is ?af)
    and "poisoned h' = poisoned h" (is ?po)
    and "pinned_cells h' = []" (is ?pi)
    and "runs_whole h \<Longrightarrow> runs_whole h'" (is "_ \<Longrightarrow> ?rw")
    and "runs_whole h \<Longrightarrow> scheduled_minor L (Suc n) v (r, h) res h'" (is "_ \<Longrightarrow> ?sch")
proof -
  define h0 where "h0 = h\<lparr>minors_since_g0_promote := of_nat (Suc (n mod 3))\<rparr>"
  have h0: "minors_since_g0_promote h0 = of_nat (Suc (n mod 3))" "poisoned h0 = poisoned h"
    "g0_promotes_since_g1_promote h0 = of_nat (n div 3 mod 5)" "runs_whole h0 = runs_whole h"
    using n by (simp_all add: h0_def at_cycle_def)
  have h0': "h\<lparr>minors_since_g0_promote := minors_since_g0_promote h + 1\<rparr> = h0" "descs h0 = descs h"
    using n by (simp_all add: h0_def at_cycle_def add.commute)
  note tv = tame_with_cards [OF v, of L "descs h"]
  have m: "n div 3 mod 5 < 5" by simp
  have bump: "saturating_add (of_nat (n div 3 mod 5)) 1 = (of_nat (Suc (n div 3 mod 5)) :: u32)"
    by (intro bump_counter(1) less_le_trans [OF m]) simp
  have five: "of_nat (Suc k) \<ge> G1_PROMOTION_THRESHOLD \<longleftrightarrow> k = 4" if "k < 5" for k
    using bump_counter(2) [of "Suc k" 5] that by (auto simp: G1_PROMOTION_THRESHOLD_def)
  have "?at \<and> ?p0 \<and> ?p1 \<and> ?ca \<and> ?af \<and> ?po \<and> ?pi \<and> (runs_whole h \<longrightarrow> ?rw) \<and>
    (runs_whole h \<longrightarrow> ?sch)"
    using c n
  proof (cases rule: collect_minor_cases)
    case (stay r1 h1 e)
    note e = evacuation_facts [OF stay(2) [folded h0_def] tv]
    have 1: "Suc n mod 3 \<noteq> 0" "Suc n mod 15 \<noteq> 0" "Suc n mod 3 = Suc (n mod 3)" "Suc n div 3 = n div 3"
      using stay(1) by presburger+
    have ?at using e(1) h0 1 by (simp add: stay(3) end_of_cycle at_cycle_def policy_eq)
    moreover have "gains_no_page G1 h h'" "gains_no_page Tenured h h'"
      using e(5) [of G1] e(5) [of Tenured]
      by (simp_all add: stay(3) end_of_cycle gains_no_page_descs(1) [OF h0'(2)])
    moreover have ?po ?pi "runs_whole h \<longrightarrow> ?rw"
      using e(1,2) h0 by (simp_all add: stay(3) end_of_cycle policy_eq)
    moreover have "\<not> 3 dvd Suc n" "\<not> 15 dvd Suc n" using 1 by (simp_all add: dvd_eq_mod_eq_0)
    ultimately show ?thesis
      using stay(2) [folded h0_def] stay(4-) 1 by (simp add: scheduled_minor_def h0' Let_def)
  next
    case (promote r1 h1 e h2)
    note e = evacuation_facts [OF promote(2) [folded h0_def] tv]
    have e1: "g0_promotes_since_g1_promote h1 = of_nat (n div 3 mod 5)"
      using e(1) h0(3) unfolding policy_eq by simp
    have g: "g0_promotes_since_g1_promote h2 = of_nat (Suc (n div 3 mod 5))"
      unfolding promote(3) e1 bump by (rule counter_set)
    have "n div 3 mod 5 \<noteq> 4"
      using promote(4) unfolding g five [OF m] by simp
    then have 1: "Suc n mod 3 = 0" "Suc n mod 15 \<noteq> 0" "Suc n div 3 mod 5 = Suc (n div 3 mod 5)"
      using schedule_arith [OF promote(1)] by simp_all
    have 2: "runs_whole h2 = runs_whole h1" "gen_empty h2 G0 = gen_empty h1 G0" "poisoned h2 = poisoned h1"
      "minors_since_g0_promote h2 = 0"
      by (simp_all add: promote(3))
    have ?at using 1 2 g by (simp add: promote(5) end_of_cycle at_cycle_def)
    moreover have "gains_no_page Tenured h h'"
      using e(5) [of Tenured] gains_no_page_descs(2) [of h2 h1]
      by (simp add: promote(5) end_of_cycle gains_no_page_descs(1) [OF h0'(2)]) (simp add: promote(3))
    moreover have ?po ?pi "runs_whole h \<longrightarrow> ?rw" "runs_whole h \<longrightarrow> gen_empty h' G0"
      using e(1-3) h0 2 by (simp_all add: promote(5) end_of_cycle policy_eq)
    moreover have "3 dvd Suc n" "\<not> 15 dvd Suc n" using 1 by (simp_all add: dvd_eq_mod_eq_0)
    ultimately show ?thesis
      using promote(2) [folded h0_def] promote(6-) 1 by (simp add: scheduled_minor_def h0' Let_def gen_empty_def)
  next
    case (casc r1 h1 e h2 r3 h3 e3)
    note e = evacuation_facts [OF casc(2) [folded h0_def] tv]
    note e3 = evacuation_facts [OF casc(5) tv]
    have e1: "g0_promotes_since_g1_promote h1 = of_nat (n div 3 mod 5)"
      using e(1) h0(3) unfolding policy_eq by simp
    have g: "g0_promotes_since_g1_promote h2 = of_nat (Suc (n div 3 mod 5))"
      unfolding casc(3) e1 bump by (rule counter_set)
    have five_promotes: "n div 3 mod 5 = 4"
      using casc(4) unfolding g five [OF m] by simp
    then have 1: "Suc n mod 3 = 0" "Suc n mod 15 = 0" "Suc n div 3 mod 5 = 0"
      using schedule_arith [OF casc(1)] by simp_all
    have 2: "runs_whole h2 = runs_whole h1" "gen_empty h2 G0 = gen_empty h1 G0" "poisoned h2 = poisoned h1"
      "minors_since_g0_promote h2 = 0"
      by (simp_all add: casc(3))
    have ?at using 1 2 e3(1) by (simp add: casc(6) end_of_cycle at_cycle_def policy_eq)
    moreover have ?po ?pi "runs_whole h \<longrightarrow> ?rw" "runs_whole h \<longrightarrow> gen_empty h' G0" "runs_whole h \<longrightarrow> gen_empty h' G1"
      using e(1-3) e3(1-3) e3(4) [of G0] h0 2 by (simp_all add: casc(6) end_of_cycle policy_eq)
    moreover have "3 dvd Suc n" "15 dvd Suc n" using 1 by (simp_all add: dvd_eq_mod_eq_0)
    moreover have "h2 = h1\<lparr>minors_since_g0_promote := 0, g0_promotes_since_g1_promote := 5\<rparr>"
      using g five_promotes by (simp add: casc(3))
    ultimately show ?thesis
      using casc(2) [folded h0_def] casc(5,7-) 1 by (simp add: scheduled_minor_def h0' Let_def gen_empty_def)
  qed
  then show ?at ?p0 ?p1 ?ca ?af ?po ?pi "runs_whole h \<Longrightarrow> ?rw" "runs_whole h \<Longrightarrow> ?sch"
    by simp_all
qed


lemma full_cycle:
  assumes c: "collect_full L v (r, h) = Inr (r', h', res)" and v: "tame v" and w: "runs_whole h"
  shows "gen_empty h' G0" "gen_empty h' G1" "runs_whole h'" "pinned_cells h' = []" "poisoned h' = poisoned h"
    "minors_since_g0_promote h' = 0" "g0_promotes_since_g1_promote h' = 0"
    "tenured_freed_bytes res = pages_freed (tenured_evac res) * PAGE_SIZE_BYTES"
proof -
  note tv = tame_with_cards [OF v]
  obtain r1 h1 e1 r2 h2 e2 r3 h3 e3 where
    1: "evacuate_with_roots L G0 G1 (with_cards L (descs h) v) (r, h) = Inr (r1, h1, e1)" and
    2: "evacuate_with_roots L G1 Tenured (with_cards L (descs h1) v) (r1, h1) = Inr (r2, h2, e2)" and
    3: "evacuate_with_roots L Tenured Tenured v (r2, h2) = Inr (r3, h3, e3)" and
    h': "h' = (clear_all_pins (rebuild_cards_for_old_gens L h3))
           \<lparr>minors_since_g0_promote := 0, g0_promotes_since_g1_promote := 0\<rparr>" and
    res: "res = \<lparr>g0_evac = e1, g1_evac = e2, tenured_evac = e3,
                 tenured_freed_bytes = pages_freed e3 * PAGE_SIZE_BYTES\<rparr>"
    using c by (auto simp: collect_full_def bind_res_Inr Let_def)
  note f1 = evacuation_facts [OF 1 tv] and f2 = evacuation_facts [OF 2 tv] and f3 = evacuation_facts [OF 3 v]
  have w1: "runs_whole h1" and w2: "runs_whole h2" and w3: "runs_whole h3"
    using f1(2) f2(2) f3(2) w by blast+
  have "gen_empty h3 G0" using f3(4) [OF _ _ f2(4) [OF _ _ f1(3) [OF w]]] by simp
  moreover have "gen_empty h3 G1" using f3(4) [OF _ _ f2(3) [OF w1]] by simp
  moreover have "poisoned h3 = poisoned h" using f1(1) f2(1) f3(1) by (simp add: policy_eq)
  ultimately show "gen_empty h' G0" "gen_empty h' G1" "runs_whole h'" "pinned_cells h' = []" "poisoned h' = poisoned h"
    "minors_since_g0_promote h' = 0" "g0_promotes_since_g1_promote h' = 0"
    "tenured_freed_bytes res = pages_freed (tenured_evac res) * PAGE_SIZE_BYTES"
    using w3 unfolding h' res by (simp_all add: end_of_cycle)
qed

section \<open>An idle heap\<close>

text \<open>On a heap without pages in use and without pins every cycle returns, and leaves it idle.\<close>

definition idle :: "page_heap \<Rightarrow> bool" where
  "idle h \<longleftrightarrow> (\<forall>d \<in> set (descs h). pgen d = Gen_Free) \<and> pinned_cells h = [] \<and> explicit_pins h = []"

lemma idle_pages: "idle h \<Longrightarrow> g \<noteq> Gen_Free \<Longrightarrow> pages_in_gen h g = []"
  by (auto simp: idle_def pages_in_gen_def filter_empty_conv)

lemma idle_fold: "idle h \<Longrightarrow> (\<And>x h. idle h \<Longrightarrow> idle (f x h)) \<Longrightarrow> idle (fold f xs h)"
  by (induction xs arbitrary: h) simp_all

lemma idle_ops [simp]:
  "idle (clear_mark_bits_in_gen h g) = idle h" "idle (clear_recycle_live_counts h) = idle h"
  "idle (reset_region g k h) = idle h" "idle (rebuild_cards_for_old_gens L h) = idle h"
  "idle (h\<lparr>minors_since_g0_promote := a\<rparr>) = idle h" "idle (h\<lparr>g0_promotes_since_g1_promote := b\<rparr>) = idle h"
  by (simp_all add: idle_def clear_mark_bits_in_gen_def clear_recycle_live_counts_def reset_region_def
      alloc_region_update_def rebuild_cards_for_old_gens_def split: option.split)

lemma idle_clear_all_pins: "idle h \<Longrightarrow> idle (clear_all_pins h)"
  by (auto simp: idle_def clear_all_pins_def clear_pins_def)

lemma idle_prepare: "idle (prepare_recycle_live_counts_from_marks h g) = idle h"
  by (simp add: idle_def prepare_recycle_live_counts_from_marks_def Let_def split: prod.split)

text \<open>A visitor that finds nothing on an idle page table.\<close>

definition finds_nothing :: "'r root_visitor \<Rightarrow> 'r \<Rightarrow> bool" where
  "finds_nothing v r \<longleftrightarrow> (\<forall>ev. v r ev = Inr (r, ev))"

lemma no_roots: "finds_nothing (word_roots_visitor L) []"
  by (simp add: finds_nothing_def word_roots_visitor_def)

lemma idle_cards:
  assumes "finds_nothing v r" "idle h"
  shows "finds_nothing (with_cards L (descs h) v) r"
proof -
  have 1: "\<not> root_card_passes (Some (descs h)) g c" for g c
    using assms(2) by (auto simp: root_card_passes_def idle_def Let_def)
  have 2: "scan_card_as_roots L ct b n (Some (descs h)) c st = Some st" for ct b n c st
    by (cases st) (simp add: scan_card_as_roots_def 1 Let_def)
  have 3: "fold_opt (scan_card_as_roots L ct b n (Some (descs h))) cs st = Some st" for ct b n cs st
    by (induction cs) (simp_all add: 2)
  show ?thesis
    using assms(1) by (simp add: finds_nothing_def with_cards_def scan_dirty_cards_as_roots_def 3 Let_def)
qed

text \<open>A pass over a generation without pages, on a heap without pins, when its marking finds nothing.\<close>

lemma empty_evacuate:
  assumes pages: "pages_in_gen h f = []" and pins: "pinned_cells h = []" "explicit_pins h = []"
    and v: "v r \<lparr>ev_heap = clear_mark_bits_in_gen h f, ev_from_gen = f, ev_dest_gen = d, ev_mode = Mode_Mark,
                  mark_queue = []\<rparr> =
            Inr (r, \<lparr>ev_heap = clear_mark_bits_in_gen h f, ev_from_gen = f, ev_dest_gen = d, ev_mode = Mode_Mark,
                     mark_queue = []\<rparr>)"
    and g: "f \<noteq> Gen_Free" "d \<noteq> Gen_Free"
  obtains h' e where "evacuate_with_roots L f d v (r, h) = Inr (r, h', e)" "descs h' = descs h"
    "pinned_cells h' = []" "explicit_pins h' = []" "cards h' = cards h" "pages_freed e = 0"
proof -
  define h1 where "h1 = (if recycle_live_counts_active_for h f then h
    else prepare_recycle_live_counts_from_marks (clear_mark_bits_in_gen h f) f)"
  have i1: "descs h1 = descs h" "pinned_cells h1 = []" "explicit_pins h1 = []" "cards h1 = cards h"
    using pins by (simp_all add: h1_def clear_mark_bits_in_gen_def prepare_recycle_live_counts_from_marks_def Let_def
        split: prod.split)
  have m: "(if recycle_live_counts_active_for h f then Inr (r, h) else internal_mark L f d v (r, h)) = Inr (r, h1)"
    using v by (simp add: h1_def internal_mark_def)
  have a: "apply_pins_and_extend_mark L h1 f = Some h1"
    using i1 by (simp add: apply_pins_and_extend_mark_def)
  have p1: "pages_in_gen h1 f = []" using pages i1 by (simp add: pages_in_gen_def)
  define h2 where "h2 = clear_recycle_live_counts (clear_mark_bits_in_gen (fold (reset_region f) [Kind_Cons, Kind_Boxed] h1) f)"
  have dr: "descs (reset_region g k h) = descs h" "pinned_cells (reset_region g k h) = pinned_cells h"
    "explicit_pins (reset_region g k h) = explicit_pins h" "cards (reset_region g k h) = cards h" for g k h
    by (simp_all add: reset_region_def alloc_region_update_def split: option.split)
  have "evacuate_with_roots L f d v (r, h) =
      Inr (r, h2, \<lparr>objects_copied = 0, cells_copied = 0, pages_freed = 0, pages_flipped = 0\<rparr>)"
    using g by (simp add: evacuate_with_roots_def m a p1 chunk_loop.simps [of _ _ _ _ _ _ "[]"] h2_def Let_def)
  moreover have "descs h2 = descs h" "pinned_cells h2 = []" "explicit_pins h2 = []" "cards h2 = cards h"
    using i1 by (simp_all add: h2_def dr clear_recycle_live_counts_def clear_mark_bits_in_gen_def)
  ultimately show ?thesis using that by simp
qed

lemma idle_evacuate:
  assumes v: "finds_nothing v r" and h: "idle h" and g: "f \<noteq> Gen_Free" "d \<noteq> Gen_Free"
  obtains h' e where "evacuate_with_roots L f d v (r, h) = Inr (r, h', e)" "idle h'" "descs h' = descs h"
    "pages_freed e = 0"
proof -
  have pins: "pinned_cells h = []" "explicit_pins h = []" using h by (simp_all add: idle_def)
  have "v r ev = Inr (r, ev)" for ev using v by (simp add: finds_nothing_def)
  from empty_evacuate [where v = v, OF idle_pages [OF h g(1)] pins this g] obtain h' e where
    1: "evacuate_with_roots L f d v (r, h) = Inr (r, h', e)" "descs h' = descs h"
    "pinned_cells h' = []" "explicit_pins h' = []" "pages_freed e = 0" by metis
  then show ?thesis using that h by (simp add: idle_def)
qed


lemma idle_collect_minor:
  assumes v: "finds_nothing v r" and h: "idle h"
  obtains h' res where "collect_minor L v (r, h) = Inr (r, h', res)" "idle h'"
proof -
  define h0 where "h0 = h\<lparr>minors_since_g0_promote := saturating_add (minors_since_g0_promote h) 1\<rparr>"
  define p where "p = (minors_since_g0_promote h0 \<ge> G0_PROMOTION_THRESHOLD)"
  have h0: "idle h0" using h by (simp add: h0_def)
  note v0 = idle_cards [OF v h0, of L]
  have "G0 \<noteq> Gen_Free" "(if p then G1 else G0) \<noteq> Gen_Free" by simp_all
  from idle_evacuate [OF v0 h0 this, of L] obtain h1 e where
    1: "evacuate_with_roots L G0 (if p then G1 else G0) (with_cards L (descs h0) v) (r, h0) = Inr (r, h1, e)" and i1: "idle h1"
    by metis
  define h2 where "h2 = h1\<lparr>minors_since_g0_promote := 0,
     g0_promotes_since_g1_promote := saturating_add (g0_promotes_since_g1_promote h1) 1\<rparr>"
  have h2: "idle h2" using i1 by (simp add: h2_def)
  have g2: "saturating_add (g0_promotes_since_g1_promote h1) 1 = g0_promotes_since_g1_promote h2"
    and g3: "h1\<lparr>minors_since_g0_promote := 0,
      g0_promotes_since_g1_promote := g0_promotes_since_g1_promote h2\<rparr> = h2"
    by (simp_all add: h2_def)
  have "G1 \<noteq> Gen_Free" "Tenured \<noteq> Gen_Free" by simp_all
  from idle_evacuate [OF v0 h2 this, of L] obtain h3 e3 where
    3: "evacuate_with_roots L G1 Tenured (with_cards L (descs h0) v) (r, h2) = Inr (r, h3, e3)" and i3: "idle h3"
    by metis
  define hx where "hx = (if p then if g0_promotes_since_g1_promote h2 \<ge> G1_PROMOTION_THRESHOLD
      then h3\<lparr>g0_promotes_since_g1_promote := 0\<rparr> else h2 else h1)"
  have "idle hx" using i1 h2 i3 by (simp add: hx_def)
  then have "idle (clear_all_pins (rebuild_cards_for_old_gens L hx))" by (simp add: idle_clear_all_pins)
  moreover have "\<exists>res. collect_minor L v (r, h) = Inr (r, clear_all_pins (rebuild_cards_for_old_gens L hx), res)"
    unfolding collect_minor_def prod.case Let_def h0_def [symmetric] p_def [symmetric]
    using 1 3 unfolding hx_def
    by (cases p; cases "g0_promotes_since_g1_promote h2 \<ge> G1_PROMOTION_THRESHOLD") (simp_all add: g2 g3)
  ultimately show ?thesis using that by blast
qed

lemma idle_collect_full:
  assumes v: "finds_nothing v r" and h: "idle h"
  obtains h' res where "collect_full L v (r, h) = Inr (r, h', res)"
proof -
  have g: "G0 \<noteq> Gen_Free" "G1 \<noteq> Gen_Free" "Tenured \<noteq> Gen_Free" by simp_all
  obtain h1 e1 where 1: "evacuate_with_roots L G0 G1 (with_cards L (descs h) v) (r, h) = Inr (r, h1, e1)" "idle h1"
    using idle_evacuate [OF idle_cards [OF v h] h g(1,2)] by metis
  obtain h2 e2 where 2: "evacuate_with_roots L G1 Tenured (with_cards L (descs h1) v) (r, h1) = Inr (r, h2, e2)" "idle h2"
    using idle_evacuate [OF idle_cards [OF v 1(2)] 1(2) g(2,3)] by metis
  obtain h3 e3 where 3: "evacuate_with_roots L Tenured Tenured v (r, h2) = Inr (r, h3, e3)" "idle h3"
    using idle_evacuate [OF v 2(2) g(3,3)] by metis
  show ?thesis using that 1(1) 2(1) 3(1) by (simp add: collect_full_def Let_def)
qed

subsection \<open>A major cycle on a heap without young pages\<close>

text \<open>Only Tenured has pages, nothing is pinned and no card is dirty.\<close>

definition young_empty :: "page_heap \<Rightarrow> bool" where
  "young_empty h \<longleftrightarrow> pages_in_gen h G0 = [] \<and> pages_in_gen h G1 = [] \<and> pinned_cells h = [] \<and> explicit_pins h = [] \<and>
     (\<forall>c. \<not> is_dirty (cards h) c)"

lemma clean_cards:
  assumes "finds_nothing v r" "\<forall>c. \<not> is_dirty (cards (ev_heap ev)) c"
  shows "with_cards L ds v r ev = Inr (r, ev)"
proof -
  have "scan_card_as_roots L (cards (ev_heap ev)) b n pf c st = Some st" for b n pf c st
    using assms(2) by (cases st) (simp add: scan_card_as_roots_def)
  then have "fold_opt (scan_card_as_roots L (cards (ev_heap ev)) b n pf) cs st = Some st" for b n pf cs st
    by (induction cs) simp_all
  then show ?thesis
    using assms(1) by (simp add: finds_nothing_def with_cards_def scan_dirty_cards_as_roots_def Let_def)
qed

lemma young_empty_evacuate:
  assumes v: "finds_nothing v r" and h: "young_empty h" and g: "f = G0 \<or> f = G1" "d \<noteq> Gen_Free"
  obtains h' e where "evacuate_with_roots L f d (with_cards L ds v) (r, h) = Inr (r, h', e)" "young_empty h'"
proof -
  have q: "pages_in_gen h f = []" "pinned_cells h = []" "explicit_pins h = []" "f \<noteq> Gen_Free"
    using h g(1) by (auto simp: young_empty_def)
  have "\<forall>c. \<not> is_dirty (cards (clear_mark_bits_in_gen h f)) c"
    using h by (simp add: young_empty_def clear_mark_bits_in_gen_def)
  then have "with_cards L ds v r \<lparr>ev_heap = clear_mark_bits_in_gen h f, ev_from_gen = f, ev_dest_gen = d,
      ev_mode = Mode_Mark, mark_queue = []\<rparr> = Inr (r, \<lparr>ev_heap = clear_mark_bits_in_gen h f, ev_from_gen = f,
      ev_dest_gen = d, ev_mode = Mode_Mark, mark_queue = []\<rparr>)"
    by (intro clean_cards [OF v]) simp
  from empty_evacuate [where v = "with_cards L ds v", OF q(1-3) this q(4) g(2)] obtain h' e where
    1: "evacuate_with_roots L f d (with_cards L ds v) (r, h) = Inr (r, h', e)" "descs h' = descs h"
    "pinned_cells h' = []" "explicit_pins h' = []" "cards h' = cards h" by metis
  then show ?thesis using that h by (simp add: young_empty_def pages_in_gen_def)
qed

lemma young_empty_collect_major:
  assumes v: "finds_nothing v r" and h: "young_empty h"
  obtains h' res where "collect_major L v (r, h) = Inr (r, h', res)"
proof -
  have g: "Tenured \<noteq> Gen_Free" "G0 \<noteq> Gen_Free" by simp_all
  obtain h1 e1 where 1: "evacuate_with_roots L G1 Tenured (with_cards L (descs h) v) (r, h) = Inr (r, h1, e1)" "young_empty h1"
    by (rule young_empty_evacuate [OF v h disjI2 [OF refl] g(1)])
  obtain h2 e2 where 2: "evacuate_with_roots L G0 G0 (with_cards L (descs h1) v) (r, h1) = Inr (r, h2, e2)"
    by (rule young_empty_evacuate [OF v 1(2) disjI1 [OF refl] g(2)])
  show ?thesis using that 1(1) 2 by (simp add: collect_major_def Let_def)
qed

section \<open>The schedule of many cycles\<close>

text \<open>One minor cycle after the other, each with its own roots.\<close>

fun minor_cycles ::
  "heap_layout \<Rightarrow> 'r root_visitor list \<Rightarrow> 'r \<times> page_heap \<Rightarrow> gc_abort + ('r \<times> page_heap \<times> collect_result list)" where
  "minor_cycles L [] (r, h) = Inr (r, h, [])"
| "minor_cycles L (v # vs) (r, h) =
     bind_res (collect_minor L v (r, h))
       (\<lambda>(r, h, res). bind_res (minor_cycles L vs (r, h)) (\<lambda>(r, h, results). Inr (r, h, res # results)))"

text \<open>
  A run cut into its cycles: before the cycle with index \<open>i\<close> stands the state that the run of the
  first \<open>i\<close> cycles ends in, and that cycle goes as the schedule has it.
\<close>

definition cycle_as_scheduled ::
  "heap_layout \<Rightarrow> nat \<Rightarrow> 'r root_visitor list \<Rightarrow> 'r \<times> page_heap \<Rightarrow> collect_result list \<Rightarrow> nat \<Rightarrow> bool" where
  "cycle_as_scheduled L n vs s results i \<longleftrightarrow>
     (\<exists>ri hi ri' hi'. minor_cycles L (take i vs) s = Inr (ri, hi, take i results) \<and>
        minor_cycles L (take (Suc i) vs) s = Inr (ri', hi', take (Suc i) results) \<and>
        scheduled_minor L (n + Suc i) (vs ! i) (ri, hi) (results ! i) hi')"

lemma cycle_as_scheduled_Cons:
  assumes "collect_minor L v s = Inr (r1, h1, res)"
  shows "scheduled_minor L (Suc n) v s res h1 \<Longrightarrow> cycle_as_scheduled L n (v # vs) s (res # rs) 0"
    "cycle_as_scheduled L (Suc n) vs (r1, h1) rs i \<Longrightarrow> cycle_as_scheduled L n (v # vs) s (res # rs) (Suc i)"
  using assms by (cases s; auto simp: cycle_as_scheduled_def)+

lemma minor_cycles_schedule:
  assumes "minor_cycles L vs (r, h) = Inr (r', h', results)" "at_cycle n h" "\<forall>v \<in> set vs. tame v" "runs_whole h"
  shows "length results = length vs \<and> at_cycle (n + length vs) h' \<and> runs_whole h' \<and>
    (\<forall>i < length vs. cycle_as_scheduled L n vs (r, h) results i)"
  using assms
proof (induction vs arbitrary: r h n results)
  case (Cons v vs)
  obtain r1 h1 res rs where 1: "collect_minor L v (r, h) = Inr (r1, h1, res)"
    and 2: "minor_cycles L vs (r1, h1) = Inr (r', h', rs)" and res: "results = res # rs"
    using Cons.prems(1) by (auto simp: bind_res_Inr)
  have v: "tame v" and vs: "\<forall>v \<in> set vs. tame v" using Cons.prems(3) by simp_all
  note m = minor_cycle [OF 1 Cons.prems(2) v]
  note IH = Cons.IH [OF 2 m(1) vs m(8) [OF Cons.prems(4)]]
  have "cycle_as_scheduled L n (v # vs) (r, h) (res # rs) i" if "i < length (v # vs)" for i
    using that cycle_as_scheduled_Cons(1) [OF 1 m(9) [OF Cons.prems(4)]] cycle_as_scheduled_Cons(2) [OF 1] IH
    by (cases i) simp_all
  then show ?case using IH by (simp add: res)
qed simp

lemma idle_minor_cycles:
  assumes "finds_nothing v r"
  shows "idle h \<Longrightarrow> \<exists>h' results. minor_cycles L (replicate n v) (r, h) = Inr (r, h', results)"
proof (induction n arbitrary: h)
  case (Suc n)
  obtain h1 res where 1: "collect_minor L v (r, h) = Inr (r, h1, res)" "idle h1"
    by (rule idle_collect_minor [OF assms Suc.prems])
  obtain h2 rs where "minor_cycles L (replicate n v) (r, h1) = Inr (r, h2, rs)" using Suc.IH [OF 1(2)] by blast
  then show ?case by (simp add: 1(1))
qed simp


section \<open>The automatic choice\<close>

lemma major_cycle:
  assumes c: "collect_major L v (r, h) = Inr (r', h', res)" and v: "tame v" and w: "runs_whole h"
  shows "count_pages_in_gen h' G1 = 0" "pinned_cells h' = []" "minors_since_g0_promote h' = 0"
    "g0_promotes_since_g1_promote h' = 0" "\<not> promoted_g0 res" "cascade res \<noteq> None"
proof -
  obtain r1 h1 e1 r2 h2 e2 where
    1: "evacuate_with_roots L G1 Tenured (with_cards L (descs h) v) (r, h) = Inr (r1, h1, e1)" and
    2: "evacuate_with_roots L G0 G0 (with_cards L (descs h1) v) (r1, h1) = Inr (r2, h2, e2)" and
    h': "h' = (clear_all_pins (rebuild_cards_for_old_gens L h2))
           \<lparr>minors_since_g0_promote := 0, g0_promotes_since_g1_promote := 0\<rparr>" and
    res: "\<not> promoted_g0 res" "cascade res = Some e1"
    using c by (auto simp: collect_major_def bind_res_Inr Let_def)
  note t = tame_with_cards [OF v]
  have "gen_empty h2 G1" using evacuation_facts(4) [OF 2 t _ _ evacuation_facts(3) [OF 1 t w]] by simp
  then show "count_pages_in_gen h' G1 = 0" "pinned_cells h' = []" "minors_since_g0_promote h' = 0"
    "g0_promotes_since_g1_promote h' = 0" "\<not> promoted_g0 res" "cascade res \<noteq> None"
    using res unfolding h' by (simp_all add: end_of_cycle gen_empty_def [symmetric])
qed

section \<open>The fallible entry points\<close>

lemma collect_minor_poisoned:
  assumes c: "collect_minor L v (r, h) = Inr (r', h', res)" and v: "tame v"
  shows "poisoned h' = poisoned h"
proof -
  note t = tame_with_cards [OF v]
  have e: "poisoned h2 = poisoned h1"
    if "evacuate_with_roots L f d (with_cards L ds v) (r1, h1) = Inr (r2, h2, x)" for f d ds r1 h1 r2 h2 x
    using evacuation_facts(1) [OF that t] by (simp add: policy_eq)
  from c show ?thesis
    unfolding collect_minor_def prod.case Let_def bind_res_Inr
    by (auto simp: end_of_cycle bind_res_Inr split: if_splits dest!: e)
qed

lemma collect_major_poisoned:
  assumes c: "collect_major L v (r, h) = Inr (r', h', res)" and v: "tame v"
  shows "poisoned h' = poisoned h"
proof -
  obtain r1 h1 e1 r2 h2 e2 where
    1: "evacuate_with_roots L G1 Tenured (with_cards L (descs h) v) (r, h) = Inr (r1, h1, e1)" and
    2: "evacuate_with_roots L G0 G0 (with_cards L (descs h1) v) (r1, h1) = Inr (r2, h2, e2)" and
    h': "h' = (clear_all_pins (rebuild_cards_for_old_gens L h2))
           \<lparr>minors_since_g0_promote := 0, g0_promotes_since_g1_promote := 0\<rparr>"
    using c by (auto simp: collect_major_def bind_res_Inr Let_def)
  note t = tame_with_cards [OF v]
  show ?thesis
    using evacuation_facts(1) [OF 1 t] evacuation_facts(1) [OF 2 t] by (simp add: h' end_of_cycle policy_eq)
qed

lemma collect_auto_poisoned:
  assumes "collect_auto L v (r, h) = Inr (r', h', res)" "tame v"
  shows "poisoned h' = poisoned h"
  using assms collect_minor_poisoned collect_major_poisoned
  by (fastforce simp: collect_auto_def bind_res_Inr recompute_auto_trigger_def Let_def split: if_splits)

lemma poisoned_refuses:
  assumes "poisoned h"
  shows "try_collect c (r, h) = Inr (Inl Heap_Poisoned, h)" "try_alloc_in_region h g k n a = Some (None, h)"
    "try_alloc_large h n g = (None, h)" "reserve_tlab h g k n m = Some (None, h)"
  using assms
  by (simp_all add: try_collect_def poisoned_err_def try_alloc_in_region_def try_alloc_large_def reserve_tlab_def)

lemma try_collect_cases:
  assumes "try_collect c (r, h) = Inr (result, h')" "\<not> poisoned h"
  obtains (stalled) stall h1 where "c (r, h) = Inl (Stall stall h1)" "result = Inl (Mid_Evac_Oom stall)"
      "h' = h1\<lparr>poisoned := True\<rparr>"
  | (done_) r' res where "c (r, h) = Inr (r', h', res)" "result = Inr (r', res)"
proof (cases "c (r, h)")
  case (Inl x)
  then show ?thesis
    using assms stalled by (cases x) (auto simp: try_collect_def poisoned_err_def run_catching_oom_def)
next
  case (Inr y)
  obtain r2 h2 z where "y = (r2, h2, z)" by (cases y)
  then show ?thesis
    using Inr assms done_ by (simp add: try_collect_def poisoned_err_def run_catching_oom_def)
qed

subsection \<open>A heap without room\<close>

text \<open>
  One page, which holds a marked cons, and no Free page: an evacuation of G0 into itself has no
  page to copy the cons to.
\<close>

definition stuck_heap :: page_heap where
  "stuck_heap = self_cons_heap\<lparr>mark_bits := bit1_set (\<lambda>_. 0) 0, recycle_live_counts_target := Some G0\<rparr>"

lemma stuck_sel:
  "n_pages stuck_heap = 1" "base_ptr stuck_heap = 65536" "poisoned stuck_heap = False"
  "descs stuck_heap = [(desc_fresh G0 Kind_Cons)\<lparr>words_used := 2\<rparr>]" "pinned_cells stuck_heap = []"
  "explicit_pins stuck_heap = []" "recycle_live_counts_target stuck_heap = Some G0" "free_page_list stuck_heap = [0]"
  "alloc_regions stuck_heap = initial_regions" "minors_since_g0_promote stuck_heap = 0"
  "cells stuck_heap 0 = lisp_make_pointer 65536 PK_Cons"
  "mark_bits stuck_heap = bit1_set (\<lambda>_. 0) 0" "start_bits stuck_heap = set_cons_start_bit_at (\<lambda>_. 0) 0"
  by (simp_all add: stuck_heap_def self_cons_heap_def)
    (simp_all add: with_reservation_def Let_def div_ceil_def PAGE_SIZE_BYTES_def)

lemma stuck_alloc:
  assumes "\<not> poisoned h" "\<forall>d \<in> set (descs h). pgen d \<noteq> Gen_Free" "length (descs h) = n_pages h"
    "set (free_page_list h) \<subseteq> {..< n_pages h}" "recycle_live_counts_target h = Some G0"
    "alloc_region h G0 Kind_Cons = Some r" "current_page r = None"
  shows "try_alloc_cons_in h G0 = Some (None, h\<lparr>free_page_list := []\<rparr>)"
proof -
  have "pop_free_page (descs h) l = (None, [])" if "set l \<subseteq> {..< n_pages h}" for l
    using that assms(2,3) by (induction l) auto
  moreover have "scan_free_page (h\<lparr>free_page_list := []\<rparr>) = None"
    using assms(2,3) by (auto simp: scan_free_page_def find_None_iff desc_def)
  ultimately have "acquire_free_page h G0 Kind_Cons = (None, h\<lparr>free_page_list := []\<rparr>)"
    using assms(4) by (simp add: acquire_free_page_def)
  then show ?thesis
    using assms by (simp add: try_alloc_cons_in_def try_alloc_in_region_def try_bump_in_current_def
        young_cap_reached_def recycle_live_counts_active_for_def)
qed

lemma stuck_phase1:
  assumes h: "h = stuck_heap\<lparr>minors_since_g0_promote := m, alloc_regions := R\<rparr>" and r: "R (0, 0) = region_empty G0 Kind_Cons"
  shows "phase1_copy_chunk lisp_layout h G0 G0 [0] 0 0 0 =
    Inl (Stall (mid_evac_oom (h\<lparr>free_page_list := []\<rparr>) G0 G0 2 Kind_Cons 0 0 0) (h\<lparr>free_page_list := []\<rparr>))"
proof -
  have a: "try_alloc_cons_in h G0 = Some (None, h\<lparr>free_page_list := []\<rparr>)"
    by (rule stuck_alloc [where r = "region_empty G0 Kind_Cons"]) (simp_all add: h stuck_sel alloc_region_def r, simp add: region_empty_def)
  have "lisp_classify (lisp_make_pointer 65536 PK_Cons) = PointerCons 65536"
    using lisp.classify_pointer [of 65536 PK_Cons] by simp
  then have m: "is_marked h 0" "is_start_at (start_bits h) 0" "is_cons_start_at (start_bits h) 0"
    "is_real_forward_target_at lisp_layout h 0 (cells h 0) = None" "\<not> is_pinned_cell h 0"
    by (simp_all add: h stuck_sel is_marked_def bitmap_simps is_real_forward_target_at_def is_pinned_cell_def Let_def)
  have "object_extent lisp_layout h 0 = Some (True, 2)" using m(3) by (simp add: object_extent_def)
  moreover have "desc h 0 = (desc_fresh G0 Kind_Cons)\<lparr>words_used := 2\<rparr>" by (simp add: h desc_def stuck_sel)
  ultimately show ?thesis
    by (simp add: phase1_copy_chunk_def copy_page_def copy_loop.simps m alloc_copy_def a)
qed

lemma stuck_stalls:
  "\<exists>stall h1. collect_minor lisp_layout v (r, stuck_heap) = Inl (Stall stall h1) \<and>
     attempted_cells stall = 2 \<and> stall_free_pages stall = 0"
proof -
  let ?h = "stuck_heap\<lparr>minors_since_g0_promote := 1\<rparr>"
  define R where "R = alloc_regions (fold (reset_region G0) [Kind_Cons, Kind_Boxed] ?h)"
  have R: "fold (reset_region G0) [Kind_Cons, Kind_Boxed] ?h =
      stuck_heap\<lparr>minors_since_g0_promote := 1, alloc_regions := R\<rparr>" "R (0, 0) = region_empty G0 Kind_Cons"
    by (simp_all add: R_def reset_region_def alloc_region_update_def)
  have p: "apply_pins_and_extend_mark lisp_layout ?h G0 = Some ?h"
    by (simp add: apply_pins_and_extend_mark_def stuck_sel)
  have pages: "pages_in_gen ?h G0 = [0]" by (simp add: pages_in_gen_def stuck_sel)
  have a: "recycle_live_counts_active_for ?h G0" by (simp add: recycle_live_counts_active_for_def stuck_sel)
  let ?k = "stuck_heap\<lparr>minors_since_g0_promote := 1, alloc_regions := R\<rparr>"
  note ph = stuck_phase1 [of ?k R 1, OF refl R(2)]
  have n: "chunk_size h g pp 1 = 1" for h g pp by (simp add: chunk_size_def Let_def)
  have e: "evacuate_with_roots lisp_layout G0 G0 w (r, ?h) =
      Inl (Stall (mid_evac_oom (?k\<lparr>free_page_list := []\<rparr>) G0 G0 2 Kind_Cons 0 0 0) (?k\<lparr>free_page_list := []\<rparr>))" for w
    by (simp add: evacuate_with_roots_def a p pages R(1) chunk_loop.simps [of _ _ _ _ _ _ "[0]"] n [simplified] ph Let_def
      del: fold.simps) 
  have 1: "saturating_add (minors_since_g0_promote stuck_heap) 1 = 1"
    by (simp add: stuck_sel saturating_add_def)
  have "collect_minor lisp_layout v (r, stuck_heap) =
      Inl (Stall (mid_evac_oom (?k\<lparr>free_page_list := []\<rparr>) G0 G0 2 Kind_Cons 0 0 0) (?k\<lparr>free_page_list := []\<rparr>))"
    unfolding collect_minor_def prod.case Let_def 1 by (simp add: e G0_PROMOTION_THRESHOLD_def word_le_nat_alt)
  then show ?thesis by (simp add: mid_evac_oom_def count_pages_in_gen_def stuck_sel)
qed

section \<open>Properties\<close>

text \<open>
  C8. The promotion schedule. Of the minor cycles run one after the other from fresh counters,
  whatever the roots of each, every one evacuates G0, and exactly every third evacuates it into G1
  instead of into itself; exactly every fifteenth goes on to evacuate G1 into Tenured in the same
  pause. After a promoting cycle G0 has no page, after a cascading one G1 has none; a cycle that is
  not due brings no page into G1 (into Tenured). The counters afterwards are those of the schedule.
\<close>

theorem promotion_schedule:
  assumes "minor_cycles L vs (r, h) = Inr (r', h', results)" "\<forall>v \<in> set vs. tame v" "runs_whole h"
    "minors_since_g0_promote h = 0" "g0_promotes_since_g1_promote h = 0"
  shows "length results = length vs \<and>
    (\<forall>i < length vs. \<exists>ri hi ri' hi'.
       minor_cycles L (take i vs) (r, h) = Inr (ri, hi, take i results) \<and>
       minor_cycles L (take (Suc i) vs) (r, h) = Inr (ri', hi', take (Suc i) results) \<and>
       scheduled_minor L (Suc i) (vs ! i) (ri, hi) (results ! i) hi') \<and>
    minors_since_g0_promote h' = of_nat (length vs mod 3) \<and>
    g0_promotes_since_g1_promote h' = of_nat (length vs div 3 mod 5)"
proof -
  have "at_cycle 0 h" using assms(4,5) by (simp add: at_cycle_def)
  from minor_cycles_schedule [OF assms(1) this assms(2,3)] show ?thesis
    by (simp add: at_cycle_def cycle_as_scheduled_def)
qed

lemma idle_fresh: "idle (with_reservation base os n)"
  by (simp add: idle_def with_reservation_def Let_def desc_FREE_def)

lemma runs_whole_fresh: "runs_whole (with_reservation base os n)"
  by (simp add: runs_whole_def with_reservation_def Let_def desc_FREE_def is_large_head_def is_large_cont_def)

theorem promotion_schedule_witness:
  "\<exists>h' results. minor_cycles lisp_layout (replicate 31 (word_roots_visitor lisp_layout))
       ([], with_reservation 65536 (\<lambda>_. True) 65536) = Inr ([], h', results) \<and>
     promoted_g0 (results ! 2) \<and> \<not> promoted_g0 (results ! 3) \<and> promoted_g1 (results ! 14) \<and>
     cascade (results ! 14) \<noteq> None \<and> \<not> promoted_g1 (results ! 17) \<and>
     minors_since_g0_promote h' = 1 \<and> g0_promotes_since_g1_promote h' = 0"
proof -
  let ?h = "with_reservation 65536 (\<lambda>_. True) 65536" and ?vs = "replicate 31 (word_roots_visitor lisp_layout)"
  obtain h' results where r: "minor_cycles lisp_layout ?vs ([], ?h) = Inr ([], h', results)"
    using idle_minor_cycles [OF no_roots idle_fresh] by blast
  have t: "\<forall>v \<in> set ?vs. tame v" by (simp add: tame_word_roots)
  have z: "minors_since_g0_promote ?h = 0" "g0_promotes_since_g1_promote ?h = 0"
    by (simp_all add: with_reservation_def Let_def)
  note p = promotion_schedule [OF r t runs_whole_fresh z]
  have "(promoted_g0 (results ! i) = (3 dvd Suc i)) \<and> (promoted_g1 (results ! i) = (15 dvd Suc i)) \<and>
      (15 dvd Suc i \<longrightarrow> cascade (results ! i) \<noteq> None)" if "i < 31" for i
  proof -
    have "i < length ?vs" using that by simp
    then obtain ri hi hi' where "scheduled_minor lisp_layout (Suc i) (?vs ! i) (ri, hi) (results ! i) hi'"
      using p by blast
    then show ?thesis by (auto simp: scheduled_minor_def Let_def)
  qed
  from this [of 2] this [of 3] this [of 14] this [of 17]
  show ?thesis using r p by (intro exI [of _ h'] exI [of _ results]) simp
qed


text \<open>
  C34. The automatic collection chooses by the share of the reservation that Tenured uses: when the
  used bytes reach the configured number of basis points (equality included) it runs a major cycle,
  which leaves G1 without a page and both counters at 0; otherwise a minor one. No saturation gets in
  the way on a reservation of at most \<open>2 ^ 48\<close> bytes. Either way the next trigger is set from what
  Tenured holds after the cycle.
\<close>

theorem auto_cycle_choice:
  assumes "collect_auto L v (r, h) = Inr (r', h', res)" "tame v" "runs_whole h"
    "length (descs h) = n_pages h" "\<forall>d \<in> set (descs h). unat (words_used d) \<le> PAGE_SIZE_CELLS"
    "reserved_bytes h \<le> 2 ^ 48"
  shows "\<exists>h1. h' = h1\<lparr>bytes_alloc_since_gc := 0,
        auto_gc_trigger_bytes := max (tenured_used_bytes h1 div 2) (gc_budget_min_bytes h1)\<rparr> \<and>
      (if reserved_bytes h * unat (tenured_full_threshold_bps h) \<le> tenured_used_bytes h * 10000
       then collect_major L v (r, h) = Inr (r', h1, res) \<and> \<not> promoted_g0 res \<and> cascade res \<noteq> None \<and>
         count_pages_in_gen h' G1 = 0 \<and> minors_since_g0_promote h' = 0 \<and> g0_promotes_since_g1_promote h' = 0
       else collect_minor L v (r, h) = Inr (r', h1, res))"
proof -
  obtain h1 where c: "(if should_collect_major h then collect_major L v (r, h) else collect_minor L v (r, h)) = Inr (r', h1, res)"
    and h': "h' = recompute_auto_trigger h1"
    using assms(1) by (auto simp: collect_auto_def bind_res_Inr)
  have sel: "count_pages_in_gen h' G1 = count_pages_in_gen h1 G1"
    "minors_since_g0_promote h' = minors_since_g0_promote h1"
    "g0_promotes_since_g1_promote h' = g0_promotes_since_g1_promote h1"
    by (simp_all add: h' recompute_auto_trigger_def Let_def count_pages_in_gen_def)
  show ?thesis
    using c major_cycle [of L v r h r' h1 res] assms(2,3)
    unfolding should_collect_major_exact [OF assms(4-6)] sel
    by (intro exI [of _ h1]) (auto simp: h' recompute_auto_trigger_def Let_def split: if_splits)
qed

text \<open>A page of Tenured filled to exactly three quarters, the default threshold.\<close>

definition three_quarters_heap :: page_heap where
  "three_quarters_heap = (with_reservation 65536 (\<lambda>_. True) 65536)\<lparr>
     descs := [(desc_fresh Tenured Kind_Boxed)\<lparr>words_used := 6144\<rparr>], free_page_list := []\<rparr>"

lemma three_quarters_sel:
  "n_pages three_quarters_heap = 1" "tenured_full_threshold_bps three_quarters_heap = 7500"
  "descs three_quarters_heap = [(desc_fresh Tenured Kind_Boxed)\<lparr>words_used := 6144\<rparr>]"
  "pinned_cells three_quarters_heap = []" "explicit_pins three_quarters_heap = []"
  "\<not> is_dirty (cards three_quarters_heap) c"
  by (simp_all add: three_quarters_heap_def bitmap_simps)
    (simp_all add: with_reservation_def Let_def div_ceil_def PAGE_SIZE_BYTES_def)

theorem auto_cycle_choice_witness:
  "\<exists>h' res. collect_auto lisp_layout (word_roots_visitor lisp_layout) ([], three_quarters_heap) = Inr ([], h', res) \<and>
     cascade res \<noteq> None \<and> count_pages_in_gen h' G1 = 0"
proof -
  let ?v = "word_roots_visitor lisp_layout" and ?h = three_quarters_heap
  have q: "young_empty ?h" by (simp add: young_empty_def pages_in_gen_def three_quarters_sel)
  obtain h1 res where m: "collect_major lisp_layout ?v ([], ?h) = Inr ([], h1, res)"
    by (rule young_empty_collect_major [OF no_roots q])
  have used: "tenured_used_bytes ?h = 49152" "reserved_bytes ?h = 65536"
    by (simp_all add: tenured_used_bytes_def three_quarters_sel desc_bytes_def reserved_bytes_def PAGE_SIZE_BYTES_def)
  have "should_collect_major ?h"
    by (simp add: should_collect_major_def used saturating_mul_usize_def three_quarters_sel)
  then have a: "collect_auto lisp_layout ?v ([], ?h) = Inr ([], recompute_auto_trigger h1, res)"
    using m by (simp add: collect_auto_def)
  have "runs_whole ?h" by (simp add: runs_whole_def three_quarters_sel is_large_head_def is_large_cont_def)
  moreover have "length (descs ?h) = n_pages ?h" "\<forall>d \<in> set (descs ?h). unat (words_used d) \<le> PAGE_SIZE_CELLS"
    "reserved_bytes ?h \<le> 2 ^ 48"
    by (simp_all add: three_quarters_sel PAGE_SIZE_CELLS_num used)
  ultimately show ?thesis
    using auto_cycle_choice [OF a tame_word_roots] a by (auto simp: used three_quarters_sel)
qed

text \<open>
  C9. A full collection empties both young generations: afterwards no page belongs to G0 or G1,
  the schedule starts afresh, no conservative pin is left, and the reported reclaimed bytes are
  the pages the Tenured pass freed, at a page's size each.
\<close>

theorem full_cycle_empties_young:
  assumes "collect_full L v (r, h) = Inr (r', h', res)" "tame v" "runs_whole h"
  shows "count_pages_in_gen h' G0 = 0 \<and> count_pages_in_gen h' G1 = 0 \<and> runs_whole h' \<and>
    minors_since_g0_promote h' = 0 \<and> g0_promotes_since_g1_promote h' = 0 \<and> pinned_cells h' = [] \<and>
    poisoned h' = poisoned h \<and> tenured_freed_bytes res = pages_freed (tenured_evac res) * PAGE_SIZE_BYTES"
  using full_cycle [OF assms] by (simp add: gen_empty_def)

theorem full_cycle_empties_young_witness:
  "\<exists>h' res. collect_full lisp_layout (word_roots_visitor lisp_layout)
       ([], (with_reservation 65536 (\<lambda>_. True) 65536)\<lparr>minors_since_g0_promote := 2\<rparr>) = Inr ([], h', res) \<and>
     minors_since_g0_promote h' = 0 \<and> count_pages_in_gen h' G0 = 0"
proof -
  let ?h = "(with_reservation 65536 (\<lambda>_. True) 65536)\<lparr>minors_since_g0_promote := 2\<rparr>"
  have i: "idle ?h" by (simp add: idle_fresh)
  obtain h' res where c: "collect_full lisp_layout (word_roots_visitor lisp_layout) ([], ?h) = Inr ([], h', res)"
    by (rule idle_collect_full [OF no_roots i])
  have w: "runs_whole ?h" by (simp add: runs_whole_fresh)
  show ?thesis using c full_cycle_empties_young [OF c tame_word_roots w] by blast
qed

text \<open>
  C10. The fallible entry points. On a sound heap a stalled evacuation is reported as
  \<open>Mid_Evac_Oom\<close> with its diagnosis and leaves the heap it stalled on, poisoned; a collection that
  succeeds never leaves a poisoned heap. From then on every fallible collection returns
  \<open>Heap_Poisoned\<close> (not the stall again), the small, the large and the TLAB allocation return \<open>None\<close>,
  none of them panics, and the heap stays as it is. The slab path \<open>try_alloc_g0_slab\<close> is the
  exception: it goes on granting what it would grant on a sound heap.
\<close>

theorem stall_poisons_the_heap:
  assumes "collect = collect_minor L v \<or> collect = collect_major L v \<or> collect = collect_auto L v"
    "tame v" "try_collect collect (r :: 'r, h) = Inr (result, h')"
  shows "if poisoned h then result = Inl Heap_Poisoned \<and> h' = h
    else (\<exists>stall h1. collect (r, h) = Inl (Stall stall h1) \<and> result = Inl (Mid_Evac_Oom stall) \<and>
             h' = h1\<lparr>poisoned := True\<rparr> \<and>
             (\<forall>(w :: 'r root_visitor) r2. try_collect_minor L w (r2, h') = Inr (Inl Heap_Poisoned, h') \<and>
                try_collect_major L w (r2, h') = Inr (Inl Heap_Poisoned, h') \<and>
                try_collect_auto L w (r2, h') = Inr (Inl Heap_Poisoned, h')) \<and>
             (\<forall>g k n a. try_alloc_in_region h' g k n a = Some (None, h')) \<and>
             (\<forall>n g. try_alloc_large h' n g = (None, h')) \<and>
             (\<forall>g k n m. reserve_tlab h' g k n m = Some (None, h')) \<and>
             (\<forall>n. try_alloc_g0_slab h' n = map_option (with_poisoned True) (try_alloc_g0_slab h1 n))) \<or>
         (\<exists>r' res. collect (r, h) = Inr (r', h', res) \<and> result = Inr (r', res) \<and> \<not> poisoned h')"
proof (cases "poisoned h")
  case True
  then show ?thesis using assms(3) by (simp add: poisoned_refuses)
next
  case False
  with assms(3) show ?thesis
  proof (cases rule: try_collect_cases)
    case (stalled stall h1)
    then have "poisoned h'" by simp
    then show ?thesis
      using stalled False
      by (auto simp: poisoned_refuses try_collect_minor_def try_collect_major_def try_collect_auto_def slab_poisoned)
  next
    case (done_ r' res)
    then have "\<not> poisoned h'"
      using assms(1,2) False collect_minor_poisoned collect_major_poisoned collect_auto_poisoned by metis
    then show ?thesis using done_ False by auto
  qed
qed

theorem stall_poisons_the_heap_witness:
  "\<exists>stall h'. try_collect_minor lisp_layout (word_roots_visitor lisp_layout) ([], stuck_heap) =
       Inr (Inl (Mid_Evac_Oom stall), h') \<and>
     attempted_cells stall = 2 \<and> stall_free_pages stall = 0 \<and> poisoned h' \<and>
     try_collect_auto lisp_layout (word_roots_visitor lisp_layout) ([], h') = Inr (Inl Heap_Poisoned, h') \<and>
     try_alloc_large h' 5000 Tenured = (None, h')"
proof -
  let ?v = "word_roots_visitor lisp_layout"
  obtain stall h1 where c: "collect_minor lisp_layout ?v ([], stuck_heap) = Inl (Stall stall h1)"
    "attempted_cells stall = 2" "stall_free_pages stall = 0"
    using stuck_stalls [of ?v "[]"] by blast
  have np: "\<not> poisoned stuck_heap" by (simp add: stuck_sel)
  have 1: "try_collect (collect_minor lisp_layout ?v) ([], stuck_heap) =
      Inr (Inl (Mid_Evac_Oom stall), h1\<lparr>poisoned := True\<rparr>)"
    by (simp add: try_collect_def poisoned_err_def np c(1) run_catching_oom_def)
  show ?thesis
    using stall_poisons_the_heap [OF disjI1 [OF refl] tame_word_roots 1] np c 1
    by (intro exI [of _ stall] exI [of _ "h1\<lparr>poisoned := True\<rparr>"]) (simp add: try_collect_minor_def)
qed

end
