(* ===== verification/Mutator.thy ===== *)
theory Mutator
  imports Allocator
begin

text \<open>
  The thread-local allocation buffers of \<^verbatim>\<open>page_heap/mutator.rs\<close>: a mutator bumps the cursor of
  the slab it holds for a generation and kind, without the heap lock, and refills the slab under
  the lock when it has no room. Any number of mutators allocate from one heap; the
  invariant \<open>mutators_ok\<close> keeps their buffers apart, and the locale \<open>block_source\<close> draws the
  conclusion for every interleaving of their requests: the objects are disjoint, found by
  their start bits and zero.
\<close>

section \<open>Buffers\<close>

definition INITIAL_TLAB_CELLS :: nat where "INITIAL_TLAB_CELLS = 512"
definition MAX_TLAB_CELLS :: nat where "MAX_TLAB_CELLS = PAGE_SIZE_CELLS"

text \<open>Pointers are addresses, null is 0.\<close>

record tlab =
  tlab_start :: u64
  tlab_cursor :: u64
  tlab_end :: u64
  tlab_page_idx :: nat
  reserved_cells :: u32
  next_refill_cells :: u32

definition tlab_empty :: tlab where
  "tlab_empty =
     \<lparr>tlab_start = 0, tlab_cursor = 0, tlab_end = 0, tlab_page_idx = 0, reserved_cells = 0,
      next_refill_cells = of_nat INITIAL_TLAB_CELLS\<rparr>"

definition room_cells :: "tlab \<Rightarrow> nat" where
  "room_cells b = (if tlab_start b = 0 then 0 else unat (tlab_end b - tlab_cursor b) div 8)"

text \<open>A mutator: its buffers by \<open>region_index\<close>, and the cached base address.\<close>

record mutator =
  base_addr :: u64
  tlabs :: "nat \<times> nat \<Rightarrow> tlab"
  tlab_refills :: u64

definition new_mutator :: "page_heap \<Rightarrow> mutator" where
  "new_mutator h = \<lparr>base_addr = base_ptr h, tlabs = (\<lambda>_. tlab_empty), tlab_refills = 0\<rparr>"

definition flush_tlabs :: "mutator \<Rightarrow> mutator" where
  "flush_tlabs m = m\<lparr>tlabs := (\<lambda>_. tlab_empty)\<rparr>"

text \<open>The slab carved under the heap lock becomes the buffer; the next request doubles.\<close>

definition refill ::
  "mutator \<Rightarrow> page_heap \<Rightarrow> generation \<Rightarrow> page_kind \<Rightarrow> nat \<times> nat \<Rightarrow> nat \<Rightarrow>
     (bool \<times> mutator \<times> page_heap) option" where
  "refill m h g k ix min_cells =
     (let want = max (unat (next_refill_cells (tlabs m ix))) min_cells in
      case reserve_tlab h g k min_cells want of
        None \<Rightarrow> None
      | Some (slab, h) \<Rightarrow>
          (let m = m\<lparr>tlab_refills := tlab_refills m + 1\<rparr> in
           case slab of
             Some (ptr, page_idx, n) \<Rightarrow>
               (let nxt = min (unat (next_refill_cells (tlabs m ix)) * 2) MAX_TLAB_CELLS;
                    b = \<lparr>tlab_start = ptr, tlab_cursor = ptr, tlab_end = ptr + of_nat (8 * n),
                         tlab_page_idx = page_idx, reserved_cells = of_nat n,
                         next_refill_cells = of_nat nxt\<rparr>
                in Some (True, m\<lparr>tlabs := (tlabs m)(ix := b)\<rparr>, h))
           | None \<Rightarrow> Some (False, m, h)))"

text \<open>The branch of \<open>bump\<close> that finds room.\<close>

definition bump_hit ::
  "mutator \<Rightarrow> page_heap \<Rightarrow> nat \<times> nat \<Rightarrow> nat \<Rightarrow> bool \<Rightarrow> u64 \<times> mutator \<times> page_heap" where
  "bump_hit m h ix n_cells as_cons =
     (let ptr = tlab_cursor (tlabs m ix);
          m = m\<lparr>tlabs := (tlabs m)(ix := (tlabs m ix)\<lparr>tlab_cursor := ptr + of_nat (8 * n_cells)\<rparr>)\<rparr>;
          cell_idx = unat (ptr - base_addr m) div 8;
          h = (if as_cons then h\<lparr>start_bits := set_cons_start_bit_at (start_bits h) cell_idx\<rparr>
               else h\<lparr>start_bits := set_start_bit_at (start_bits h) cell_idx\<rparr>);
          h = charge_bytes h n_cells
      in (ptr, m, h))"

text \<open>The loop of \<open>bump\<close>: \<open>None\<close> if it panics or does not end.\<close>

partial_function (option) bump_loop ::
  "mutator \<Rightarrow> page_heap \<Rightarrow> generation \<Rightarrow> page_kind \<Rightarrow> nat \<times> nat \<Rightarrow> nat \<Rightarrow> bool \<Rightarrow>
     (u64 option \<times> mutator \<times> page_heap) option" where
  "bump_loop m h g k ix n_cells as_cons =
     (if room_cells (tlabs m ix) \<ge> n_cells
      then (case bump_hit m h ix n_cells as_cons of (ptr, m, h) \<Rightarrow> Some (Some ptr, m, h))
      else Option.bind (refill m h g k ix n_cells)
        (\<lambda>(ok, m, h). if \<not> ok then Some (None, m, h) else bump_loop m h g k ix n_cells as_cons))"

definition bump ::
  "mutator \<Rightarrow> page_heap \<Rightarrow> generation \<Rightarrow> page_kind \<Rightarrow> nat \<Rightarrow> bool \<Rightarrow>
     (u64 option \<times> mutator \<times> page_heap) option" where
  "bump m h g k n_cells as_cons =
     (if poisoned h then Some (None, m, h)
      else case region_index g k of
        None \<Rightarrow> None
      | Some ix \<Rightarrow> bump_loop m h g k ix n_cells as_cons)"

definition mut_try_alloc_cons_in ::
  "mutator \<Rightarrow> page_heap \<Rightarrow> generation \<Rightarrow> (u64 option \<times> mutator \<times> page_heap) option" where
  "mut_try_alloc_cons_in m h g = bump m h g Kind_Cons 2 True"

definition mut_try_alloc_boxed_in ::
  "mutator \<Rightarrow> page_heap \<Rightarrow> generation \<Rightarrow> nat \<Rightarrow> (u64 option \<times> mutator \<times> page_heap) option" where
  "mut_try_alloc_boxed_in m h g n_cells =
     (if n_cells = 0 \<or> n_cells > PAGE_SIZE_CELLS then Some (None, m, h)
      else bump m h g Kind_Boxed n_cells False)"

definition mut_try_alloc_large ::
  "mutator \<Rightarrow> page_heap \<Rightarrow> nat \<Rightarrow> generation \<Rightarrow> u64 option \<times> mutator \<times> page_heap" where
  "mut_try_alloc_large m h n_cells g = (let (r, h) = try_alloc_large h n_cells g in (r, m, h))"

section \<open>Many mutators, one heap\<close>

text \<open>What thread \<open>t\<close> asks for next; the block granted is a cell and a length.\<close>

datatype mut_request =
    Mut_Cons nat generation
  | Mut_Boxed nat generation nat
  | Mut_Large nat generation nat
  | Mut_Flush nat

type_synonym mut_state = "(nat \<Rightarrow> mutator) \<times> page_heap"

definition settle ::
  "nat \<Rightarrow> nat \<Rightarrow> mut_state \<Rightarrow> u64 option \<times> mutator \<times> page_heap \<Rightarrow> (nat \<times> nat) option \<times> mut_state" where
  "settle t n = (\<lambda>(ms, h) (r, m, h'). (map_option (\<lambda>a. (cell_index h a, n)) r, ms(t := m), h'))"

fun serve :: "mut_request \<Rightarrow> mut_state \<Rightarrow> ((nat \<times> nat) option \<times> mut_state) option" where
  "serve (Mut_Cons t g) (ms, h) = map_option (settle t 2 (ms, h)) (mut_try_alloc_cons_in (ms t) h g)"
| "serve (Mut_Boxed t g n) (ms, h) = map_option (settle t n (ms, h)) (mut_try_alloc_boxed_in (ms t) h g n)"
| "serve (Mut_Large t g n) (ms, h) =
     Some (settle t (div_ceil n PAGE_SIZE_CELLS * PAGE_SIZE_CELLS) (ms, h) (mut_try_alloc_large (ms t) h n g))"
| "serve (Mut_Flush t) (ms, h) = Some (None, ms(t := flush_tlabs (ms t)), h)"

fun wanted :: "mut_request \<Rightarrow> bool" where
  "wanted (Mut_Cons t g) = (g \<noteq> Gen_Free)"
| "wanted (Mut_Boxed t g n) = (g \<noteq> Gen_Free)"
| "wanted (Mut_Large t g n) = (g \<noteq> Gen_Free \<and> 0 < n)"
| "wanted (Mut_Flush t) = True"

section \<open>Sources of blocks\<close>

text \<open>
  A source of blocks: each request is answered, and a block handed out was not taken, is taken
  from then on, and is \<open>placed\<close>, which lasts as long as its cells stay taken.
\<close>

fun serve_all :: "('r \<Rightarrow> 's \<Rightarrow> ((nat \<times> nat) option \<times> 's) option) \<Rightarrow> 'r list \<Rightarrow> 's \<Rightarrow>
    ((nat \<times> nat) list \<times> 's) option" where
  "serve_all step [] s = Some ([], s)"
| "serve_all step (r # rs) s =
     (case step r s of
        None \<Rightarrow> None
      | Some (res, s1) \<Rightarrow>
          (case serve_all step rs s1 of
             None \<Rightarrow> None
           | Some (log, s2) \<Rightarrow> Some ((case res of None \<Rightarrow> log | Some b \<Rightarrow> b # log), s2)))"

locale block_source =
  fixes step :: "'r \<Rightarrow> 's \<Rightarrow> ((nat \<times> nat) option \<times> 's) option"
    and valid :: "'r \<Rightarrow> bool"
    and ok :: "'s \<Rightarrow> bool"
    and taken :: "'s \<Rightarrow> nat \<Rightarrow> bool"
    and placed :: "'s \<Rightarrow> nat \<times> nat \<Rightarrow> bool"
  assumes answers: "ok s \<Longrightarrow> valid r \<Longrightarrow> \<exists>res s'. step r s = Some (res, s') \<and> ok s'"
    and stays: "ok s \<Longrightarrow> valid r \<Longrightarrow> step r s = Some (res, s') \<Longrightarrow> taken s x \<Longrightarrow> taken s' x"
    and fresh: "ok s \<Longrightarrow> valid r \<Longrightarrow> step r s = Some (Some (c, n), s') \<Longrightarrow>
      0 < n \<and> placed s' (c, n) \<and> (\<forall>x. c \<le> x \<and> x < c + n \<longrightarrow> \<not> taken s x \<and> taken s' x)"
    and keeps: "ok s \<Longrightarrow> valid r \<Longrightarrow> step r s = Some (res, s') \<Longrightarrow> placed s (c, n) \<Longrightarrow>
      \<forall>x. c \<le> x \<and> x < c + n \<longrightarrow> taken s x \<Longrightarrow> placed s' (c, n)"
begin

lemma all_answered:
  assumes "ok s" "\<forall>r \<in> set rs. valid r"
  obtains log s' where "serve_all step rs s = Some (log, s')" "ok s'"
  using assms
proof (induction rs arbitrary: s thesis)
  case (Cons r rs)
  obtain res s1 where 1: "step r s = Some (res, s1)" "ok s1" using answers Cons.prems(2,3) by force
  obtain log s2 where "serve_all step rs s1 = Some (log, s2)" "ok s2"
    using Cons.IH [OF _ 1(2)] Cons.prems(3) by auto
  then show ?case using Cons.prems(1) 1(1) by simp
qed simp

lemma all_stay:
  assumes "ok s" "\<forall>r \<in> set rs. valid r" "serve_all step rs s = Some (log, s')"
  shows "taken s x \<longrightarrow> taken s' x"
    "placed s (c, n) \<and> (\<forall>x. c \<le> x \<and> x < c + n \<longrightarrow> taken s x) \<longrightarrow> placed s' (c, n)"
proof -
  have "(taken s x \<longrightarrow> taken s' x) \<and>
      (placed s (c, n) \<and> (\<forall>x. c \<le> x \<and> x < c + n \<longrightarrow> taken s x) \<longrightarrow> placed s' (c, n))" for x
    using assms
  proof (induction rs arbitrary: s log)
    case (Cons r rs)
    obtain res s1 where 1: "step r s = Some (res, s1)" "ok s1" using answers Cons.prems(1,2) by force
    obtain log1 where 2: "serve_all step rs s1 = Some (log1, s')"
      using Cons.prems(3) 1 by (auto split: option.splits)
    have v: "valid r" "\<forall>r \<in> set rs. valid r" using Cons.prems(2) by simp_all
    note IH = Cons.IH [OF 1(2) v(2) 2]
    show ?case
      using IH stays [OF Cons.prems(1) v(1) 1(1)] keeps [OF Cons.prems(1) v(1) 1(1)] by blast
  qed simp
  then show "taken s x \<longrightarrow> taken s' x"
    "placed s (c, n) \<and> (\<forall>x. c \<le> x \<and> x < c + n \<longrightarrow> taken s x) \<longrightarrow> placed s' (c, n)" by blast+
qed

lemma blocks_disjoint:
  assumes "ok s" "\<forall>r \<in> set rs. valid r" "serve_all step rs s = Some (log, s')"
  shows "disjoint_blocks log \<and>
    (\<forall>(c, n) \<in> set log. 0 < n \<and> placed s' (c, n) \<and> (\<forall>x. c \<le> x \<and> x < c + n \<longrightarrow> \<not> taken s x \<and> taken s' x))"
  using assms
proof (induction rs arbitrary: s log)
  case (Cons r rs)
  obtain res s1 where 1: "step r s = Some (res, s1)" "ok s1" using answers Cons.prems(1,2) by force
  obtain log1 where 2: "serve_all step rs s1 = Some (log1, s')"
    and log: "log = (case res of None \<Rightarrow> log1 | Some b \<Rightarrow> b # log1)"
    using Cons.prems(3) 1 by (auto split: option.splits)
  have v: "valid r" "\<forall>r \<in> set rs. valid r" using Cons.prems(2) by simp_all
  have IH: "disjoint_blocks log1" "\<And>c n. (c, n) \<in> set log1 \<Longrightarrow> 0 < n \<and> placed s' (c, n) \<and>
      (\<forall>x. c \<le> x \<and> x < c + n \<longrightarrow> \<not> taken s1 x \<and> taken s' x)"
    using Cons.IH [OF 1(2) v(2) 2] by auto
  have old: "\<not> taken s x" if "\<not> taken s1 x" for x using that stays [OF Cons.prems(1) v(1) 1(1)] by blast
  show ?case
  proof (cases res)
    case None
    then show ?thesis using IH old log by auto
  next
    case (Some b)
    obtain c n where b: "b = (c, n)" by fastforce
    note f = fresh [OF Cons.prems(1) v(1) 1(1) [unfolded Some b]]
    have p: "placed s' (c, n)" "\<And>x. c \<le> x \<Longrightarrow> x < c + n \<Longrightarrow> taken s' x"
      using all_stay [OF 1(2) v(2) 2] f by blast+
    have "c + n \<le> d \<or> d + k \<le> c" if "(d, k) \<in> set log1" for d k
    proof (rule ccontr)
      assume o: "\<not> (c + n \<le> d \<or> d + k \<le> c)"
      moreover have "0 < k" using IH(2) [OF that] by simp
      ultimately have "c \<le> max c d \<and> max c d < c + n" "d \<le> max c d \<and> max c d < d + k" using f by auto
      then show False using f IH(2) [OF that] by blast
    qed
    then show ?thesis using Some b log IH f p old by auto
  qed
qed simp

end

section \<open>The invariant\<close>

definition tlab_range :: "page_heap \<Rightarrow> tlab \<Rightarrow> nat set" where
  "tlab_range h b = {cell_index h (tlab_cursor b) ..< cell_index h (tlab_cursor b) + room_cells b}"

definition buffer_ok :: "page_heap \<Rightarrow> tlab \<Rightarrow> bool" where
  "buffer_ok h b \<longleftrightarrow> tlab_start b = 0 \<or>
     (\<exists>c n. tlab_cursor b = cell_addr h c \<and> tlab_end b = cell_addr h (c + n) \<and> c + n \<le> total_cells_of h)"

text \<open>A cell some buffer keeps for later, and a cell that belongs to an object or is lost.\<close>

definition reserved :: "mut_state \<Rightarrow> nat \<Rightarrow> bool" where
  "reserved = (\<lambda>(ms, h) x. \<exists>t ix. x \<in> tlab_range h (tlabs (ms t) ix))"

definition taken :: "mut_state \<Rightarrow> nat \<Rightarrow> bool" where
  "taken s x \<longleftrightarrow> cell_used (snd s) x \<and> \<not> reserved s x"

definition blank :: "page_heap \<Rightarrow> nat \<Rightarrow> bool" where
  "blank h x \<longleftrightarrow> cell_used h x \<and> \<not> is_start_at (start_bits h) x \<and> cells h x = 0"

definition mutators_ok :: "mut_state \<Rightarrow> bool" where
  "mutators_ok = (\<lambda>(ms, h). alloc_ok h \<and> base_ptr h \<noteq> 0 \<and> (\<forall>t. base_addr (ms t) = base_ptr h) \<and>
     (\<forall>t ix. buffer_ok h (tlabs (ms t) ix) \<and> (\<forall>x \<in> tlab_range h (tlabs (ms t) ix). blank h x)) \<and>
     (\<forall>t ix t' ix'. (t, ix) \<noteq> (t', ix') \<longrightarrow>
        tlab_range h (tlabs (ms t) ix) \<inter> tlab_range h (tlabs (ms t') ix') = {}))"

definition placed :: "mut_state \<Rightarrow> nat \<times> nat \<Rightarrow> bool" where
  "placed s = (\<lambda>(c, n). \<forall>x. c \<le> x \<and> x < c + n \<longrightarrow>
     is_start_at (start_bits (snd s)) x = (x = c) \<and> cells (snd s) x = 0)"

text \<open>What a step leaves: cells that were taken stay so, with their contents and start bits.\<close>

definition undisturbed :: "mut_state \<Rightarrow> mut_state \<Rightarrow> bool" where
  "undisturbed s s' \<longleftrightarrow> (\<forall>x. taken s x \<longrightarrow> taken s' x \<and> cells (snd s') x = cells (snd s) x \<and>
     is_start_at (start_bits (snd s')) x = is_start_at (start_bits (snd s)) x)"

definition handed_out :: "mut_state \<Rightarrow> (nat \<times> nat) option \<Rightarrow> mut_state \<Rightarrow> bool" where
  "handed_out s res s' \<longleftrightarrow> mutators_ok s' \<and> undisturbed s s' \<and>
     (\<forall>c n. res = Some (c, n) \<longrightarrow>
        0 < n \<and> placed s' (c, n) \<and> (\<forall>x. c \<le> x \<and> x < c + n \<longrightarrow> \<not> taken s x \<and> taken s' x))"

lemma undisturbed_trans: "undisturbed s s1 \<Longrightarrow> undisturbed s1 s2 \<Longrightarrow> undisturbed s s2"
  by (simp add: undisturbed_def)

lemma undisturbed_refl [simp]: "undisturbed s s"
  by (simp add: undisturbed_def)

lemma handed_out_after:
  assumes "undisturbed s s1" "handed_out s1 res s2"
  shows "handed_out s res s2"
proof -
  have "\<not> taken s x" if "\<not> taken s1 x" for x using that assms(1) by (auto simp: undisturbed_def)
  moreover have "undisturbed s s2"
    using assms undisturbed_trans by (simp add: handed_out_def)
  ultimately show ?thesis using assms(2) by (simp add: handed_out_def)
qed

lemma tlab_range_empty [simp]: "tlab_range h tlab_empty = {}"
  by (simp add: tlab_range_def room_cells_def tlab_empty_def)

lemma buffer_ok_empty [simp]: "buffer_ok h tlab_empty"
  by (simp add: buffer_ok_def tlab_empty_def)

lemma tlab_range_cong: "base_ptr h' = base_ptr h \<Longrightarrow> tlab_range h' b = tlab_range h b"
  by (simp add: tlab_range_def cell_index_def)

lemma cell_addr_diff:
  assumes "reservation_ok h" "c + n \<le> total_cells_of h"
  shows "unat (cell_addr h (c + n) - cell_addr h c) = 8 * n"
proof -
  have "8 * n \<le> reserved_bytes h"
    using assms(2) by (simp add: total_cells_of_def reserved_bytes_def page_bytes_cells)
  then have "8 * n < 2 ^ 64" using assms(1) by (simp add: reservation_ok_def)
  moreover have "cell_addr h (c + n) - cell_addr h c = of_nat (8 * n)"
    unfolding cell_addr_def add_mult_distrib2 of_nat_add by simp
  ultimately show ?thesis by (simp add: unat_of_nat del: of_nat_mult)
qed

lemma cell_addr_nonnull:
  assumes "reservation_ok h" "base_ptr h \<noteq> 0" "c < total_cells_of h"
  shows "cell_addr h c \<noteq> 0"
proof -
  have "unat (cell_addr h c) = unat (base_ptr h) + 8 * c"
    unfolding cell_addr_def by (rule unat_base_offset [OF assms(1) cell_in_reservation [OF assms(3)]])
  moreover have "unat (base_ptr h) \<noteq> 0" using assms(2) by (simp add: unat_eq_zero)
  ultimately have "unat (cell_addr h c) \<noteq> 0" by linarith
  then show ?thesis by auto
qed

text \<open>A buffer with room, in cells.\<close>

lemma buffer_view:
  assumes "reservation_ok h" "buffer_ok h b" "0 < n" "n \<le> room_cells b"
  obtains c where "tlab_start b \<noteq> 0" "tlab_cursor b = cell_addr h c"
    "tlab_end b = cell_addr h (c + room_cells b)" "c + room_cells b \<le> total_cells_of h"
    "cell_index h (tlab_cursor b) = c" "tlab_range h b = {c ..< c + room_cells b}"
proof -
  have s: "tlab_start b \<noteq> 0" using assms(3,4) by (auto simp: room_cells_def split: if_splits)
  then obtain c k where c: "tlab_cursor b = cell_addr h c" "tlab_end b = cell_addr h (c + k)"
      "c + k \<le> total_cells_of h"
    using assms(2) by (auto simp: buffer_ok_def)
  then have r: "room_cells b = k" using s cell_addr_diff [OF assms(1) c(3)] by (simp add: room_cells_def)
  then have "c < total_cells_of h" using c(3) assms(3,4) by simp
  then have "cell_index h (tlab_cursor b) = c" using c(1) assms(1) by simp
  then show ?thesis using that [of c] s c r by (simp add: tlab_range_def)
qed

text \<open>The heap grows under buffers that keep still.\<close>

lemma blank_extends: "extends h h' \<Longrightarrow> blank h x \<Longrightarrow> blank h' x"
  by (simp add: blank_def extends_def)

lemma buffer_ok_extends: "extends h h' \<Longrightarrow> buffer_ok h' b = buffer_ok h b"
  by (simp add: buffer_ok_def extends_def cell_addr_def total_cells_of_def)

lemma extends_base: "extends h h' \<Longrightarrow> base_ptr h' = base_ptr h"
  by (simp add: extends_def)

lemma reserved_extends: "extends h h' \<Longrightarrow> reserved (ms, h') x = reserved (ms, h) x"
  unfolding reserved_def by (simp add: tlab_range_cong [OF extends_base])

lemma taken_extends:
  assumes "extends h h'"
  shows "undisturbed (ms, h) (ms, h')"
  using assms unfolding undisturbed_def taken_def snd_conv reserved_extends [OF assms]
  by (simp add: extends_def)

lemma mutators_ok_extends:
  assumes "mutators_ok (ms, h)" "alloc_ok h'" "extends h h'"
  shows "mutators_ok (ms, h')"
proof -
  have b: "base_ptr h' = base_ptr h" using assms(3) by (simp add: extends_def)
  note simps = tlab_range_cong [OF b] buffer_ok_extends [OF assms(3)] b
  show ?thesis
    using assms(1,2) blank_extends [OF assms(3)] unfolding mutators_ok_def prod.case simps by blast
qed

lemma mutators_okD:
  assumes "mutators_ok (ms, h)"
  shows "alloc_ok h" "reservation_ok h" "base_ptr h \<noteq> 0" "base_addr (ms t) = base_ptr h"
    "buffer_ok h (tlabs (ms t) ix)" "x \<in> tlab_range h (tlabs (ms t) ix) \<Longrightarrow> blank h x"
    "x \<in> tlab_range h (tlabs (ms t) ix) \<Longrightarrow> x \<in> tlab_range h (tlabs (ms t') ix') \<Longrightarrow> t' = t \<and> ix' = ix"
  using assms alloc_okD(1) [of h] unfolding mutators_ok_def prod.case by blast+

lemma reservedI: "x \<in> tlab_range h (tlabs (ms t) ix) \<Longrightarrow> reserved (ms, h) x"
  unfolding reserved_def by blast

lemma mutators_okI:
  assumes "alloc_ok h" "base_ptr h \<noteq> 0" "\<And>t. base_addr (ms t) = base_ptr h"
    "\<And>t ix. buffer_ok h (tlabs (ms t) ix)" "\<And>t ix x. x \<in> tlab_range h (tlabs (ms t) ix) \<Longrightarrow> blank h x"
    "\<And>t ix t' ix' x. x \<in> tlab_range h (tlabs (ms t) ix) \<Longrightarrow> x \<in> tlab_range h (tlabs (ms t') ix') \<Longrightarrow>
       t' = t \<and> ix' = ix"
  shows "mutators_ok (ms, h)"
  using assms unfolding mutators_ok_def by blast

text \<open>A buffer gives way to one whose cells are blank and in no other buffer.\<close>

lemma replace_buffer:
  assumes ok: "mutators_ok (ms, h)"
    and m: "base_addr m = base_ptr h" "tlabs m = (tlabs (ms t))(ix := b)" "buffer_ok h b"
    and b: "\<And>x. x \<in> tlab_range h b \<Longrightarrow> blank h x"
      "\<And>x. x \<in> tlab_range h b \<Longrightarrow> reserved (ms, h) x \<Longrightarrow> x \<in> tlab_range h (tlabs (ms t) ix)"
  shows "mutators_ok (ms(t := m), h)"
proof (rule mutators_okI)
  let ?r = "\<lambda>u jx. tlab_range h (tlabs ((ms(t := m)) u) jx)"
  have r: "?r u jx = (if u = t \<and> jx = ix then tlab_range h b else tlab_range h (tlabs (ms u) jx))" for u jx
    by (simp add: m)
  show "u' = u \<and> jx' = jx" if x: "x \<in> ?r u jx" "x \<in> ?r u' jx'" for u jx u' jx' x
  proof -
    have other: "False" if y: "x \<in> tlab_range h b" "x \<in> tlab_range h (tlabs (ms v) kx)" "\<not> (v = t \<and> kx = ix)" for v kx
    proof -
      have "x \<in> tlab_range h (tlabs (ms t) ix)"
        by (rule b(2) [OF y(1)]) (rule reservedI [of x h ms v kx, OF y(2)])
      then show False using mutators_okD(7) [OF ok y(2)] y(3) by blast
    qed
    show ?thesis
      using x other [of u jx] other [of u' jx'] mutators_okD(7) [OF ok, of x u jx u' jx']
      unfolding r by (auto split: if_splits)
  qed
  show "blank h x" if "x \<in> ?r u jx" for u jx x
    using that b(1) mutators_okD(6) [OF ok, of x u jx] unfolding r by (auto split: if_splits)
  show "buffer_ok h (tlabs ((ms(t := m)) u) jx)" for u jx
    using m(2,3) mutators_okD(5) [OF ok] by simp
qed (use m(1) mutators_okD [OF ok] in simp_all)

lemma reserved_replace:
  assumes "tlabs m = (tlabs (ms t))(ix := b)" "reserved (ms(t := m), h) x"
  shows "reserved (ms, h) x \<or> x \<in> tlab_range h b"
  using assms by (auto simp: reserved_def split: if_splits)

lemma undisturbed_replace:
  assumes "tlabs m = (tlabs (ms t))(ix := b)" "\<And>x. x \<in> tlab_range h b \<Longrightarrow> \<not> taken (ms, h) x"
  shows "undisturbed (ms, h) (ms(t := m), h)"
  using assms(2) reserved_replace [of m ms t ix b h, OF assms(1)] by (auto simp: undisturbed_def taken_def)

text \<open>A start bit on a cell that no buffer keeps.\<close>

lemma set_start_ok:
  fixes a :: bool and n :: nat
  assumes ok: "mutators_ok (ms, h)" and c: "cell_used h c" "\<not> reserved (ms, h) c"
  defines "h' \<equiv> charge_bytes (h\<lparr>start_bits := set_object_start a (start_bits h) c\<rparr>) n"
  shows "mutators_ok (ms, h')"
proof (rule mutators_okI)
  have sel: "base_ptr h' = base_ptr h" "total_cells_of h' = total_cells_of h" "cell_used h' = cell_used h"
    "cells h' = cells h"
    by (simp_all add: h'_def total_cells_of_def fun_eq_iff)
  note rng = tlab_range_cong [OF sel(1)]
  show "alloc_ok h'"
    unfolding h'_def alloc_ok_charge
    by (rule alloc_ok_start_bit [OF mutators_okD(1) [OF ok] c(1)]) (simp add: bitmap_simps)
  show "blank h' x" if "x \<in> tlab_range h' (tlabs (ms t) ix)" for t ix x
  proof -
    have "x \<noteq> c" using that c(2) reservedI unfolding rng by blast
    then show ?thesis
      using mutators_okD(6) [OF ok that [unfolded rng]]
      by (simp add: blank_def sel) (simp add: h'_def bitmap_simps)
  qed
  show "buffer_ok h' (tlabs (ms t) ix)" for t ix
    using mutators_okD(5) [OF ok, of t ix] by (simp add: buffer_ok_def sel cell_addr_def)
  show "t' = t \<and> ix' = ix"
    if "x \<in> tlab_range h' (tlabs (ms t) ix)" "x \<in> tlab_range h' (tlabs (ms t') ix')" for t ix t' ix' x
    using mutators_okD(7) [OF ok] that unfolding rng by blast
qed (use mutators_okD [OF ok] in \<open>simp_all add: h'_def\<close>)

section \<open>Bumping and refilling\<close>

lemma bump_hit_eval:
  assumes ok: "mutators_ok (ms, h)" and n: "0 < n" "n \<le> room_cells (tlabs (ms t) ix)"
  obtains c b h' where
    "bump_hit (ms t) h ix n a = (cell_addr h c, (ms t)\<lparr>tlabs := (tlabs (ms t))(ix := b)\<rparr>, h')"
    "h' = charge_bytes (h\<lparr>start_bits := set_object_start a (start_bits h) c\<rparr>) n"
    "buffer_ok h b" "tlab_range h (tlabs (ms t) ix) = {c ..< c + room_cells (tlabs (ms t) ix)}"
    "tlab_range h b = {c + n ..< c + room_cells (tlabs (ms t) ix)}" "c + n \<le> total_cells_of h"
proof -
  let ?b = "tlabs (ms t) ix"
  note r = mutators_okD(2) [OF ok]
  obtain c where c: "tlab_start ?b \<noteq> 0" "tlab_cursor ?b = cell_addr h c"
      "tlab_end ?b = cell_addr h (c + room_cells ?b)" "c + room_cells ?b \<le> total_cells_of h"
      "cell_index h (tlab_cursor ?b) = c" "tlab_range h ?b = {c ..< c + room_cells ?b}"
    by (rule buffer_view [OF r mutators_okD(5) [OF ok] n])
  define b where "b = ?b\<lparr>tlab_cursor := cell_addr h (c + n)\<rparr>"
  have nxt: "tlab_cursor ?b + of_nat (8 * n) = cell_addr h (c + n)"
    by (simp add: c(2) cell_addr_def algebra_simps)
  have rest: "c + n + (room_cells ?b - n) = c + room_cells ?b" using n by simp
  have room: "room_cells b = room_cells ?b - n"
  proof -
    have "unat (cell_addr h (c + room_cells ?b) - cell_addr h (c + n)) = 8 * (room_cells ?b - n)"
      using cell_addr_diff [OF r, of "c + n" "room_cells ?b - n"] c(4) n by simp
    then have "(if tlab_start b = 0 then 0 else unat (tlab_end b - tlab_cursor b) div 8) = room_cells ?b - n"
      using c(1,3) by (simp add: b_def)
    then show ?thesis by (simp add: room_cells_def [of b])
  qed
  have ok_b: "buffer_ok h b"
    unfolding buffer_ok_def
    by (intro disjI2 exI [of _ "c + n"] exI [of _ "room_cells ?b - n"], unfold rest)
      (use c(3,4) in \<open>simp add: b_def\<close>)
  have rng: "tlab_range h b = {c + n ..< c + room_cells ?b}"
  proof (cases "room_cells ?b = n")
    case True
    then show ?thesis using room by (simp add: tlab_range_def)
  next
    case False
    then have "c + n < total_cells_of h" using c(4) n by simp
    then have "cell_index h (tlab_cursor b) = c + n" using r by (simp add: b_def)
    then show ?thesis using room n by (simp add: tlab_range_def)
  qed
  have idx: "unat (tlab_cursor ?b - base_addr (ms t)) div 8 = c"
  proof -
    have "unat (cell_addr h (0 + c) - cell_addr h 0) = 8 * c"
      by (rule cell_addr_diff [OF r]) (use c(4) in simp)
    moreover have "cell_addr h 0 = base_addr (ms t)"
      using mutators_okD(4) [OF ok, of t] by (simp add: cell_addr_def)
    ultimately show ?thesis by (simp add: c(2))
  qed
  show ?thesis
    by (rule that [of c b, OF _ refl ok_b c(6) rng])
      (use n c(4) in \<open>simp_all add: bump_hit_def Let_def nxt [unfolded c(2)] idx [unfolded c(2)] b_def set_object_start_def c(2)
        del: of_nat_mult\<close>)
qed

lemma bump_hit_ok:
  assumes ok: "mutators_ok (ms, h)" and n: "0 < n" "n \<le> room_cells (tlabs (ms t) ix)"
    and b: "bump_hit (ms t) h ix n a = (p, m, h')"
  shows "handed_out (ms, h) (Some (cell_index h p, n)) (ms(t := m), h')"
proof -
  obtain c b where e: "p = cell_addr h c" "m = (ms t)\<lparr>tlabs := (tlabs (ms t))(ix := b)\<rparr>"
    "h' = charge_bytes (h\<lparr>start_bits := set_object_start a (start_bits h) c\<rparr>) n" "buffer_ok h b"
    "tlab_range h (tlabs (ms t) ix) = {c ..< c + room_cells (tlabs (ms t) ix)}"
    "tlab_range h b = {c + n ..< c + room_cells (tlabs (ms t) ix)}" "c + n \<le> total_cells_of h"
    by (rule bump_hit_eval [OF ok n, of a]) (use b in auto)
  let ?ms = "ms(t := m)"
  have m: "base_addr m = base_ptr h" "tlabs m = (tlabs (ms t))(ix := b)"
    using mutators_okD(4) [OF ok] by (simp_all add: e(2))
  have sub: "x \<in> tlab_range h (tlabs (ms t) ix)" if "x \<in> tlab_range h b" for x
    using that n by (simp add: e(5,6))
  have mine: "x \<in> tlab_range h (tlabs (ms t) ix)" if "c \<le> x" "x < c + n" for x using that n by (simp add: e(5))
  have ok1: "mutators_ok (?ms, h)"
    by (rule replace_buffer [OF ok m e(4)]) (use sub mutators_okD(6) [OF ok] in blast)+
  have free: "\<not> reserved (?ms, h) x" if x: "c \<le> x" "x < c + n" for x
  proof
    assume "reserved (?ms, h) x"
    then obtain u jx where u: "x \<in> tlab_range h (tlabs (?ms u) jx)" by (auto simp: reserved_def)
    show False
    proof (cases "u = t \<and> jx = ix")
      case True
      then show ?thesis using u x m(2) by (simp add: e(6))
    next
      case False
      then have "x \<in> tlab_range h (tlabs (ms u) jx)" using u m(2) by (auto split: if_splits)
      then show ?thesis using mutators_okD(7) [OF ok mine [OF x]] False by blast
    qed
  qed
  have blank: "blank h x" if "c \<le> x" "x < c + n" for x using mutators_okD(6) [OF ok mine [OF that]] .
  have c: "cell_used h c" "\<not> reserved (?ms, h) c" using blank [of c] free [of c] n by (auto simp: blank_def)
  have res: "reserved (?ms, h') x = reserved (?ms, h) x" for x
    unfolding reserved_def prod.case using tlab_range_cong [of h' h] by (simp add: e(3))
  have used: "cell_used h' x = cell_used h x" "cells h' x = cells h x"
      "is_start_at (start_bits h') x = (x = c \<or> is_start_at (start_bits h) x)" for x
    by (simp_all add: e(3) bitmap_simps)
  have not_taken: "\<not> taken (ms, h) x" if "c \<le> x" "x < c + n" for x
    using reservedI [of x h ms t ix, OF mine [OF that]] by (simp add: taken_def)
  have un1: "undisturbed (ms, h) (?ms, h)"
    by (rule undisturbed_replace [of m ms t ix b h, OF m(2)])
      (use sub reservedI [of _ h ms t ix] in \<open>auto simp: taken_def\<close>)
  have "undisturbed (ms, h) (?ms, h')"
    using un1 not_taken [of c] n by (auto simp: undisturbed_def taken_def res used)
  moreover have "mutators_ok (?ms, h')" unfolding e(3) by (rule set_start_ok [OF ok1 c])
  moreover have "placed (?ms, h') (c, n)" using blank by (auto simp: placed_def used blank_def)
  moreover have "taken (?ms, h') x" if "c \<le> x" "x < c + n" for x
    using that blank free by (simp add: taken_def res used blank_def)
  moreover have "cell_index h p = c" using e(1,7) n mutators_okD(2) [OF ok] by simp
  ultimately show ?thesis using not_taken n(1) by (simp add: handed_out_def)
qed

lemma carve_defined:
  assumes "alloc_ok h" "alloc_region h g k = Some r"
  obtains res h' where "carve_tlab_in_current h g k w = Some (res, h')"
  using that carve_eval [OF assms, of w] by (auto simp: Let_def split: option.splits if_splits)

lemma reserve_tlab_defined:
  assumes ok: "alloc_ok h" and ix: "region_index g k = Some ix" and mn: "0 < mn" "mn \<le> PAGE_SIZE_CELLS"
  obtains res h' where "reserve_tlab h g k mn want = Some (res, h')"
proof -
  let ?w = "min (max want mn) PAGE_SIZE_CELLS"
  have m1: "max mn 1 = mn" using mn(1) by simp
  obtain r where r: "alloc_region h g k = Some r" using ix by (simp add: alloc_region_def)
  obtain ar h1 where a: "acquire_free_page h g k = (ar, h1)" by fastforce
  obtain res1 h2 where now: "carve_tlab_in_current h g k ?w = Some (res1, h2)"
    by (rule carve_defined [OF ok r])
  have "\<exists>res h'. carve_tlab_in_current (open_region_on h1 g k idx) g k ?w = Some (res, h')" if "ar = Some idx" for idx
  proof -
    note o = acquire_then_open_ok [OF ok r a [unfolded that]]
    show ?thesis using carve_defined [OF o(1,2), of ?w] by metis
  qed
  then have "\<exists>res h'. reserve_tlab h g k mn want = Some (res, h')"
    using mn(2) now r a m1 unfolding reserve_tlab_def Let_def m1 by (auto split: option.split)
  then show ?thesis using that by blast
qed

lemma slab_sizes:
  assumes "slab \<le> PAGE_SIZE_CELLS"
  shows "unat (of_nat (8 * slab) :: u64) = 8 * slab"
  using assms by (simp add: unat_of_nat PAGE_SIZE_CELLS_num del: of_nat_mult)

lemma same_buffers:
  assumes "\<And>u. tlabs (ms' u) = tlabs (ms u)" "\<And>u. base_addr (ms' u) = base_addr (ms u)"
  shows "mutators_ok (ms', h) = mutators_ok (ms, h)" "taken (ms', h) = taken (ms, h)"
  by (simp_all add: mutators_ok_def taken_def reserved_def fun_eq_iff assms)

lemma refill_ok:
  assumes ok: "mutators_ok (ms, h)" and ix: "region_index g k = Some ix" and n: "0 < n" "n \<le> PAGE_SIZE_CELLS"
  obtains hit m h' where "refill (ms t) h g k ix n = Some (hit, m, h')" "mutators_ok (ms(t := m), h')"
    "undisturbed (ms, h) (ms(t := m), h')" "hit \<Longrightarrow> n \<le> room_cells (tlabs m ix)"
proof -
  define want where "want = max (unat (next_refill_cells (tlabs (ms t) ix))) n"
  obtain res h' where t: "reserve_tlab h g k n want = Some (res, h')"
    by (rule reserve_tlab_defined [OF mutators_okD(1) [OF ok] ix n])
  note s = reserve_tlab_ok [OF mutators_okD(1) [OF ok] t]
  have ext: "extends h h'"
    using s same_used_extends grants_extends by (auto simp: slab_granted_def split: option.splits)
  have ok': "mutators_ok (ms, h')" by (rule mutators_ok_extends [OF ok _ ext]) (use s in simp)
  have un: "undisturbed (ms, h) (ms, h')" by (rule taken_extends [OF ext])
  show ?thesis
  proof (cases res)
    case None
    let ?m = "(ms t)\<lparr>tlab_refills := tlab_refills (ms t) + 1\<rparr>"
    note same = same_buffers [of "ms(t := ?m)" ms h', simplified]
    show ?thesis
      by (rule that [of False ?m h'])
        (use t None ok' un in \<open>simp_all add: refill_def want_def Let_def same undisturbed_def\<close>)
  next
    case (Some slab)
    obtain p pg len where slab: "slab = (p, pg, len)" by (cases slab)
    obtain c where c: "p = cell_addr h c" "grants h h' c len" "n \<le> len" "len \<le> PAGE_SIZE_CELLS"
        "\<And>x. c \<le> x \<Longrightarrow> x < c + len \<Longrightarrow> \<not> is_start_at (start_bits h') x"
      using s n Some slab by (auto simp: slab_granted_def)
    define b where "b = \<lparr>tlab_start = p, tlab_cursor = p, tlab_end = p + of_nat (8 * len), tlab_page_idx = pg,
      reserved_cells = of_nat len,
      next_refill_cells = of_nat (min (unat (next_refill_cells (tlabs (ms t) ix)) * 2) MAX_TLAB_CELLS)\<rparr>"
    define m where "m = (ms t)\<lparr>tlab_refills := tlab_refills (ms t) + 1, tlabs := (tlabs (ms t))(ix := b)\<rparr>"
    have base: "base_ptr h' = base_ptr h" "n_pages h' = n_pages h"
      using c(2) by (simp_all add: grants_def)
    have cb: "c + len \<le> total_cells_of h'" "c < total_cells_of h'"
      using c(2,3) n base by (simp_all add: grants_def total_cells_of_def)
    have p: "p = cell_addr h' c" "p + of_nat (8 * len) = cell_addr h' (c + len)"
      using c(1) base by (simp_all add: cell_addr_def algebra_simps)
    note r' = mutators_okD(2) [OF ok']
    have room: "room_cells b = len"
      using cell_addr_nonnull [OF r' mutators_okD(3) [OF ok'] cb(2)] cell_addr_diff [OF r' cb(1)] p
      by (simp add: room_cells_def b_def)
    have rng: "tlab_range h' b = {c ..< c + len}"
      using r' cb(2) p(1) by (simp add: tlab_range_def room) (simp add: b_def)
    have bl: "blank h' x \<and> \<not> cell_used h x" if "x \<in> tlab_range h' b" for x
      using that c(2,5) by (simp add: rng blank_def grants_def)
    have new: "\<not> reserved (ms, h) x" if "\<not> cell_used h x" for x
      using that mutators_okD(6) [OF ok] unfolding reserved_def blank_def by blast
    have tm: "base_addr m = base_ptr h'" "tlabs m = (tlabs (ms t))(ix := b)"
      using mutators_okD(4) [OF ok, of t] base by (simp_all add: m_def)
    have "mutators_ok (ms(t := m), h')"
    proof (rule replace_buffer [OF ok' tm])
      show "buffer_ok h' b" unfolding buffer_ok_def using p cb(1) by (simp add: b_def, blast)
      show "x \<in> tlab_range h' (tlabs (ms t) ix)" if "x \<in> tlab_range h' b" "reserved (ms, h') x" for x
        using that bl new reserved_extends [OF ext] by blast
    qed (use bl in blast)
    moreover have "undisturbed (ms, h) (ms(t := m), h')"
    proof -
      have "taken (ms(t := m), h') x" if x: "taken (ms, h) x" for x
      proof -
        have "\<not> reserved (ms, h') x" "cell_used h' x" "x \<notin> tlab_range h' b"
          using x un bl by (auto simp: undisturbed_def taken_def)
        then show ?thesis using reserved_replace [of m ms t ix b h' x, OF tm(2)] by (auto simp: taken_def)
      qed
      then show ?thesis using un by (simp add: undisturbed_def)
    qed
    moreover have "refill (ms t) h g k ix n = Some (True, m, h')"
      using t Some slab by (simp add: refill_def want_def Let_def m_def b_def)
    moreover have "n \<le> room_cells (tlabs m ix)" using c(3) room tm(2) by simp
    ultimately show ?thesis using that by blast
  qed
qed

text \<open>The loop refills at most once: a refilled buffer has the room that was asked for.\<close>

lemma bump_loop_ok:
  assumes ok: "mutators_ok (ms, h)" and ix: "region_index g k = Some ix" and n: "0 < n" "n \<le> PAGE_SIZE_CELLS"
  obtains r m h' where "bump_loop (ms t) h g k ix n a = Some (r, m, h')"
    "handed_out (ms, h) (map_option (\<lambda>p. (cell_index h p, n)) r) (ms(t := m), h')"
proof (cases "n \<le> room_cells (tlabs (ms t) ix)")
  case True
  obtain p m h' where b: "bump_hit (ms t) h ix n a = (p, m, h')" by (cases "bump_hit (ms t) h ix n a")
  show ?thesis
    by (rule that [of "Some p" m h'])
      (use True b bump_hit_ok [OF ok n(1) True b] in \<open>simp_all add: bump_loop.simps\<close>)
next
  case no_room: False
  obtain hit m h1 where r: "refill (ms t) h g k ix n = Some (hit, m, h1)" "mutators_ok (ms(t := m), h1)"
    "undisturbed (ms, h) (ms(t := m), h1)" "hit \<Longrightarrow> n \<le> room_cells (tlabs m ix)"
    using refill_ok [OF ok ix n, of t] by blast
  show ?thesis
  proof (cases hit)
    case False
    show ?thesis
      by (rule that [of None m h1])
        (use False no_room r in \<open>simp_all add: bump_loop.simps handed_out_def\<close>)
  next
    case True
    let ?ms = "ms(t := m)"
    have room: "n \<le> room_cells (tlabs (?ms t) ix)" using r(4) True by simp
    obtain p m2 h' where b: "bump_hit (?ms t) h1 ix n a = (p, m2, h')" by (cases "bump_hit (?ms t) h1 ix n a")
    have "base_addr (?ms u) = base_ptr h1" "base_addr (ms u) = base_ptr h" for u
      using mutators_okD(4) [OF r(2)] mutators_okD(4) [OF ok] by simp_all
    from this(1) [of "Suc t"] this(2) [of "Suc t"] have "base_ptr h1 = base_ptr h" by simp
    then have "cell_index h1 p = cell_index h p" by (simp add: cell_index_def)
    then have "handed_out (ms, h) (Some (cell_index h p, n)) (ms(t := m2), h')"
      using handed_out_after [OF r(3) bump_hit_ok [OF r(2) n(1) room b]] unfolding fun_upd_upd by simp
    moreover have "bump_loop (ms t) h g k ix n a = Some (Some p, m2, h')"
      using no_room r(1) True room b bump_loop.simps [of "ms t" h] bump_loop.simps [of m h1] by simp
    ultimately show ?thesis using that [of "Some p" m2 h'] by simp
  qed
qed

lemma bump_ok:
  assumes ok: "mutators_ok (ms, h)" and ix: "region_index g k = Some ix" and n: "0 < n" "n \<le> PAGE_SIZE_CELLS"
  obtains r m h' where "bump (ms t) h g k n a = Some (r, m, h')"
    "handed_out (ms, h) (map_option (\<lambda>p. (cell_index h p, n)) r) (ms(t := m), h')"
proof (cases "poisoned h")
  case True
  show ?thesis
    by (rule that [of None "ms t" h]) (use True ok in \<open>simp_all add: bump_def handed_out_def\<close>)
next
  case False
  show ?thesis
    by (rule bump_loop_ok [OF ok ix n, of t a], rule that) (use False ix in \<open>simp_all add: bump_def\<close>)
qed

lemma large_ok:
  assumes ok: "mutators_ok (ms, h)" and g: "g \<noteq> Gen_Free" and n: "0 < n"
    and l: "mut_try_alloc_large (ms t) h n g = (r, m, h')"
  defines "k \<equiv> div_ceil n PAGE_SIZE_CELLS * PAGE_SIZE_CELLS"
  shows "handed_out (ms, h) (map_option (\<lambda>p. (cell_index h p, k)) r) (ms(t := m), h')"
proof -
  have m: "m = ms t" and t: "try_alloc_large h n g = (r, h')"
    using l by (auto simp: mut_try_alloc_large_def split: prod.splits)
  note L = try_alloc_large_ok [OF mutators_okD(1) [OF ok] g n t]
  have ext: "extends h h'" and ok': "alloc_ok h'" using L by simp_all
  have k: "0 < k" using div_ceil_bounds(1) [of PAGE_SIZE_CELLS n] n by (simp add: k_def PAGE_SIZE_CELLS_num)
  have out: "0 < k \<and> placed (ms, h') (c, k) \<and> (\<forall>x. c \<le> x \<and> x < c + k \<longrightarrow> \<not> taken (ms, h) x \<and> taken (ms, h') x)"
    if p: "r = Some p" and c: "c = cell_index h p" for p c
  proof -
    obtain s where s: "p = cell_addr h (s * PAGE_SIZE_CELLS)" "grants h h' (s * PAGE_SIZE_CELLS) k"
      "large_placed h' s (div_ceil n PAGE_SIZE_CELLS) g" using L p by (auto simp: k_def)
    have "s * PAGE_SIZE_CELLS < total_cells_of h" using s(2) k by (simp add: grants_def)
    then have c': "c = s * PAGE_SIZE_CELLS" using mutators_okD(2) [OF ok] by (simp add: c s(1))
    have "\<not> reserved (ms, h) x" if "\<not> cell_used h x" for x
      using that mutators_okD(6) [OF ok] unfolding reserved_def blank_def by blast
    then have "\<not> reserved (ms, h') x" if "\<not> cell_used h x" for x
      using that reserved_extends [OF ext] by blast
    then show ?thesis
      using k s(2,3) unfolding c'
      by (auto simp: placed_def taken_def grants_def large_placed_def k_def add_mult_distrib)
  qed
  have "mutators_ok (ms, h')" by (rule mutators_ok_extends [OF ok ok' ext])
  then show ?thesis using out taken_extends [OF ext] by (cases r) (simp_all add: handed_out_def m)
qed

lemma flush_ok:
  assumes ok: "mutators_ok (ms, h)"
  shows "handed_out (ms, h) None (ms(t := flush_tlabs (ms t)), h)"
proof -
  let ?ms = "ms(t := flush_tlabs (ms t))"
  have sub: "x \<in> tlab_range h (tlabs (ms u) ix) \<and> u \<noteq> t" if "x \<in> tlab_range h (tlabs (?ms u) ix)" for x u ix
    using that by (auto simp: flush_tlabs_def split: if_splits)
  have "mutators_ok (?ms, h)"
  proof (rule mutators_okI)
    show "buffer_ok h (tlabs (?ms u) ix)" for u ix
      using mutators_okD(5) [OF ok] by (simp add: flush_tlabs_def)
    show "blank h x" if "x \<in> tlab_range h (tlabs (?ms u) ix)" for u ix x
      using sub [OF that] mutators_okD(6) [OF ok] by blast
    show "u' = u \<and> ix' = ix"
      if "x \<in> tlab_range h (tlabs (?ms u) ix)" "x \<in> tlab_range h (tlabs (?ms u') ix')" for u ix u' ix' x
      using sub [OF that(1)] sub [OF that(2)] mutators_okD(7) [OF ok] by blast
  qed (use mutators_okD [OF ok] in \<open>simp_all add: flush_tlabs_def\<close>)
  moreover have "reserved (ms, h) x" if "reserved (?ms, h) x" for x
    using that sub unfolding reserved_def by blast
  ultimately show ?thesis by (auto simp: handed_out_def undisturbed_def taken_def)
qed

section \<open>Mutators are a source of blocks\<close>

lemma serve_ok:
  assumes ok: "mutators_ok s" and w: "wanted r"
  obtains res s' where "serve r s = Some (res, s')" "handed_out s res s'"
proof -
  obtain ms h where s: "s = (ms, h)" by fastforce
  have ix: "\<exists>ix. region_index g k = Some ix" if "g \<noteq> Gen_Free" "k = Kind_Cons \<or> k = Kind_Boxed" for g k
    using that by (simp add: region_index_eq_Some)
  note ok' = ok [unfolded s]
  have two: "0 < (2 :: nat)" "2 \<le> PAGE_SIZE_CELLS" by (simp_all add: PAGE_SIZE_CELLS_num)
  show ?thesis
  proof (cases r)
    case (Mut_Cons t g)
    obtain ix where "region_index g Kind_Cons = Some ix" using ix [of g Kind_Cons] w Mut_Cons by auto
    then obtain r' m h' where b: "bump (ms t) h g Kind_Cons 2 True = Some (r', m, h')"
      "handed_out (ms, h) (map_option (\<lambda>p. (cell_index h p, 2)) r') (ms(t := m), h')"
      using bump_ok [OF ok' _ two, of g Kind_Cons ix t True] by blast
    show ?thesis
      by (rule that [OF _ b(2) [folded s]])
        (use b(1) in \<open>simp add: Mut_Cons s mut_try_alloc_cons_in_def settle_def\<close>)
  next
    case (Mut_Boxed t g n)
    show ?thesis
    proof (cases "n = 0 \<or> n > PAGE_SIZE_CELLS")
      case True
      then show ?thesis
        using that [of None "(ms, h)"] ok'
        by (simp add: Mut_Boxed s mut_try_alloc_boxed_in_def settle_def handed_out_def)
    next
      case False
      then have n: "0 < n" "n \<le> PAGE_SIZE_CELLS" by simp_all
      obtain ix where "region_index g Kind_Boxed = Some ix" using ix [of g Kind_Boxed] w Mut_Boxed by auto
      then obtain r' m h' where b: "bump (ms t) h g Kind_Boxed n False = Some (r', m, h')"
        "handed_out (ms, h) (map_option (\<lambda>p. (cell_index h p, n)) r') (ms(t := m), h')"
        using bump_ok [OF ok' _ n, of g Kind_Boxed ix t False] by blast
      show ?thesis
        by (rule that [OF _ b(2) [folded s]])
          (use b(1) n in \<open>simp add: Mut_Boxed s mut_try_alloc_boxed_in_def settle_def\<close>)
    qed
  next
    case (Mut_Large t g n)
    obtain r' m h' where l: "mut_try_alloc_large (ms t) h n g = (r', m, h')"
      by (cases "mut_try_alloc_large (ms t) h n g")
    show ?thesis
      by (rule that, unfold Mut_Large s serve.simps l settle_def prod.case, rule refl)
        (use large_ok [OF ok' _ _ l] w Mut_Large in simp)
  next
    case (Mut_Flush t)
    show ?thesis
      by (rule that, unfold Mut_Flush s serve.simps, rule refl) (rule flush_ok [OF ok'])
  qed
qed

interpretation threads: block_source serve wanted mutators_ok taken placed
proof unfold_locales
  fix s r assume a: "mutators_ok s" "wanted r"
  then obtain res s' where s: "serve r s = Some (res, s')" "handed_out s res s'" by (rule serve_ok)
  show "\<exists>res s'. serve r s = Some (res, s') \<and> mutators_ok s'"
    using s by (auto simp: handed_out_def)
next
  fix s r res s' x
  assume a: "mutators_ok s" "wanted r" "serve r s = Some (res, s')" "taken s x"
  have "handed_out s res s'" by (rule serve_ok [OF a(1,2)]) (use a(3) in simp)
  then show "taken s' x" using a(4) by (simp add: handed_out_def undisturbed_def)
next
  fix s r c n s' assume a: "mutators_ok s" "wanted r" "serve r s = Some (Some (c, n), s')"
  have "handed_out s (Some (c, n)) s'" by (rule serve_ok [OF a(1,2)]) (use a(3) in simp)
  then show "0 < n \<and> placed s' (c, n) \<and> (\<forall>x. c \<le> x \<and> x < c + n \<longrightarrow> \<not> taken s x \<and> taken s' x)"
    by (simp add: handed_out_def)
next
  fix s r res s' c n
  assume a: "mutators_ok s" "wanted r" "serve r s = Some (res, s')" "placed s (c, n)"
    "\<forall>x. c \<le> x \<and> x < c + n \<longrightarrow> taken s x"
  have "handed_out s res s'" by (rule serve_ok [OF a(1,2)]) (use a(3) in simp)
  then show "placed s' (c, n)" using a(4,5) by (simp add: handed_out_def undisturbed_def placed_def)
qed

lemma fresh_mutators_ok:
  assumes "alloc_ok h" "base_ptr h \<noteq> 0"
  shows "mutators_ok ((\<lambda>_. new_mutator h), h)"
  by (rule mutators_okI) (use assms in \<open>simp_all add: new_mutator_def\<close>)

section \<open>Properties\<close>



end
