(* ===== verification/Safepoint.thy ===== *)
theory Safepoint
  imports GC_Prelude
begin

text \<open>
  The stop-the-world protocol of \<^verbatim>\<open>page_heap/mutator.rs\<close> and \<^verbatim>\<open>page_heap/shared.rs\<close>: any number of
  mutator threads, each at one of the places \<open>pc\<close> of \<open>poll_safepoint\<close>, \<open>enter_native\<close>,
  \<open>leave_native\<close>, \<open>drive_collect\<close> and \<open>Drop\<close>, and the state they share. Every section the code runs
  under \<open>park_mutex\<close> is one step; \<open>coord_mutex\<close>, which is held across steps, is the field \<open>coord\<close>
  with its owner, and \<open>sleepers\<close> are the threads blocked on the condition variable \<open>park_cv\<close>. A
  thread may wake at any time (spurious wake-ups and the driver's time-out); \<open>notify_all\<close> wakes
  everybody. Epochs are natural numbers: the 64-bit counter of the code does not wrap around in
  any run of interest.

  Two fields are not in the code. \<open>addr\<close> is where the objects of the program lie at the moment, and
  \<open>held t\<close> lists the objects that thread \<open>t\<close> holds in its root slots; with them one can say that
  root words are up to date.
\<close>

section \<open>State\<close>

type_synonym tid = nat

record mutator_inner =
  last_epoch :: nat
  is_active :: bool
  is_acting_coordinator :: bool
  in_native :: bool
  roots_snapshot :: "u64 list"

datatype pc =
    Fresh
  | Running
  | Poll_Read nat
  | Poll_Published nat
  | Parked nat
  | Native_Published
  | Native_Call
  | Native_Leaving
  | Copy_Back
  | Drive_Published
  | Drive_Announced
  | Drive_Holding
  | Drive_Stopped nat
  | Drive_Waiting nat "tid list" "tid list"
  | Drive_Collecting nat "tid list"
  | Drive_Collected
  | Drive_Panicking
  | Drive_Resumed
  | Drive_Resumed_Panic
  | Unwound
  | Dropped
  | Gone

record sp_state =
  epoch :: nat
  world_running :: bool
  coord :: "tid option"
  coord_poisoned :: bool
  torn :: bool
  slots :: "tid option list"
  inner :: "tid \<Rightarrow> mutator_inner"
  pcs :: "tid \<Rightarrow> pc"
  sleepers :: "tid set"
  root_words :: "tid \<Rightarrow> u64 list"
  tlabs_live :: "tid \<Rightarrow> bool"
  held :: "tid \<Rightarrow> nat list"
  addr :: "nat \<Rightarrow> u64"

definition inner_new :: "nat \<Rightarrow> mutator_inner" where
  "inner_new current_epoch =
     \<lparr>last_epoch = current_epoch, is_active = True, is_acting_coordinator = False, in_native = False,
      roots_snapshot = []\<rparr>"

definition sp_init :: "(nat \<Rightarrow> u64) \<Rightarrow> sp_state" where
  "sp_init a =
     \<lparr>epoch = 0, world_running = True, coord = None, coord_poisoned = False, torn = False, slots = [],
      inner = (\<lambda>_. (inner_new 0)\<lparr>is_active := False\<rparr>), pcs = (\<lambda>_. Fresh), sleepers = {},
      root_words = (\<lambda>_. []), tlabs_live = (\<lambda>_. False), held = (\<lambda>_. []), addr = a\<rparr>"

section \<open>The registry\<close>

fun place_in_slots :: "tid option list \<Rightarrow> tid \<Rightarrow> tid option list" where
  "place_in_slots [] t = [Some t]"
| "place_in_slots (None # ss) t = Some t # ss"
| "place_in_slots (Some u # ss) t = Some u # place_in_slots ss t"

definition deregister_slot :: "tid option list \<Rightarrow> tid \<Rightarrow> tid option list" where
  "deregister_slot ss t = map (\<lambda>s. if s = Some t then None else s) ss"

definition registry_snapshot :: "tid option list \<Rightarrow> tid list" where
  "registry_snapshot ss = List.map_filter id ss"

definition live_count :: "tid option list \<Rightarrow> nat" where
  "live_count ss = length (filter (\<lambda>s. s \<noteq> None) ss)"

section \<open>Steps\<close>

definition goto :: "tid \<Rightarrow> pc \<Rightarrow> sp_state \<Rightarrow> sp_state" where
  "goto t p s = s\<lparr>pcs := (pcs s)(t := p), sleepers := sleepers s - {t}\<rparr>"

definition update_inner :: "tid \<Rightarrow> (mutator_inner \<Rightarrow> mutator_inner) \<Rightarrow> sp_state \<Rightarrow> sp_state" where
  "update_inner t f s = s\<lparr>inner := (inner s)(t := f (inner s t))\<rparr>"

definition notify_all :: "sp_state \<Rightarrow> sp_state" where
  "notify_all s = s\<lparr>sleepers := {}\<rparr>"

definition fall_asleep :: "tid \<Rightarrow> sp_state \<Rightarrow> sp_state" where
  "fall_asleep t s = s\<lparr>sleepers := insert t (sleepers s)\<rparr>"

definition register_mutator :: "tid \<Rightarrow> sp_state \<Rightarrow> sp_state" where
  "register_mutator t s =
     goto t Running (s\<lparr>slots := place_in_slots (slots s) t, inner := (inner s)(t := inner_new (epoch s))\<rparr>)"

text \<open>\<open>*roots_snapshot.lock() = roots.to_vec(); flush_tlabs()\<close>.\<close>

definition publish_roots :: "tid \<Rightarrow> sp_state \<Rightarrow> sp_state" where
  "publish_roots t s =
     update_inner t (\<lambda>m. m\<lparr>roots_snapshot := root_words s t\<rparr>) (s\<lparr>tlabs_live := (tlabs_live s)(t := False)\<rparr>)"

definition safepoint_pending :: "tid \<Rightarrow> sp_state \<Rightarrow> bool" where
  "safepoint_pending t s \<longleftrightarrow> last_epoch (inner s t) \<noteq> epoch s"

definition poll_safepoint :: "tid \<Rightarrow> sp_state \<Rightarrow> sp_state" where
  "poll_safepoint t s = (if last_epoch (inner s t) = epoch s then s else goto t (Poll_Read (epoch s)) s)"

definition park_announce :: "tid \<Rightarrow> nat \<Rightarrow> sp_state \<Rightarrow> sp_state" where
  "park_announce t target s = notify_all (goto t (Parked target) (update_inner t (\<lambda>m. m\<lparr>last_epoch := target\<rparr>) s))"

text \<open>One round of the loop of \<open>park\<close>, run with \<open>park_mutex\<close> held.\<close>

definition park_check :: "tid \<Rightarrow> nat \<Rightarrow> sp_state \<Rightarrow> sp_state" where
  "park_check t cur s =
     (if epoch s \<noteq> cur
      then notify_all (goto t (Parked (epoch s)) (update_inner t (\<lambda>m. m\<lparr>last_epoch := epoch s\<rparr>) s))
      else if world_running s then goto t Copy_Back s
      else fall_asleep t s)"

text \<open>\<open>roots[..n].copy_from_slice(&snap[..n])\<close> with \<open>n\<close> the smaller length.\<close>

definition copy_back :: "u64 list \<Rightarrow> u64 list \<Rightarrow> u64 list" where
  "copy_back rs snap = (let n = min (length rs) (length snap) in take n snap @ drop n rs)"

definition finish_copy_back :: "tid \<Rightarrow> sp_state \<Rightarrow> sp_state" where
  "finish_copy_back t s =
     goto t Running (s\<lparr>root_words := (root_words s)(t := copy_back (root_words s t) (roots_snapshot (inner s t)))\<rparr>)"

definition enter_native :: "tid \<Rightarrow> sp_state \<Rightarrow> sp_state" where
  "enter_native t s = notify_all (goto t Native_Call (update_inner t (\<lambda>m. m\<lparr>in_native := True\<rparr>) s))"

definition leave_native_check :: "tid \<Rightarrow> sp_state \<Rightarrow> sp_state" where
  "leave_native_check t s =
     (if \<not> world_running s then fall_asleep t s
      else goto t Copy_Back (update_inner t (\<lambda>m. m\<lparr>last_epoch := epoch s, in_native := False\<rparr>) s))"

definition drive_announce :: "tid \<Rightarrow> sp_state \<Rightarrow> sp_state" where
  "drive_announce t s =
     notify_all (goto t Drive_Announced (update_inner t (\<lambda>m. m\<lparr>is_acting_coordinator := True\<rparr>) s))"

definition drive_acquire :: "tid \<Rightarrow> sp_state \<Rightarrow> sp_state" where
  "drive_acquire t s =
     (if coord_poisoned s then goto t Unwound s else (goto t Drive_Holding s)\<lparr>coord := Some t\<rparr>)"

definition drive_stop :: "tid \<Rightarrow> sp_state \<Rightarrow> sp_state" where
  "drive_stop t s =
     (let target = epoch s + 1; s = s\<lparr>epoch := target\<rparr>;
          s = update_inner t (\<lambda>m. m\<lparr>last_epoch := target\<rparr>) s
      in goto t (Drive_Stopped target) (s\<lparr>world_running := False\<rparr>))"

definition drive_snapshot :: "tid \<Rightarrow> nat \<Rightarrow> sp_state \<Rightarrow> sp_state" where
  "drive_snapshot t target s =
     (let others = registry_snapshot (slots s) in goto t (Drive_Waiting target others others) s)"

text \<open>The condition under which the driver keeps waiting for a mutator.\<close>

definition must_wait_for :: "nat \<Rightarrow> mutator_inner \<Rightarrow> bool" where
  "must_wait_for target m \<longleftrightarrow>
     is_active m \<and> \<not> is_acting_coordinator m \<and> \<not> in_native m \<and> last_epoch m < target"

definition drive_wait :: "tid \<Rightarrow> nat \<Rightarrow> tid list \<Rightarrow> tid list \<Rightarrow> sp_state \<Rightarrow> sp_state" where
  "drive_wait t target others todo s =
     (case todo of
        [] \<Rightarrow> goto t (Drive_Collecting target others) s
      | m # ms \<Rightarrow>
          if must_wait_for target (inner s m) then fall_asleep t s
          else goto t (Drive_Waiting target others ms) s)"

text \<open>
  The collection: objects move, and the evacuator visits the snapshot of every active mutator of
  \<open>others\<close> in place. \<open>f\<close> is what a visit does to a word (see \<open>maybe_rewrite\<close>).
\<close>

definition visit_snapshots :: "(u64 \<Rightarrow> u64) \<Rightarrow> tid list \<Rightarrow> (tid \<Rightarrow> mutator_inner) \<Rightarrow> tid \<Rightarrow> mutator_inner" where
  "visit_snapshots f others ms u =
     (if u \<in> set others \<and> is_active (ms u) then (ms u)\<lparr>roots_snapshot := map f (roots_snapshot (ms u))\<rparr> else ms u)"

definition drive_collect_ok :: "tid \<Rightarrow> tid list \<Rightarrow> (u64 \<Rightarrow> u64) \<Rightarrow> (nat \<Rightarrow> u64) \<Rightarrow> sp_state \<Rightarrow> sp_state" where
  "drive_collect_ok t others f a s =
     goto t Drive_Collected (s\<lparr>inner := visit_snapshots f others (inner s), addr := a\<rparr>)"

text \<open>
  The collector panics for want of a page: objects and snapshots are left in a mixed state, and
  the unwinding poisons \<open>coord_mutex\<close> when its guard goes.
\<close>

definition drive_collect_panic ::
  "tid \<Rightarrow> (tid \<Rightarrow> u64 list) \<Rightarrow> (nat \<Rightarrow> u64) \<Rightarrow> sp_state \<Rightarrow> sp_state" where
  "drive_collect_panic t snaps a s =
     goto t Drive_Panicking (s\<lparr>inner := (\<lambda>u. (inner s u)\<lparr>roots_snapshot := snaps u\<rparr>), addr := a, torn := True\<rparr>)"

text \<open>\<open>ResumeGuard::drop\<close>, run on both paths.\<close>

definition resume_world :: "tid \<Rightarrow> pc \<Rightarrow> sp_state \<Rightarrow> sp_state" where
  "resume_world t p s =
     notify_all (goto t p (update_inner t (\<lambda>m. m\<lparr>is_acting_coordinator := False\<rparr>) (s\<lparr>world_running := True\<rparr>)))"

definition release_coord :: "tid \<Rightarrow> sp_state \<Rightarrow> sp_state" where
  "release_coord t s = (goto t Copy_Back s)\<lparr>coord := None\<rparr>"

definition release_coord_panic :: "tid \<Rightarrow> sp_state \<Rightarrow> sp_state" where
  "release_coord_panic t s = (goto t Unwound s)\<lparr>coord := None, coord_poisoned := True\<rparr>"

definition drop_mutator :: "tid \<Rightarrow> sp_state \<Rightarrow> sp_state" where
  "drop_mutator t s = notify_all (goto t Dropped (update_inner t (\<lambda>m. m\<lparr>is_active := False\<rparr>) s))"

definition deregister :: "tid \<Rightarrow> sp_state \<Rightarrow> sp_state" where
  "deregister t s = (goto t Gone s)\<lparr>slots := deregister_slot (slots s) t\<rparr>"

text \<open>\<open>sp_step t s s'\<close>: thread \<open>t\<close> makes a step.\<close>

inductive sp_step :: "tid \<Rightarrow> sp_state \<Rightarrow> sp_state \<Rightarrow> bool" where
  Register: "pcs s t = Fresh \<Longrightarrow> coord s = None \<Longrightarrow> \<not> coord_poisoned s \<Longrightarrow> sp_step t s (register_mutator t s)"
| Mutate: "pcs s t = Running \<Longrightarrow>
    sp_step t s (s\<lparr>root_words := (root_words s)(t := map (addr s) os), held := (held s)(t := os),
                 tlabs_live := (tlabs_live s)(t := b)\<rparr>)"
| Poll: "pcs s t = Running \<Longrightarrow> sp_step t s (poll_safepoint t s)"
| Poll_Publish: "pcs s t = Poll_Read g \<Longrightarrow> sp_step t s (goto t (Poll_Published g) (publish_roots t s))"
| Park: "pcs s t = Poll_Published g \<Longrightarrow> sp_step t s (park_announce t g s)"
| Park_Check: "pcs s t = Parked g \<Longrightarrow> t \<notin> sleepers s \<Longrightarrow> sp_step t s (park_check t g s)"
| Copy: "pcs s t = Copy_Back \<Longrightarrow> sp_step t s (finish_copy_back t s)"
| Native_Publish: "pcs s t = Running \<Longrightarrow> sp_step t s (goto t Native_Published (publish_roots t s))"
| Enter_Native: "pcs s t = Native_Published \<Longrightarrow> sp_step t s (enter_native t s)"
| Leave_Native: "pcs s t = Native_Call \<Longrightarrow> sp_step t s (goto t Native_Leaving s)"
| Leave_Check: "pcs s t = Native_Leaving \<Longrightarrow> t \<notin> sleepers s \<Longrightarrow> sp_step t s (leave_native_check t s)"
| Drive_Publish: "pcs s t = Running \<Longrightarrow> sp_step t s (goto t Drive_Published (publish_roots t s))"
| Announce: "pcs s t = Drive_Published \<Longrightarrow> sp_step t s (drive_announce t s)"
| Acquire: "pcs s t = Drive_Announced \<Longrightarrow> coord s = None \<Longrightarrow> sp_step t s (drive_acquire t s)"
| Stop: "pcs s t = Drive_Holding \<Longrightarrow> sp_step t s (drive_stop t s)"
| Snapshot: "pcs s t = Drive_Stopped g \<Longrightarrow> sp_step t s (drive_snapshot t g s)"
| Wait: "pcs s t = Drive_Waiting g others todo \<Longrightarrow> t \<notin> sleepers s \<Longrightarrow> sp_step t s (drive_wait t g others todo s)"
| Wake: "t \<in> sleepers s \<Longrightarrow> sp_step t s (s\<lparr>sleepers := sleepers s - {t}\<rparr>)"
| Collect: "pcs s t = Drive_Collecting g others \<Longrightarrow> (\<And>x. f (addr s x) = a x) \<Longrightarrow>
    sp_step t s (drive_collect_ok t others f a s)"
| Collect_Panic: "pcs s t = Drive_Collecting g others \<Longrightarrow> sp_step t s (drive_collect_panic t snaps a s)"
| Resume: "pcs s t = Drive_Collected \<Longrightarrow> sp_step t s (resume_world t Drive_Resumed s)"
| Resume_Panic: "pcs s t = Drive_Panicking \<Longrightarrow> sp_step t s (resume_world t Drive_Resumed_Panic s)"
| Release: "pcs s t = Drive_Resumed \<Longrightarrow> sp_step t s (release_coord t s)"
| Release_Panic: "pcs s t = Drive_Resumed_Panic \<Longrightarrow> sp_step t s (release_coord_panic t s)"
| Catch: "pcs s t = Unwound \<Longrightarrow> sp_step t s (goto t Running s)"
| Drop: "pcs s t = Running \<Longrightarrow> sp_step t s (drop_mutator t s)"
| Drop_Unwound: "pcs s t = Unwound \<Longrightarrow> sp_step t s (drop_mutator t s)"
| Deregister: "pcs s t = Dropped \<Longrightarrow> sp_step t s (deregister t s)"

inductive sp_reachable :: "sp_state \<Rightarrow> bool" where
  start: "sp_reachable (sp_init a)"
| step: "sp_reachable s \<Longrightarrow> sp_step t s s' \<Longrightarrow> sp_reachable s'"

end
