(* ===== verification/Safepoint_Inv.thy ===== *)
theory Safepoint_Inv
  imports Safepoint
begin

text \<open>
  What holds in every reachable state of the protocol, each invariant preserved step by step.
\<close>

section \<open>Invariants\<close>

text \<open>Places from which the thread may use the managed heap before it next stops.\<close>

fun in_world :: "pc \<Rightarrow> bool" where
  "in_world Running = True"
| "in_world (Poll_Read g) = True"
| "in_world (Poll_Published g) = True"
| "in_world Copy_Back = True"
| "in_world Native_Published = True"
| "in_world Drive_Published = True"
| "in_world p = False"

text \<open>Places inside the cycle: with \<open>coord_mutex\<close>, and with the world stopped.\<close>

fun holds_coord :: "pc \<Rightarrow> bool" where
  "holds_coord Drive_Holding = True"
| "holds_coord (Drive_Stopped g) = True"
| "holds_coord (Drive_Waiting g os todo) = True"
| "holds_coord (Drive_Collecting g os) = True"
| "holds_coord Drive_Collected = True"
| "holds_coord Drive_Panicking = True"
| "holds_coord Drive_Resumed = True"
| "holds_coord Drive_Resumed_Panic = True"
| "holds_coord p = False"

fun stops_world :: "pc \<Rightarrow> bool" where
  "stops_world (Drive_Stopped g) = True"
| "stops_world (Drive_Waiting g os todo) = True"
| "stops_world (Drive_Collecting g os) = True"
| "stops_world Drive_Collected = True"
| "stops_world Drive_Panicking = True"
| "stops_world p = False"

lemma stops_holds: "stops_world p \<Longrightarrow> holds_coord p"
  by (cases p) simp_all

definition flag_ok :: "bool \<Rightarrow> mutator_inner \<Rightarrow> pc \<Rightarrow> bool" where
  "flag_ok poisoned m p \<longleftrightarrow>
     (is_active m \<longleftrightarrow> p \<notin> {Fresh, Dropped, Gone}) \<and> (in_native m \<longleftrightarrow> p \<in> {Native_Call, Native_Leaving}) \<and>
     (is_acting_coordinator m \<longrightarrow> p = Drive_Announced \<or> p = Drive_Holding \<or> stops_world p \<or> poisoned) \<and>
     (p = Drive_Announced \<or> p = Drive_Holding \<or> stops_world p \<longrightarrow> is_acting_coordinator m) \<and>
     (p = Unwound \<longrightarrow> poisoned)"

definition flags_ok :: "sp_state \<Rightarrow> bool" where
  "flags_ok s \<longleftrightarrow> (\<forall>t. flag_ok (coord_poisoned s) (inner s t) (pcs s t))"

definition coord_ok :: "sp_state \<Rightarrow> bool" where
  "coord_ok s \<longleftrightarrow> (\<forall>t. holds_coord (pcs s t) \<longleftrightarrow> coord s = Some t) \<and>
     (coord_poisoned s \<longrightarrow> coord s = None) \<and>
     (world_running s \<longleftrightarrow> (case coord s of None \<Rightarrow> True | Some t \<Rightarrow> \<not> stops_world (pcs s t)))"

fun epoch_of_pc :: "pc \<Rightarrow> nat option" where
  "epoch_of_pc (Drive_Stopped g) = Some g"
| "epoch_of_pc (Drive_Waiting g os todo) = Some g"
| "epoch_of_pc (Drive_Collecting g os) = Some g"
| "epoch_of_pc p = None"

definition epoch_ok :: "nat \<Rightarrow> bool \<Rightarrow> mutator_inner \<Rightarrow> pc \<Rightarrow> bool" where
  "epoch_ok ep running m p \<longleftrightarrow>
     last_epoch m \<le> ep \<and> (\<forall>g. epoch_of_pc p = Some g \<longrightarrow> g = ep) \<and> (\<forall>g. p = Parked g \<longrightarrow> last_epoch m = g) \<and>
     (\<forall>g. p = Poll_Read g \<or> p = Poll_Published g \<longrightarrow> g \<le> ep) \<and> (in_world p \<and> \<not> running \<longrightarrow> last_epoch m < ep)"

definition epochs_ok :: "sp_state \<Rightarrow> bool" where
  "epochs_ok s \<longleftrightarrow> (\<forall>t. epoch_ok (epoch s) (world_running s) (inner s t) (pcs s t))"

definition slots_ok :: "sp_state \<Rightarrow> bool" where
  "slots_ok s \<longleftrightarrow> (\<forall>t. pcs s t \<notin> {Fresh, Gone} \<longrightarrow> Some t \<in> set (slots s))"

lemma set_place_in_slots [simp]: "set (place_in_slots ss t) - {None} = insert (Some t) (set ss - {None})"
  by (induction ss t rule: place_in_slots.induct) auto

lemma place_in_slots_mem: "Some u \<in> set (place_in_slots ss t) \<longleftrightarrow> u = t \<or> Some u \<in> set ss"
  using set_place_in_slots [of ss t] by blast

lemma deregister_slot_mem: "Some u \<in> set (deregister_slot ss t) \<longleftrightarrow> u \<noteq> t \<and> Some u \<in> set ss"
  by (auto simp: deregister_slot_def image_iff split: if_splits)

lemma set_registry_snapshot: "u \<in> set (registry_snapshot ss) \<longleftrightarrow> Some u \<in> set ss"
  by (induction ss) (auto simp: registry_snapshot_def List.map_filter_def)

lemmas sp_defs = register_mutator_def publish_roots_def poll_safepoint_def park_announce_def park_check_def
  finish_copy_back_def enter_native_def leave_native_check_def drive_announce_def drive_acquire_def drive_stop_def
  drive_snapshot_def drive_wait_def drive_collect_ok_def drive_collect_panic_def resume_world_def release_coord_def
  release_coord_panic_def drop_mutator_def deregister_def goto_def update_inner_def notify_all_def fall_asleep_def
  inner_new_def visit_snapshots_def

lemma holds_coord_iff: "coord_ok s \<Longrightarrow> holds_coord (pcs s t) \<longleftrightarrow> coord s = Some t"
  by (simp add: coord_ok_def)

lemma flags_okD: "flags_ok s \<Longrightarrow> flag_ok (coord_poisoned s) (inner s t) (pcs s t)"
  by (simp add: flags_ok_def)

lemma flag_unwound: "flags_ok s \<Longrightarrow> pcs s t = Unwound \<Longrightarrow> coord_poisoned s"
  using flags_okD [of s t] by (simp add: flag_ok_def)

lemma flag_ok_mono: "flag_ok b m p \<Longrightarrow> (b \<Longrightarrow> b') \<Longrightarrow> flag_ok b' m p"
  by (auto simp: flag_ok_def)

text \<open>A step of thread \<open>t\<close>: nothing of the others changes but their root snapshots.\<close>

definition flags_of :: "mutator_inner \<Rightarrow> nat \<times> bool \<times> bool \<times> bool" where
  "flags_of m = (last_epoch m, is_active m, is_acting_coordinator m, in_native m)"

definition only :: "tid \<Rightarrow> sp_state \<Rightarrow> sp_state \<Rightarrow> bool" where
  "only t s s' \<longleftrightarrow> (\<forall>u. u \<noteq> t \<longrightarrow> pcs s' u = pcs s u \<and> flags_of (inner s' u) = flags_of (inner s u))"

lemma flag_ok_flags_of: "flags_of m' = flags_of m \<Longrightarrow> flag_ok b m' p = flag_ok b m p"
  by (simp add: flags_of_def flag_ok_def)

lemma flags_upd:
  assumes "flags_ok s" "only t s s'" "coord_poisoned s \<Longrightarrow> coord_poisoned s'"
    and "flag_ok (coord_poisoned s') (inner s' t) (pcs s' t)"
  shows "flags_ok s'"
  unfolding flags_ok_def
proof
  fix u
  show "flag_ok (coord_poisoned s') (inner s' u) (pcs s' u)"
  proof (cases "u = t")
    case False
    then have "pcs s' u = pcs s u" "flags_of (inner s' u) = flags_of (inner s u)"
      using assms(2) by (simp_all add: only_def)
    then show ?thesis
      using flag_ok_mono [OF flags_okD [OF assms(1), of u] assms(3)] flag_ok_flags_of by metis
  qed (use assms(4) in simp)
qed

lemma step_only: "sp_step t s s' \<Longrightarrow> only t s s'"
  by (erule sp_step.cases) (auto simp: only_def flags_of_def sp_defs Let_def split: list.splits if_splits)

lemma step_poison: "sp_step t s s' \<Longrightarrow> coord_poisoned s \<Longrightarrow> coord_poisoned s'"
  by (erule sp_step.cases) (auto simp: sp_defs Let_def split: list.splits if_splits)

lemma coord_step:
  assumes st: "sp_step t s s'" and c: "coord_ok s"
  shows "coord_ok s'"
proof -
  have h: "\<forall>p. pcs s t = p \<longrightarrow> (holds_coord p \<longleftrightarrow> coord s = Some t)" by (simp add: holds_coord_iff [OF c])
  show ?thesis
    using st h c by (cases rule: sp_step.cases)
      (auto simp: coord_ok_def sp_defs Let_def split: list.splits if_splits option.splits)
qed

lemma flag_step:
  "sp_step t s s' \<Longrightarrow> flag_ok (coord_poisoned s) (inner s t) (pcs s t) \<Longrightarrow>
   flag_ok (coord_poisoned s') (inner s' t) (pcs s' t)"
  by (erule sp_step.cases) (auto simp: sp_defs flag_ok_def Let_def split: list.splits if_splits)

lemma flags_step: "sp_step t s s' \<Longrightarrow> flags_ok s \<Longrightarrow> flags_ok s'"
  by (rule flags_upd [OF _ step_only step_poison flag_step [OF _ flags_okD]])

lemma coord_facts:
  assumes "coord_ok s"
  shows "coord s = None \<Longrightarrow> world_running s" "coord_poisoned s \<Longrightarrow> world_running s"
    "holds_coord (pcs s t) \<Longrightarrow> world_running s \<longleftrightarrow> \<not> stops_world (pcs s t)"
    "holds_coord (pcs s t) \<Longrightarrow> holds_coord (pcs s u) \<Longrightarrow> u = t"
    "world_running s \<Longrightarrow> \<not> stops_world (pcs s u)"
proof -
  note h = holds_coord_iff [OF assms]
  have c: "coord_poisoned s \<longrightarrow> coord s = None"
    "world_running s \<longleftrightarrow> (case coord s of None \<Rightarrow> True | Some t \<Rightarrow> \<not> stops_world (pcs s t))"
    using assms by (simp_all add: coord_ok_def)
  show "coord s = None \<Longrightarrow> world_running s" "coord_poisoned s \<Longrightarrow> world_running s"
    "holds_coord (pcs s t) \<Longrightarrow> world_running s \<longleftrightarrow> \<not> stops_world (pcs s t)"
    "holds_coord (pcs s t) \<Longrightarrow> holds_coord (pcs s u) \<Longrightarrow> u = t"
    using c h by auto
  show "\<not> stops_world (pcs s u)" if "world_running s"
    using c(2) that h [of u] stops_holds [of "pcs s u"] by auto
qed

lemma stops_epoch: "epoch_of_pc p = Some g \<Longrightarrow> stops_world p"
  by (cases p) simp_all

text \<open>The epoch invariant of one thread, and the step of another thread.\<close>

lemma epoch_step_same:
  assumes st: "sp_step t s s'" and c: "coord_ok s" and f: "flags_ok s" and e: "epochs_ok s"
  shows "epoch_ok (epoch s') (world_running s') (inner s' t) (pcs s' t)"
proof -
  have et: "epoch_ok (epoch s) (world_running s) (inner s t) (pcs s t)" using e by (simp add: epochs_ok_def)
  have w: "pcs s t = Unwound \<longrightarrow> world_running s" "holds_coord (pcs s t) \<longrightarrow> world_running s = (\<not> stops_world (pcs s t))"
    "coord s = None \<longrightarrow> world_running s"
    using flag_unwound [OF f, of t] coord_facts(1,2) [OF c] coord_facts(3) [OF c, of t] by auto
  show ?thesis
    using st et w by (cases rule: sp_step.cases)
      (auto simp: sp_defs epoch_ok_def Let_def split: list.splits if_splits)
qed

lemma epochs_step:
  assumes st: "sp_step t s s'" and c: "coord_ok s" and f: "flags_ok s" and e: "epochs_ok s"
  shows "epochs_ok s'"
  unfolding epochs_ok_def
proof
  fix u
  show "epoch_ok (epoch s') (world_running s') (inner s' u) (pcs s' u)"
  proof (cases "u = t")
    case False
    have eu: "epoch_ok (epoch s) (world_running s) (inner s u) (pcs s u)" using e by (simp add: epochs_ok_def)
    have same: "pcs s' u = pcs s u" "last_epoch (inner s' u) = last_epoch (inner s u)"
      using step_only [OF st] False by (simp_all add: only_def flags_of_def)
    have "epoch s' = epoch s \<and> (world_running s' = world_running s \<or> world_running s') \<or>
        (epoch s' = Suc (epoch s) \<and> world_running s \<and> epoch_of_pc (pcs s u) = None)"
    proof (cases "pcs s t = Drive_Holding \<and> s' = drive_stop t s")
      case True
      then have "world_running s" using coord_facts(3) [OF c, of t] by simp
      then have "\<not> stops_world (pcs s u)" using coord_facts(5) [OF c] by blast
      then have "epoch_of_pc (pcs s u) = None" using stops_epoch [of "pcs s u"] by (cases "epoch_of_pc (pcs s u)") auto
      then show ?thesis using True \<open>world_running s\<close> by (simp add: sp_defs Let_def)
    next
      case other: False
      show ?thesis
        using st other by (cases rule: sp_step.cases) (auto simp: sp_defs Let_def split: list.splits if_splits)
    qed
    then show ?thesis using eu by (auto simp: epoch_ok_def same)
  qed (use epoch_step_same [OF assms] in simp)
qed

lemma slots_step: "sp_step t s s' \<Longrightarrow> slots_ok s \<Longrightarrow> slots_ok s'"
  by (cases rule: sp_step.cases, assumption)
    (auto simp: slots_ok_def sp_defs Let_def place_in_slots_mem deregister_slot_mem split: list.splits if_splits)

section \<open>The world is stopped\<close>

text \<open>
  What a driver past its snapshot knows: every other thread that could use the heap is in its
  list, and those it no longer waits for have left the world.
\<close>

fun cycle_ok :: "sp_state \<Rightarrow> tid \<Rightarrow> pc \<Rightarrow> bool" where
  "cycle_ok s t (Drive_Waiting g others todo) \<longleftrightarrow>
     set todo \<subseteq> set others \<and> (\<forall>u. pcs s u \<notin> {Fresh, Gone} \<longrightarrow> u \<in> set others) \<and>
     (\<forall>u \<in> set others - set todo. \<not> in_world (pcs s u))"
| "cycle_ok s t (Drive_Collecting g others) \<longleftrightarrow>
     (\<forall>u. pcs s u \<notin> {Fresh, Gone} \<longrightarrow> u \<in> set others) \<and> (\<forall>u. \<not> in_world (pcs s u))"
| "cycle_ok s t Drive_Collected \<longleftrightarrow> (\<forall>u. \<not> in_world (pcs s u))"
| "cycle_ok s t Drive_Panicking \<longleftrightarrow> (\<forall>u. \<not> in_world (pcs s u))"
| "cycle_ok s t p \<longleftrightarrow> True"

lemma cycle_ok_sleepers [simp]: "cycle_ok (s\<lparr>sleepers := x\<rparr>) t p = cycle_ok s t p"
  by (cases p) simp_all

lemma in_world_alive: "in_world p \<Longrightarrow> p \<notin> {Fresh, Gone}"
  by (cases p) simp_all

definition cycles_ok :: "sp_state \<Rightarrow> bool" where
  "cycles_ok s \<longleftrightarrow> (\<forall>t. cycle_ok s t (pcs s t))"

text \<open>With the world stopped nobody enters it, and nobody new shows up.\<close>

lemma stopped_step:
  assumes st: "sp_step t s s'" and c: "coord_ok s" and f: "flags_ok s" and w: "\<not> world_running s"
  shows "in_world (pcs s' u) \<Longrightarrow> in_world (pcs s u) \<or> world_running s'"
    and "pcs s' u \<notin> {Fresh, Gone} \<Longrightarrow> pcs s u \<notin> {Fresh, Gone}"
proof -
  have k: "pcs s t \<noteq> Unwound" "coord s \<noteq> None" "pcs s t \<noteq> Drive_Resumed" "pcs s t \<noteq> Drive_Holding"
    "pcs s t \<noteq> Drive_Resumed_Panic"
    using flag_unwound [OF f] coord_facts(1,2) [OF c] coord_facts(3) [OF c, of t] w by auto
  show "in_world (pcs s' u) \<Longrightarrow> in_world (pcs s u) \<or> world_running s'"
    using st w k by (cases rule: sp_step.cases) (auto simp: sp_defs Let_def split: list.splits if_splits)
  show "pcs s' u \<notin> {Fresh, Gone} \<Longrightarrow> pcs s u \<notin> {Fresh, Gone}"
    using st w k by (cases rule: sp_step.cases) (auto simp: sp_defs Let_def split: list.splits if_splits)
qed

lemma arrived:
  assumes "epochs_ok s" "flags_ok s" "coord_ok s" "\<not> world_running s" "\<not> must_wait_for (epoch s) (inner s u)"
  shows "\<not> in_world (pcs s u)"
proof -
  have "epoch_ok (epoch s) (world_running s) (inner s u) (pcs s u)" using assms(1) by (simp add: epochs_ok_def)
  moreover have "\<not> coord_poisoned s" using coord_facts(2) [OF assms(3)] assms(4) by blast
  ultimately show ?thesis
    using flags_okD [OF assms(2), of u] assms(4,5)
    by (cases "pcs s u") (simp_all add: epoch_ok_def flag_ok_def must_wait_for_def)
qed

lemma cycles_step:
  assumes st: "sp_step t s s'" and c: "coord_ok s" and f: "flags_ok s" and e: "epochs_ok s" and sl: "slots_ok s"
    and cy: "cycles_ok s"
  shows "cycles_ok s'"
  unfolding cycles_ok_def
proof
  fix u
  have c': "coord_ok s'" and f': "flags_ok s'" using coord_step [OF st c] flags_step [OF st f] .
  show "cycle_ok s' u (pcs s' u)"
  proof (cases "stops_world (pcs s' u)")
    case False
    then show ?thesis by (cases "pcs s' u") simp_all
  next
    case st': True
    have w': "\<not> world_running s'" using coord_facts(5) [OF c', of u] st' by blast
    show ?thesis
    proof (cases "u = t")
      case False
      then have p: "pcs s' u = pcs s u" using step_only [OF st] by (simp add: only_def)
      then have w: "\<not> world_running s" using coord_facts(5) [OF c, of u] st' by auto
      have "cycle_ok s u (pcs s u)" using cy by (simp add: cycles_ok_def)
      then show ?thesis
        unfolding p using stopped_step(1) [OF st c f w] stopped_step(2) [OF st c f w] w'
        by (cases "pcs s u") (simp_all, blast+)
    next
      case True
      have et: "epoch_ok (epoch s) (world_running s) (inner s t) (pcs s t)" using e by (simp add: epochs_ok_def)
      have ct: "cycle_ok s t (pcs s t)" using cy by (simp add: cycles_ok_def)
      have w: "stops_world (pcs s t) \<Longrightarrow> \<not> world_running s" using coord_facts(5) [OF c, of t] by blast
      note ar = arrived [OF e f c]
      show ?thesis
        using st
      proof cases
        case (Wait g others todo)
        have g: "g = epoch s" using et Wait by (simp add: epoch_ok_def)
        have mem: "\<forall>u. pcs s u \<notin> {Fresh, Gone} \<longrightarrow> u \<in> set others" "set todo \<subseteq> set others"
          and left: "\<forall>u \<in> set others - set todo. \<not> in_world (pcs s u)"
          using ct Wait by simp_all
        have self: "\<not> in_world (pcs s t)" using Wait by simp
        have out: "\<not> in_world (pcs s u)" if "todo = []" for u
          using mem(1) left that in_world_alive [of "pcs s u"] by auto
        show ?thesis
        proof (cases todo)
          case Nil
          then show ?thesis using Wait mem out self by (auto simp: sp_defs True)
        next
          case (Cons m ms)
          show ?thesis
          proof (cases "must_wait_for g (inner s m)")
            case True
            then show ?thesis using Wait Cons ct \<open>u = t\<close> by (simp add: sp_defs)
          next
            case False
            have nm: "\<not> in_world (pcs s m)" using ar [of m] w Wait False g by simp
            show ?thesis using Wait Cons False mem left nm \<open>u = t\<close> by (auto simp: sp_defs)
          qed
        qed
      next
        case Wake
        then show ?thesis using ct True by simp
      next
        case (Snapshot g)
        then show ?thesis using sl by (auto simp: True sp_defs slots_ok_def set_registry_snapshot Let_def)
      qed (use st' ct in \<open>auto simp: True sp_defs Let_def split: list.splits if_splits\<close>)
    qed
  qed
qed

section \<open>No lost wake-up\<close>

text \<open>What a thread asleep on \<open>park_cv\<close> waits for has not happened.\<close>

fun still_blocked :: "sp_state \<Rightarrow> pc \<Rightarrow> bool" where
  "still_blocked s (Parked g) \<longleftrightarrow> g = epoch s \<and> \<not> world_running s"
| "still_blocked s Native_Leaving \<longleftrightarrow> \<not> world_running s"
| "still_blocked s (Drive_Waiting g others (m # ms)) \<longleftrightarrow> must_wait_for g (inner s m)"
| "still_blocked s p \<longleftrightarrow> False"

definition sleepers_ok :: "sp_state \<Rightarrow> bool" where
  "sleepers_ok s \<longleftrightarrow> (\<forall>t \<in> sleepers s. still_blocked s (pcs s t))"

lemma must_wait_cong: "flags_of m' = flags_of m \<Longrightarrow> must_wait_for g m' = must_wait_for g m"
  by (simp add: flags_of_def must_wait_for_def)

lemma step_epoch: "sp_step t s s' \<Longrightarrow> pcs s t \<noteq> Drive_Holding \<Longrightarrow> epoch s' = epoch s"
  by (erule sp_step.cases) (auto simp: sp_defs Let_def split: list.splits if_splits)

lemma step_keeps_waiting:
  "sp_step t s s' \<Longrightarrow> must_wait_for g (inner s t) \<Longrightarrow> flag_ok (coord_poisoned s) (inner s t) (pcs s t) \<Longrightarrow>
   coord s \<noteq> None \<Longrightarrow> pcs s t \<noteq> Drive_Holding \<Longrightarrow> sleepers s' \<noteq> {} \<Longrightarrow> must_wait_for g (inner s' t)"
  by (erule sp_step.cases) (auto simp: sp_defs must_wait_for_def flag_ok_def Let_def split: list.splits if_splits)

lemma step_resumes: "sp_step t s s' \<Longrightarrow> \<not> world_running s \<Longrightarrow> world_running s' \<Longrightarrow> sleepers s' = {}"
  by (erule sp_step.cases) (auto simp: sp_defs Let_def split: list.splits if_splits)

lemma sleepers_step:
  assumes st: "sp_step t s s'" and c: "coord_ok s" and f: "flags_ok s" and sl: "sleepers_ok s"
  shows "sleepers_ok s'"
  unfolding sleepers_ok_def
proof
  fix u assume u: "u \<in> sleepers s'"
  have bt: "t \<in> sleepers s \<longrightarrow> still_blocked s (pcs s t)" using sl by (simp add: sleepers_ok_def)
  show "still_blocked s' (pcs s' u)"
  proof (cases "u = t")
    case True
    then show ?thesis
      using st u bt by - (erule sp_step.cases, auto simp: sp_defs Let_def split: list.splits if_splits)
  next
    case False
    have us: "u \<in> sleepers s" using st u False
      by (cases rule: sp_step.cases) (auto simp: sp_defs Let_def split: list.splits if_splits)
    then have b: "still_blocked s (pcs s u)" using sl by (simp add: sleepers_ok_def)
    have p: "pcs s' u = pcs s u" using step_only [OF st] False by (simp add: only_def)
    have ne: "sleepers s' \<noteq> {}" using u by blast
    have w: "\<not> world_running s \<Longrightarrow> epoch s' = epoch s \<and> \<not> world_running s'"
    proof -
      assume w: "\<not> world_running s"
      then have nh: "pcs s t \<noteq> Drive_Holding" using coord_facts(3) [OF c, of t] by auto
      show ?thesis using step_epoch [OF st nh] step_resumes [OF st w] ne by blast
    qed
    have m: "must_wait_for g (inner s' x)"
      if "pcs s u = Drive_Waiting g others (x # xs)" "must_wait_for g (inner s x)" for g others x xs
    proof (cases "x = t")
      case False
      then have "flags_of (inner s' x) = flags_of (inner s x)" using step_only [OF st] by (simp add: only_def)
      then show ?thesis using must_wait_cong that(2) by blast
    next
      case True
      have nw: "\<not> world_running s" using coord_facts(5) [OF c, of u] that(1) by auto
      then have nh: "pcs s t \<noteq> Drive_Holding" using coord_facts(3) [OF c, of t] by auto
      have "coord s \<noteq> None" using coord_facts(1) [OF c] nw by blast
      then show ?thesis
        using step_keeps_waiting [OF st _ flags_okD [OF f] _ nh ne] that(2) True by simp
    qed
    show ?thesis using b w m unfolding p by (cases "(s, pcs s u)" rule: still_blocked.cases) auto
  qed
qed

section \<open>Roots\<close>

text \<open>
  Unless a collection has panicked, the root words of a thread in the world are the present
  addresses of the objects it holds, and so is the published snapshot of every other thread. A
  thread that has published has no live allocation buffer.
\<close>

fun uses_snapshot :: "pc \<Rightarrow> bool" where
  "uses_snapshot Fresh = False"
| "uses_snapshot Running = False"
| "uses_snapshot (Poll_Read g) = False"
| "uses_snapshot Unwound = False"
| "uses_snapshot Dropped = False"
| "uses_snapshot Gone = False"
| "uses_snapshot p = True"

fun uses_roots :: "pc \<Rightarrow> bool" where
  "uses_roots Running = True"
| "uses_roots (Poll_Read g) = True"
| "uses_roots p = False"

definition root_ok :: "(nat \<Rightarrow> u64) \<Rightarrow> pc \<Rightarrow> u64 list \<Rightarrow> u64 list \<Rightarrow> nat list \<Rightarrow> bool \<Rightarrow> bool" where
  "root_ok a p ws snap os live \<longleftrightarrow>
     length ws = length os \<and> (p = Fresh \<longrightarrow> os = []) \<and> (uses_roots p \<longrightarrow> ws = map a os) \<and>
     (uses_snapshot p \<longrightarrow> snap = map a os \<and> \<not> live)"

abbreviation thread_root_ok :: "sp_state \<Rightarrow> tid \<Rightarrow> bool" where
  "thread_root_ok s t \<equiv>
     root_ok (addr s) (pcs s t) (root_words s t) (roots_snapshot (inner s t)) (held s t) (tlabs_live s t)"

definition roots_ok :: "sp_state \<Rightarrow> bool" where
  "roots_ok s \<longleftrightarrow> (torn s \<or> (\<forall>t. thread_root_ok s t)) \<and>
     (\<forall>t. coord_poisoned s \<or> pcs s t \<in> {Drive_Panicking, Drive_Resumed_Panic, Unwound} \<longrightarrow> torn s)"

lemma copy_back_all: "length rs = length snap \<Longrightarrow> copy_back rs snap = snap"
  by (simp add: copy_back_def)

lemma root_step_other:
  assumes "sp_step t s s'" "u \<noteq> t" "\<not> torn s'"
    and "\<forall>g others. pcs s t \<noteq> Drive_Collecting g others"
  shows "addr s' = addr s" "root_words s' u = root_words s u" "held s' u = held s u"
    "tlabs_live s' u = tlabs_live s u" "inner s' u = inner s u"
  using assms by (cases rule: sp_step.cases; auto simp: sp_defs Let_def split: list.splits if_splits)+

lemma root_step_same:
  assumes "sp_step t s s'" "\<not> torn s'" "thread_root_ok s t"
    and "\<forall>g others. pcs s t \<noteq> Drive_Collecting g others" "pcs s t = Unwound \<longrightarrow> torn s" "coord_poisoned s \<longrightarrow> torn s"
  shows "thread_root_ok s' t"
  using assms
  by (cases rule: sp_step.cases)
    (auto simp: sp_defs root_ok_def copy_back_all Let_def split: list.splits if_splits)

lemma torn_step: "sp_step t s s' \<Longrightarrow> torn s \<Longrightarrow> torn s'"
  by (erule sp_step.cases) (auto simp: sp_defs Let_def split: list.splits if_splits)

lemma torn_reason:
  "sp_step t s s' \<Longrightarrow> \<not> torn s' \<Longrightarrow> \<not> coord_poisoned s \<Longrightarrow>
   pcs s t \<notin> {Drive_Panicking, Drive_Resumed_Panic, Unwound} \<Longrightarrow>
   \<not> coord_poisoned s' \<and> pcs s' t \<notin> {Drive_Panicking, Drive_Resumed_Panic, Unwound}"
  by (erule sp_step.cases) (auto simp: sp_defs Let_def split: list.splits if_splits)

lemma torn_reason_step:
  assumes st: "sp_step t s s'" and r: "roots_ok s"
    and p: "coord_poisoned s' \<or> pcs s' u \<in> {Drive_Panicking, Drive_Resumed_Panic, Unwound}"
  shows "torn s'"
proof (rule ccontr)
  assume n: "\<not> torn s'"
  then have "\<not> torn s" using torn_step [OF st] by blast
  then have "\<not> coord_poisoned s" "\<And>v. pcs s v \<notin> {Drive_Panicking, Drive_Resumed_Panic, Unwound}"
    using r by (auto simp: roots_ok_def)
  then have "\<not> coord_poisoned s' \<and> pcs s' t \<notin> {Drive_Panicking, Drive_Resumed_Panic, Unwound}"
    and "u \<noteq> t \<Longrightarrow> pcs s' u \<notin> {Drive_Panicking, Drive_Resumed_Panic, Unwound}"
    using torn_reason [OF st n] step_only [OF st] by (simp_all add: only_def)
  then show False using p by auto
qed

lemma collect_roots:
  assumes f: "flags_ok s" and cy: "cycles_ok s" and r: "thread_root_ok s u" and t: "pcs s t = Drive_Collecting g others"
    and fw: "\<And>x. f (addr s x) = a x"
  shows "thread_root_ok (drive_collect_ok t others f a s) u"
proof -
  have out: "\<not> in_world (pcs s u)" and mem: "pcs s u \<notin> {Fresh, Gone} \<Longrightarrow> u \<in> set others"
    using cy t unfolding cycles_ok_def by (metis cycle_ok.simps(2))+
  have "uses_snapshot (pcs s u) \<Longrightarrow> u \<in> set others \<and> is_active (inner s u)"
    using mem flags_okD [OF f, of u] by (cases "pcs s u") (auto simp: flag_ok_def)
  moreover have "\<not> uses_roots (pcs s u)" using out by (cases "pcs s u") simp_all
  moreover have "map f (map (addr s) os) = map a os" for os by (simp add: fw)
  ultimately show ?thesis using r t by (auto simp: root_ok_def sp_defs)
qed

lemma roots_step:
  assumes st: "sp_step t s s'" and f: "flags_ok s" and cy: "cycles_ok s" and r: "roots_ok s"
  shows "roots_ok s'"
proof -
  have "thread_root_ok s' u" if n: "\<not> torn s'" for u
  proof -
    have nt: "\<not> torn s" using torn_step [OF st] n by blast
    then have ok: "thread_root_ok s v" for v using r by (simp add: roots_ok_def)
    show ?thesis
    proof (cases "\<exists>g others. pcs s t = Drive_Collecting g others")
      case True
      show ?thesis
        using st
      proof cases
        case (Collect g others f a)
        then show ?thesis using collect_roots [OF f cy ok] by simp
      qed (use True n ok in \<open>auto simp: sp_defs\<close>)
    next
      case False
      have "pcs s t = Unwound \<longrightarrow> torn s" "coord_poisoned s \<longrightarrow> torn s" using r by (auto simp: roots_ok_def)
      then show ?thesis
        using root_step_same [OF st n ok] root_step_other [OF st _ n, of u] step_only [OF st] False ok [of u]
        by (cases "u = t") (simp_all add: only_def)
    qed
  qed
  then show ?thesis using torn_reason_step [OF st r] unfolding roots_ok_def by blast
qed

section \<open>All of them\<close>

definition sp_inv :: "sp_state \<Rightarrow> bool" where
  "sp_inv s \<longleftrightarrow> coord_ok s \<and> flags_ok s \<and> epochs_ok s \<and> slots_ok s \<and> cycles_ok s \<and> sleepers_ok s \<and> roots_ok s"

lemma sp_inv_init: "sp_inv (sp_init a)"
  by (simp add: sp_inv_def sp_init_def coord_ok_def flags_ok_def flag_ok_def inner_new_def epochs_ok_def epoch_ok_def
      slots_ok_def cycles_ok_def sleepers_ok_def roots_ok_def root_ok_def)

lemma sp_inv_step:
  assumes st: "sp_step t s s'" and inv: "sp_inv s"
  shows "sp_inv s'"
proof -
  have i: "coord_ok s" "flags_ok s" "epochs_ok s" "slots_ok s" "cycles_ok s" "sleepers_ok s" "roots_ok s"
    using inv by (simp_all add: sp_inv_def)
  show ?thesis
    unfolding sp_inv_def
    using coord_step [OF st i(1)] flags_step [OF st i(2)] epochs_step [OF st i(1-3)] slots_step [OF st i(4)]
      cycles_step [OF st i(1-5)] sleepers_step [OF st i(1,2,6)] roots_step [OF st i(2,5,7)] by blast
qed

lemma sp_inv_reachable: "sp_reachable s \<Longrightarrow> sp_inv s"
  by (induction rule: sp_reachable.induct) (auto intro: sp_inv_init sp_inv_step)

end
