(* ===== verification/Safepoint_Live.thy ===== *)
theory Safepoint_Live
  imports Safepoint_Inv
begin

text \<open>
  The protocol does not get stuck: from every reachable state the threads can carry on, without
  anybody giving up, until no collection is under way. Each helpful step decreases a
  lexicographic measure: how far the drivers have to go, how many mutators are left to wait
  for, how far the others are from where they can stay.
\<close>

section \<open>The measure\<close>

definition alive :: "sp_state \<Rightarrow> tid set" where
  "alive s = {t. pcs s t \<notin> {Fresh, Gone}}"

fun drive_rank :: "pc \<Rightarrow> nat" where
  "drive_rank Drive_Published = 10"
| "drive_rank Drive_Announced = 9"
| "drive_rank Drive_Holding = 8"
| "drive_rank (Drive_Stopped g) = 7"
| "drive_rank (Drive_Waiting g os todo) = 6"
| "drive_rank (Drive_Collecting g os) = 5"
| "drive_rank Drive_Collected = 4"
| "drive_rank Drive_Panicking = 4"
| "drive_rank Drive_Resumed = 3"
| "drive_rank Drive_Resumed_Panic = 3"
| "drive_rank p = 0"

fun todo_rank :: "pc \<Rightarrow> nat" where
  "todo_rank (Drive_Waiting g os todo) = length todo"
| "todo_rank p = 0"

fun settle_rank :: "bool \<Rightarrow> nat \<Rightarrow> pc \<Rightarrow> nat" where
  "settle_rank running ep Copy_Back = (if running then 1 else 5)"
| "settle_rank running ep Running = (if running then 0 else 4)"
| "settle_rank running ep (Poll_Read g) = (if running then 5 else 3)"
| "settle_rank running ep (Poll_Published g) = (if running then 4 else 2)"
| "settle_rank running ep (Parked g) = (if running then 2 else 0) + (if g = ep then 0 else 1)"
| "settle_rank running ep Native_Leaving = 2"
| "settle_rank running ep Native_Published = 1"
| "settle_rank running ep Dropped = 1"
| "settle_rank running ep p = 0"

definition total :: "(pc \<Rightarrow> nat) \<Rightarrow> sp_state \<Rightarrow> nat" where
  "total w s = (\<Sum>t \<in> alive s. w (pcs s t))"

definition sp_measure :: "(sp_state \<times> sp_state) set" where
  "sp_measure = measures [total drive_rank, total todo_rank, \<lambda>s. total (settle_rank (world_running s) (epoch s)) s]"

lemma finite_alive: "slots_ok s \<Longrightarrow> finite (alive s)"
proof -
  assume "slots_ok s"
  then have "Some ` alive s \<subseteq> set (slots s)" by (auto simp: slots_ok_def alive_def)
  then show ?thesis by (meson finite_imageD finite_set finite_subset inj_Some inj_on_subset subset_UNIV)
qed

lemma sum_drops:
  fixes w w' :: "tid \<Rightarrow> nat"
  assumes "finite A" "A' \<subseteq> A" "t \<in> A" "\<And>u. u \<noteq> t \<Longrightarrow> w' u = w u" "t \<in> A' \<Longrightarrow> w' t \<le> w t"
  shows "sum w' A' \<le> sum w A" "(if t \<in> A' then w' t else 0) < w t \<Longrightarrow> sum w' A' < sum w A"
proof -
  have fin: "finite A'" using assms(1,2) finite_subset by blast
  have "sum w' (A' - {t}) = sum w (A' - {t})" by (rule sum.cong) (use assms(4) in auto)
  also have "\<dots> \<le> sum w (A - {t})" by (rule sum_mono2) (use assms(1,2) in auto)
  finally have rest: "sum w' (A' - {t}) \<le> sum w (A - {t})" .
  have A: "sum w A = w t + sum w (A - {t})" by (rule sum.remove [OF assms(1,3)])
  have A': "sum w' A' = (if t \<in> A' then w' t else 0) + sum w' (A' - {t})"
    using sum.remove [OF fin, of t w'] by (cases "t \<in> A'") simp_all
  show "sum w' A' \<le> sum w A" using A A' rest assms(5) by (cases "t \<in> A'") simp_all
  show "(if t \<in> A' then w' t else 0) < w t \<Longrightarrow> sum w' A' < sum w A" using A A' rest by simp
qed

text \<open>A step of thread \<open>t\<close> that lowers \<open>t\<close>'s own rank, in lexicographic order, lowers the measure.\<close>

lemma sp_measure_step:
  assumes sl: "slots_ok s" and o: "only t s s'" and t: "pcs s t \<notin> {Fresh, Gone}" "pcs s' t \<noteq> Fresh"
    and lex: "drive_rank (pcs s' t) < drive_rank (pcs s t) \<or>
      (drive_rank (pcs s' t) = drive_rank (pcs s t) \<and>
        (todo_rank (pcs s' t) < todo_rank (pcs s t) \<or>
          (todo_rank (pcs s' t) = todo_rank (pcs s t) \<and> world_running s' = world_running s \<and> epoch s' = epoch s \<and>
            settle_rank (world_running s) (epoch s) (pcs s' t) < settle_rank (world_running s) (epoch s) (pcs s t))))"
  shows "(s', s) \<in> sp_measure"
proof -
  have sub: "alive s' \<subseteq> alive s" and ta: "t \<in> alive s"
    using o t by (auto simp: alive_def only_def)
  have gone: "t \<notin> alive s' \<Longrightarrow> pcs s' t = Gone" using t(2) by (auto simp: alive_def)
  have same: "w (pcs s' u) = w (pcs s u)" if "u \<noteq> t" for u and w :: "pc \<Rightarrow> nat" using o that by (simp add: only_def)
  have le: "total w s' \<le> total w s" if "w (pcs s' t) \<le> w (pcs s t)" for w
    unfolding total_def
    by (rule sum_drops(1) [OF finite_alive [OF sl] sub ta]) (use that same in simp_all)
  have less: "total w s' < total w s" if "w (pcs s' t) < w (pcs s t)" "w Gone = 0" for w
    unfolding total_def
    by (rule sum_drops(2) [OF finite_alive [OF sl] sub ta]) (use that same gone in auto)
  have eq: "total w s' \<le> total w s" if "w (pcs s' t) = w (pcs s t)" for w using le [of w] that by simp
  show ?thesis
    unfolding sp_measure_def
    using lex less [of drive_rank] less [of todo_rank] less [of "settle_rank (world_running s) (epoch s)"]
      eq [of drive_rank] eq [of todo_rank]
    by (auto simp: in_measures le_less)
qed

section \<open>A helpful step\<close>

text \<open>Nobody gives up: no new panic, and nobody leaves who was not leaving.\<close>

definition patient :: "sp_state \<Rightarrow> sp_state \<Rightarrow> bool" where
  "patient s s' \<longleftrightarrow> torn s' = torn s \<and>
     (\<forall>u. pcs s u \<notin> {Dropped, Gone} \<longrightarrow> pcs s' u \<notin> {Dropped, Gone}) \<and> (\<forall>u. pcs s u = Fresh \<longrightarrow> pcs s' u = Fresh)"

definition quiet :: "sp_state \<Rightarrow> bool" where
  "quiet s \<longleftrightarrow> (\<forall>t. pcs s t \<in> {Fresh, Running, Native_Call, Unwound, Gone})"

definition helpful :: "sp_state \<Rightarrow> bool" where
  "helpful s \<longleftrightarrow> (\<exists>t s'. sp_step t s s' \<and> patient s s' \<and> (s', s) \<in> sp_measure)"

lemma helpfulI:
  assumes inv: "sp_inv s" and st: "sp_step t s s'" and t: "pcs s t \<notin> {Fresh, Gone}" "pcs s' t \<noteq> Fresh"
    and p: "torn s' = torn s" "pcs s t \<noteq> Dropped \<Longrightarrow> pcs s' t \<notin> {Dropped, Gone}"
    and lex: "drive_rank (pcs s' t) < drive_rank (pcs s t) \<or>
      (drive_rank (pcs s' t) = drive_rank (pcs s t) \<and>
        (todo_rank (pcs s' t) < todo_rank (pcs s t) \<or>
          (todo_rank (pcs s' t) = todo_rank (pcs s t) \<and> world_running s' = world_running s \<and> epoch s' = epoch s \<and>
            settle_rank (world_running s) (epoch s) (pcs s' t) < settle_rank (world_running s) (epoch s) (pcs s t))))"
  shows "helpful s"
proof -
  note o = step_only [OF st]
  have "slots_ok s" using inv by (simp add: sp_inv_def)
  then have "(s', s) \<in> sp_measure" using sp_measure_step [OF _ o t lex] by blast
  moreover have "patient s s'"
    using p t o unfolding patient_def only_def by (metis insertCI)
  ultimately show ?thesis using st unfolding helpful_def by blast
qed

text \<open>A thread that the driver waits for can move.\<close>

lemma helpful_mutator:
  assumes inv: "sp_inv s" and w: "\<not> world_running s" and m: "must_wait_for (epoch s) (inner s u)"
  shows "helpful s"
proof -
  have i: "coord_ok s" "flags_ok s" "epochs_ok s" "sleepers_ok s" using inv by (simp_all add: sp_inv_def)
  have f: "flag_ok (coord_poisoned s) (inner s u) (pcs s u)" by (rule flags_okD [OF i(2)])
  have e: "epoch_ok (epoch s) (world_running s) (inner s u) (pcs s u)" using i(3) by (simp add: epochs_ok_def)
  have c: "coord s \<noteq> None" "\<not> coord_poisoned s" using coord_facts(1,2) [OF i(1)] w by blast+
  have h: "holds_coord (pcs s u) \<longrightarrow> stops_world (pcs s u)" using coord_facts(3) [OF i(1), of u] w by blast
  have sl: "u \<in> sleepers s \<Longrightarrow> still_blocked s (pcs s u)" using i(4) by (simp add: sleepers_ok_def)
  have le: "last_epoch (inner s u) < epoch s" using m by (simp add: must_wait_for_def)
  show ?thesis
  proof (cases "pcs s u")
    case Running
    show ?thesis
      by (rule helpfulI [OF inv sp_step.Poll [where t = u]]) (use Running le w in \<open>simp_all add: sp_defs\<close>)
  next
    case (Poll_Read g)
    show ?thesis
      by (rule helpfulI [OF inv sp_step.Poll_Publish [where t = u]]) (use Poll_Read w in \<open>simp_all add: sp_defs\<close>)
  next
    case (Poll_Published g)
    show ?thesis
      by (rule helpfulI [OF inv sp_step.Park [where t = u]]) (use Poll_Published w in \<open>simp_all add: sp_defs\<close>)
  next
    case (Parked g)
    then have "g \<noteq> epoch s" using e le by (simp add: epoch_ok_def)
    moreover then have "u \<notin> sleepers s" using sl Parked by auto
    ultimately show ?thesis
      using Parked w by - (rule helpfulI [OF inv sp_step.Park_Check [where t = u and g = g]]; auto simp: sp_defs)
  next
    case Copy_Back
    show ?thesis
      by (rule helpfulI [OF inv sp_step.Copy [where t = u]]) (use Copy_Back w in \<open>simp_all add: sp_defs\<close>)
  next
    case Native_Published
    show ?thesis
      by (rule helpfulI [OF inv sp_step.Enter_Native [where t = u]]) (use Native_Published w in \<open>simp_all add: sp_defs\<close>)
  next
    case Drive_Published
    show ?thesis
      by (rule helpfulI [OF inv sp_step.Announce [where t = u]]) (use Drive_Published w in \<open>simp_all add: sp_defs\<close>)
  qed (use f m c h in \<open>simp_all add: flag_ok_def must_wait_for_def\<close>)
qed

lemma helpful_driver:
  assumes inv: "sp_inv s" and c: "coord s = Some t"
  shows "helpful s"
proof -
  have i: "coord_ok s" "flags_ok s" "epochs_ok s" "sleepers_ok s" using inv by (simp_all add: sp_inv_def)
  have h: "holds_coord (pcs s t)" using holds_coord_iff [OF i(1)] c by simp
  have e: "epoch_ok (epoch s) (world_running s) (inner s t) (pcs s t)" using i(3) by (simp add: epochs_ok_def)
  have sl: "t \<in> sleepers s \<Longrightarrow> still_blocked s (pcs s t)" using i(4) by (simp add: sleepers_ok_def)
  show ?thesis
  proof (cases "pcs s t")
    case Drive_Holding
    show ?thesis
      by (rule helpfulI [OF inv sp_step.Stop [where t = t]]) (use Drive_Holding in \<open>simp_all add: sp_defs Let_def\<close>)
  next
    case (Drive_Stopped g)
    show ?thesis
      by (rule helpfulI [OF inv sp_step.Snapshot [where t = t]]) (use Drive_Stopped in \<open>simp_all add: sp_defs Let_def\<close>)
  next
    case (Drive_Waiting g others todo)
    show ?thesis
    proof (cases todo)
      case Nil
      then have "t \<notin> sleepers s" using sl Drive_Waiting by auto
      then show ?thesis
        using Drive_Waiting Nil
        by - (rule helpfulI [OF inv sp_step.Wait [where t = t and g = g and others = others and todo = "[]"]]; simp add: sp_defs)
    next
      case (Cons m ms)
      show ?thesis
      proof (cases "must_wait_for g (inner s m)")
        case True
        have "g = epoch s" using e Drive_Waiting by (simp add: epoch_ok_def)
        moreover have "\<not> world_running s" using coord_facts(3) [OF i(1) h] Drive_Waiting by simp
        ultimately show ?thesis using helpful_mutator [OF inv] True by simp
      next
        case False
        then have "t \<notin> sleepers s" using sl Drive_Waiting Cons by auto
        then show ?thesis
          using Drive_Waiting Cons False
          by - (rule helpfulI [OF inv sp_step.Wait [where t = t and g = g and others = others and todo = "m # ms"]];
              simp add: sp_defs)
      qed
    qed
  next
    case (Drive_Collecting g others)
    show ?thesis
      by (rule helpfulI [OF inv sp_step.Collect [where t = t and f = id and a = "addr s"]])
        (use Drive_Collecting in \<open>simp_all add: sp_defs\<close>)
  next
    case Drive_Collected
    show ?thesis
      by (rule helpfulI [OF inv sp_step.Resume [where t = t]]) (use Drive_Collected in \<open>simp_all add: sp_defs\<close>)
  next
    case Drive_Panicking
    show ?thesis
      by (rule helpfulI [OF inv sp_step.Resume_Panic [where t = t]]) (use Drive_Panicking in \<open>simp_all add: sp_defs\<close>)
  next
    case Drive_Resumed
    show ?thesis
      by (rule helpfulI [OF inv sp_step.Release [where t = t]]) (use Drive_Resumed in \<open>simp_all add: sp_defs\<close>)
  next
    case Drive_Resumed_Panic
    show ?thesis
      by (rule helpfulI [OF inv sp_step.Release_Panic [where t = t]]) (use Drive_Resumed_Panic in \<open>simp_all add: sp_defs\<close>)
  qed (use h in simp_all)
qed

lemma helpful_rest:
  assumes inv: "sp_inv s" and c: "coord s = None" and nq: "\<not> quiet s"
  shows "helpful s"
proof -
  have i: "coord_ok s" "flags_ok s" "sleepers_ok s" using inv by (simp_all add: sp_inv_def)
  have w: "world_running s" using coord_facts(1) [OF i(1) c] .
  obtain t where t: "pcs s t \<notin> {Fresh, Running, Native_Call, Unwound, Gone}" using nq by (auto simp: quiet_def)
  have h: "\<not> holds_coord (pcs s t)" using holds_coord_iff [OF i(1)] c by simp
  have sl: "t \<in> sleepers s \<Longrightarrow> still_blocked s (pcs s t)" using i(3) by (simp add: sleepers_ok_def)
  show ?thesis
  proof (cases "pcs s t")
    case (Poll_Read g)
    show ?thesis
      by (rule helpfulI [OF inv sp_step.Poll_Publish [where t = t]]) (use Poll_Read w in \<open>simp_all add: sp_defs\<close>)
  next
    case (Poll_Published g)
    show ?thesis
      by (rule helpfulI [OF inv sp_step.Park [where t = t]]) (use Poll_Published w in \<open>simp_all add: sp_defs\<close>)
  next
    case (Parked g)
    then have "t \<notin> sleepers s" using sl w by auto
    then show ?thesis
      using Parked w by - (rule helpfulI [OF inv sp_step.Park_Check [where t = t and g = g]]; auto simp: sp_defs)
  next
    case Copy_Back
    show ?thesis
      by (rule helpfulI [OF inv sp_step.Copy [where t = t]]) (use Copy_Back w in \<open>simp_all add: sp_defs\<close>)
  next
    case Native_Published
    show ?thesis
      by (rule helpfulI [OF inv sp_step.Enter_Native [where t = t]]) (use Native_Published w in \<open>simp_all add: sp_defs\<close>)
  next
    case Native_Leaving
    then have "t \<notin> sleepers s" using sl w by auto
    then show ?thesis
      using Native_Leaving w by - (rule helpfulI [OF inv sp_step.Leave_Check [where t = t]]; simp add: sp_defs)
  next
    case Drive_Published
    show ?thesis
      by (rule helpfulI [OF inv sp_step.Announce [where t = t]]) (use Drive_Published w in \<open>simp_all add: sp_defs\<close>)
  next
    case Drive_Announced
    show ?thesis
      by (rule helpfulI [OF inv sp_step.Acquire [where t = t]]) (use Drive_Announced c in \<open>simp_all add: sp_defs\<close>)
  next
    case Dropped
    show ?thesis
      by (rule helpfulI [OF inv sp_step.Deregister [where t = t]]) (use Dropped w in \<open>simp_all add: sp_defs\<close>)
  qed (use t h in simp_all)
qed

inductive sp_steps :: "sp_state \<Rightarrow> sp_state \<Rightarrow> bool" where
  refl: "sp_steps s s"
| step: "sp_step t s s1 \<Longrightarrow> sp_steps s1 s2 \<Longrightarrow> sp_steps s s2"

lemma patient_trans: "patient s s1 \<Longrightarrow> patient s1 s2 \<Longrightarrow> patient s s2"
  unfolding patient_def by metis

lemma settles:
  assumes "sp_inv s"
  shows "\<exists>s'. sp_steps s s' \<and> patient s s' \<and> quiet s'"
proof -
  have "wf sp_measure" by (simp add: sp_measure_def)
  then have "sp_inv s \<longrightarrow> (\<exists>s'. sp_steps s s' \<and> patient s s' \<and> quiet s')"
  proof (induction s rule: wf_induct_rule)
    case (less s)
    show ?case
    proof (cases "quiet s")
      case True
      have "patient s s" by (simp add: patient_def)
      then show ?thesis using True sp_steps.refl by blast
    next
      case False
      show ?thesis
      proof
        assume inv: "sp_inv s"
        have "helpful s" using helpful_rest [OF inv _ False] helpful_driver [OF inv] by (cases "coord s") blast+
        then obtain t s1 where s1: "sp_step t s s1" "patient s s1" "(s1, s) \<in> sp_measure"
          unfolding helpful_def by blast
        obtain s' where "sp_steps s1 s'" "patient s1 s'" "quiet s'"
          using less.IH [OF s1(3)] sp_inv_step [OF s1(1) inv] by blast
        then show "\<exists>s'. sp_steps s s' \<and> patient s s' \<and> quiet s'"
          using s1 sp_steps.step patient_trans by blast
      qed
    qed
  qed
  then show ?thesis using assms by blast
qed

section \<open>A torn heap ends the collections\<close>

definition torn_ok :: "sp_state \<Rightarrow> bool" where
  "torn_ok s \<longleftrightarrow> (torn s \<longrightarrow> coord_poisoned s \<or>
     (\<exists>t. coord s = Some t \<and> pcs s t \<in> {Drive_Panicking, Drive_Resumed_Panic}))"

lemma torn_ok_step:
  assumes st: "sp_step t s s'" and c: "coord_ok s" and tn: "torn_ok s"
  shows "torn_ok s'"
proof (cases "torn s")
  case False
  have h: "\<forall>p. pcs s t = p \<longrightarrow> (holds_coord p \<longleftrightarrow> coord s = Some t)" by (simp add: holds_coord_iff [OF c])
  show ?thesis
    using st h False by (cases rule: sp_step.cases)
      (auto simp: torn_ok_def sp_defs Let_def split: list.splits if_splits)
next
  case True
  show ?thesis
  proof (cases "coord_poisoned s")
    case True
    then show ?thesis using step_poison [OF st] by (simp add: torn_ok_def)
  next
    case False
    then obtain v where v: "coord s = Some v" "pcs s v \<in> {Drive_Panicking, Drive_Resumed_Panic}"
      using tn True by (auto simp: torn_ok_def)
    have h: "\<forall>p. pcs s t = p \<longrightarrow> (holds_coord p \<longleftrightarrow> v = t)" using holds_coord_iff [OF c, of t] v(1) by auto
    show ?thesis
      using st h v by (cases rule: sp_step.cases)
        (auto simp: torn_ok_def sp_defs Let_def split: list.splits if_splits)
  qed
qed

lemma torn_ok_reachable: "sp_reachable s \<Longrightarrow> torn_ok s"
proof (induction rule: sp_reachable.induct)
  case (start a)
  show ?case by (simp add: torn_ok_def sp_init_def)
next
  case (step s t s')
  have "coord_ok s" using sp_inv_reachable [OF step(1)] by (simp add: sp_inv_def)
  then show ?case using torn_ok_step step by blast
qed

lemma not_torn_collecting:
  assumes "sp_reachable s" "pcs s t = Drive_Collecting g others"
  shows "\<not> torn s"
proof
  assume "torn s"
  have c: "coord_ok s" using sp_inv_reachable [OF assms(1)] by (simp add: sp_inv_def)
  have "coord s = Some t" using holds_coord_iff [OF c, of t] assms(2) by simp
  moreover have "\<not> coord_poisoned s" using c calculation by (auto simp: coord_ok_def)
  ultimately show False
    using torn_ok_reachable [OF assms(1)] \<open>torn s\<close> assms(2) by (auto simp: torn_ok_def)
qed

section \<open>A run\<close>

text \<open>
  Thread 1 holds object 7, thread 0 drives a collection that moves every object by 8 bytes;
  thread 1 polls, parks and carries on.
\<close>

definition demo_addr :: "nat \<Rightarrow> u64" where
  "demo_addr x = of_nat (16 * x)"

definition demo_setup :: sp_state where
  "demo_setup =
     (let s = register_mutator 1 (register_mutator 0 (sp_init demo_addr))
      in s\<lparr>root_words := (root_words s)(1 := map (addr s) [7]), held := (held s)(1 := [7]),
           tlabs_live := (tlabs_live s)(1 := True)\<rparr>)"

definition demo_stop :: sp_state where
  "demo_stop = drive_stop 0 (drive_acquire 0 (drive_announce 0 (goto 0 Drive_Published (publish_roots 0 demo_setup))))"

definition demo_asleep :: sp_state where
  "demo_asleep = drive_wait 0 1 [0, 1] [1] (drive_wait 0 1 [0, 1] [0, 1] (drive_snapshot 0 1 demo_stop))"

definition demo_parked :: sp_state where
  "demo_parked = park_check 1 1 (park_announce 1 1
     (goto 1 (Poll_Published 1) (publish_roots 1 (poll_safepoint 1 demo_asleep))))"

definition demo_collecting :: sp_state where
  "demo_collecting = drive_wait 0 1 [0, 1] [] (drive_wait 0 1 [0, 1] [1] demo_parked)"

definition demo_resumed :: sp_state where
  "demo_resumed = finish_copy_back 1 (park_check 1 1 (release_coord 0 (resume_world 0 Drive_Resumed
     (drive_collect_ok 0 [0, 1] (\<lambda>w. w + 8) (\<lambda>x. demo_addr x + 8) demo_collecting))))"

lemmas demo_simps = sp_defs Let_def sp_init_def registry_snapshot_def List.map_filter_def must_wait_for_def
  copy_back_def

lemma demo_setup_eq:
  "demo_setup =
    \<lparr>epoch = 0, world_running = True, coord = None, coord_poisoned = False, torn = False, slots = [Some 0, Some 1],
     inner = (\<lambda>_. (inner_new 0)\<lparr>is_active := False\<rparr>)(0 := inner_new 0, 1 := inner_new 0),
     pcs = (\<lambda>_. Fresh)(0 := Running, 1 := Running), sleepers = {}, root_words = (\<lambda>_. [])(1 := [112]),
     tlabs_live = (\<lambda>_. False)(1 := True), held = (\<lambda>_. [])(1 := [7]), addr = demo_addr\<rparr>"
  by (simp add: demo_setup_def demo_simps demo_addr_def)

lemma demo_setup_reachable: "sp_reachable demo_setup"
proof -
  have 1: "sp_reachable (register_mutator 0 (sp_init demo_addr))"
    by (rule sp_reachable.step [OF sp_reachable.start sp_step.Register]) (simp_all add: sp_init_def)
  have 2: "sp_reachable (register_mutator 1 (register_mutator 0 (sp_init demo_addr)))"
    by (rule sp_reachable.step [OF 1 sp_step.Register]) (simp_all add: demo_simps)
  show ?thesis
    unfolding demo_setup_def Let_def
    by (rule sp_reachable.step [OF 2 sp_step.Mutate]) (simp add: demo_simps)
qed

lemma demo_stop_reachable: "sp_reachable demo_stop"
proof -
  have 1: "sp_reachable (goto 0 Drive_Published (publish_roots 0 demo_setup))"
    by (rule sp_reachable.step [OF demo_setup_reachable sp_step.Drive_Publish]) (simp add: demo_setup_eq)
  have 2: "sp_reachable (drive_announce 0 (goto 0 Drive_Published (publish_roots 0 demo_setup)))"
    by (rule sp_reachable.step [OF 1 sp_step.Announce]) (simp add: demo_simps)
  have 3: "sp_reachable (drive_acquire 0 (drive_announce 0 (goto 0 Drive_Published (publish_roots 0 demo_setup))))"
    by (rule sp_reachable.step [OF 2 sp_step.Acquire]) (simp_all add: demo_simps demo_setup_eq)
  show ?thesis
    unfolding demo_stop_def
    by (rule sp_reachable.step [OF 3 sp_step.Stop]) (simp add: demo_simps demo_setup_eq)
qed

lemma demo_stop_eq:
  "demo_stop =
    \<lparr>epoch = 1, world_running = False, coord = Some 0, coord_poisoned = False, torn = False,
     slots = [Some 0, Some 1],
     inner = (\<lambda>_. (inner_new 0)\<lparr>is_active := False\<rparr>)
       (0 := (inner_new 1)\<lparr>is_acting_coordinator := True\<rparr>, 1 := inner_new 0),
     pcs = (\<lambda>_. Fresh)(0 := Drive_Stopped 1, 1 := Running), sleepers = {}, root_words = (\<lambda>_. [])(1 := [112]),
     tlabs_live = (\<lambda>_. False)(1 := True), held = (\<lambda>_. [])(1 := [7]), addr = demo_addr\<rparr>"
  by (simp add: demo_stop_def demo_setup_eq demo_simps fun_upd_twist) (auto simp: fun_eq_iff)

lemma demo_asleep_eq:
  "demo_asleep = demo_stop\<lparr>pcs := (\<lambda>_. Fresh)(0 := Drive_Waiting 1 [0, 1] [1], 1 := Running), sleepers := {0}\<rparr>"
  by (simp add: demo_asleep_def demo_stop_eq demo_simps) (auto simp: fun_eq_iff)

lemma demo_asleep_reachable: "sp_reachable demo_asleep"
proof -
  have 1: "sp_reachable (drive_snapshot 0 1 demo_stop)"
    by (rule sp_reachable.step [OF demo_stop_reachable sp_step.Snapshot]) (simp add: demo_stop_eq)
  have 2: "sp_reachable (drive_wait 0 1 [0, 1] [0, 1] (drive_snapshot 0 1 demo_stop))"
    by (rule sp_reachable.step [OF 1 sp_step.Wait]) (simp_all add: demo_simps demo_stop_eq)
  show ?thesis
    unfolding demo_asleep_def
    by (rule sp_reachable.step [OF 2 sp_step.Wait]) (simp_all add: demo_simps demo_stop_eq)
qed

lemma demo_parked_eq:
  "demo_parked = demo_stop\<lparr>pcs := (\<lambda>_. Fresh)(0 := Drive_Waiting 1 [0, 1] [1], 1 := Parked 1), sleepers := {1},
     inner := (\<lambda>_. (inner_new 0)\<lparr>is_active := False\<rparr>)
       (0 := (inner_new 1)\<lparr>is_acting_coordinator := True\<rparr>, 1 := (inner_new 1)\<lparr>roots_snapshot := [112]\<rparr>),
     tlabs_live := (\<lambda>_. False)\<rparr>"
  by (simp add: demo_parked_def demo_asleep_eq demo_stop_eq demo_simps) (auto simp: fun_eq_iff)

lemma demo_parked_reachable: "sp_reachable demo_parked"
proof -
  have 1: "sp_reachable (poll_safepoint 1 demo_asleep)"
    by (rule sp_reachable.step [OF demo_asleep_reachable sp_step.Poll]) (simp add: demo_asleep_eq)
  have 2: "sp_reachable (goto 1 (Poll_Published 1) (publish_roots 1 (poll_safepoint 1 demo_asleep)))"
    by (rule sp_reachable.step [OF 1 sp_step.Poll_Publish]) (simp add: demo_simps demo_asleep_eq demo_stop_eq)
  have 3: "sp_reachable (park_announce 1 1 (goto 1 (Poll_Published 1) (publish_roots 1 (poll_safepoint 1 demo_asleep))))"
    by (rule sp_reachable.step [OF 2 sp_step.Park]) (simp add: demo_simps)
  show ?thesis
    unfolding demo_parked_def
    by (rule sp_reachable.step [OF 3 sp_step.Park_Check]) (simp_all add: demo_simps)
qed

lemma demo_collecting_eq: "demo_collecting = demo_parked\<lparr>pcs := (\<lambda>_. Fresh)(0 := Drive_Collecting 1 [0, 1], 1 := Parked 1)\<rparr>"
  by (simp add: demo_collecting_def demo_parked_eq demo_stop_eq demo_simps) (auto simp: fun_eq_iff)

lemma demo_collecting_reachable: "sp_reachable demo_collecting"
proof -
  have 1: "sp_reachable (drive_wait 0 1 [0, 1] [1] demo_parked)"
    by (rule sp_reachable.step [OF demo_parked_reachable sp_step.Wait]) (simp_all add: demo_parked_eq)
  show ?thesis
    unfolding demo_collecting_def
    by (rule sp_reachable.step [OF 1 sp_step.Wait]) (simp_all add: demo_simps demo_parked_eq demo_stop_eq)
qed

lemma demo_resumed_reachable: "sp_reachable demo_resumed"
proof -
  let ?c = "drive_collect_ok 0 [0, 1] (\<lambda>w. w + 8) (\<lambda>x. demo_addr x + 8) demo_collecting"
  note eqs = demo_simps demo_collecting_eq demo_parked_eq demo_stop_eq
  have 1: "sp_reachable ?c"
    by (rule sp_reachable.step [OF demo_collecting_reachable sp_step.Collect])
      (simp_all add: demo_collecting_eq demo_parked_eq demo_stop_eq)
  have 2: "sp_reachable (resume_world 0 Drive_Resumed ?c)"
    by (rule sp_reachable.step [OF 1 sp_step.Resume]) (simp add: demo_simps)
  have 3: "sp_reachable (release_coord 0 (resume_world 0 Drive_Resumed ?c))"
    by (rule sp_reachable.step [OF 2 sp_step.Release]) (simp add: demo_simps)
  have 4: "sp_reachable (park_check 1 1 (release_coord 0 (resume_world 0 Drive_Resumed ?c)))"
    by (rule sp_reachable.step [OF 3 sp_step.Park_Check]) (simp_all add: eqs)
  show ?thesis
    unfolding demo_resumed_def
    by (rule sp_reachable.step [OF 4 sp_step.Copy]) (simp add: eqs)
qed

section \<open>Properties\<close>

text \<open>
  C4. While a driver collects, the world is stopped: no other thread is at a place from which it
  may use the heap, no other thread holds the coordinator lock, every active mutator is in the
  driver's list, has no live allocation buffer, and its published snapshot names the present
  addresses of the objects it holds.
\<close>

theorem world_is_stopped:
  assumes "sp_reachable s" "pcs s t = Drive_Collecting g others"
  shows "(\<forall>u. \<not> in_world (pcs s u)) \<and> (\<forall>u. holds_coord (pcs s u) \<longleftrightarrow> u = t) \<and>
    (\<forall>u \<in> {u. is_active (inner s u)}. u \<in> set others \<and> \<not> tlabs_live s u \<and>
       roots_snapshot (inner s u) = map (addr s) (held s u))"
proof -
  note i = sp_inv_reachable [OF assms(1), unfolded sp_inv_def]
  have cy: "cycle_ok s t (pcs s t)" using i by (simp add: cycles_ok_def)
  have out: "\<not> in_world (pcs s u)" for u using cy assms(2) by simp
  have h: "holds_coord (pcs s u) \<longleftrightarrow> u = t" for u
    using holds_coord_iff [of s u] holds_coord_iff [of s t] i assms(2) by auto
  have "u \<in> set others \<and> \<not> tlabs_live s u \<and> roots_snapshot (inner s u) = map (addr s) (held s u)"
    if a: "is_active (inner s u)" for u
  proof -
    have p: "pcs s u \<notin> {Fresh, Dropped, Gone}" using a flags_okD [of s u] i by (simp add: flag_ok_def)
    have "pcs s u \<noteq> Unwound"
      using flag_unwound [of s u] coord_facts(2) [of s] coord_facts(3) [of s t] i assms(2) by auto
    then have "uses_snapshot (pcs s u)" using p out [of u] by (cases "pcs s u") simp_all
    moreover have "thread_root_ok s u"
      using i not_torn_collecting [OF assms] by (simp add: roots_ok_def)
    ultimately show ?thesis using cy assms(2) p by (simp add: root_ok_def)
  qed
  then show ?thesis using out h by blast
qed

theorem world_is_stopped_witness:
  "sp_reachable demo_collecting \<and> pcs demo_collecting 0 = Drive_Collecting 1 [0, 1] \<and>
   pcs demo_collecting 1 = Parked 1 \<and> roots_snapshot (inner demo_collecting 1) = [demo_addr 7]"
proof -
  have p: "pcs demo_collecting 0 = Drive_Collecting 1 [0, 1]" "pcs demo_collecting 1 = Parked 1"
    "is_active (inner demo_collecting 1)" "held demo_collecting 1 = [7]" "addr demo_collecting = demo_addr"
    by (simp_all add: demo_collecting_eq demo_parked_eq demo_stop_eq inner_new_def)
  show ?thesis
    using world_is_stopped [OF demo_collecting_reachable p(1)] p demo_collecting_reachable by simp
qed

text \<open>
  C5. No wake-up is lost. A thread asleep on the condition variable is there for a reason that
  still holds: a parked mutator or one returning from native code because the world is
  stopped (and its epoch is the current one), a driver because the mutator it waits for has
  not arrived. So the driver's time-out is never what ends a wait.
\<close>

theorem no_lost_wakeup:
  assumes "sp_reachable s" "t \<in> sleepers s"
  shows "still_blocked s (pcs s t)"
  using sp_inv_reachable [OF assms(1)] assms(2) by (simp add: sp_inv_def sleepers_ok_def)

theorem no_lost_wakeup_witness:
  "sp_reachable demo_asleep \<and> 0 \<in> sleepers demo_asleep \<and> still_blocked demo_asleep (pcs demo_asleep 0)"
proof -
  have "0 \<in> sleepers demo_asleep" by (simp add: demo_asleep_eq)
  then show ?thesis using no_lost_wakeup [OF demo_asleep_reachable] demo_asleep_reachable by simp
qed

text \<open>
  C6. Roots are up to date. Unless a collection has panicked, a thread that runs managed code
  finds in its root slots the present addresses of the objects it holds, however many
  collections have moved them while it was parked, in native code or waiting to drive.
\<close>

theorem running_roots_current:
  assumes "sp_reachable s" "\<not> torn s" "pcs s t = Running"
  shows "root_words s t = map (addr s) (held s t)"
proof -
  have "thread_root_ok s t"
    using sp_inv_reachable [OF assms(1)] assms(2) by (simp add: sp_inv_def roots_ok_def)
  then show ?thesis using assms(3) by (simp add: root_ok_def)
qed

theorem running_roots_current_witness:
  "sp_reachable demo_resumed \<and> root_words demo_resumed 1 = [demo_addr 7 + 8] \<and> demo_addr 7 + 8 \<noteq> demo_addr 7"
proof -
  have p: "\<not> torn demo_resumed" "pcs demo_resumed 1 = Running" "held demo_resumed 1 = [7]"
    "addr demo_resumed = (\<lambda>x. demo_addr x + 8)"
    by (simp_all add: demo_resumed_def demo_simps demo_collecting_eq demo_parked_eq demo_stop_eq)
  show ?thesis
    using running_roots_current [OF demo_resumed_reachable p(1,2)] p demo_resumed_reachable by simp
qed

text \<open>
  C7. The protocol always settles. From every reachable state there is a run to a state in which
  no collection is under way and every thread runs, is in native code, has been unwound by a
  panic or is gone; in that run nobody panics, leaves or arrives who had not begun to.
\<close>

theorem protocol_settles:
  assumes "sp_reachable s"
  shows "\<exists>s'. sp_steps s s' \<and> patient s s' \<and> quiet s'"
  by (rule settles [OF sp_inv_reachable [OF assms]])

theorem protocol_settles_witness:
  "sp_reachable demo_asleep \<and> pcs demo_asleep 0 = Drive_Waiting 1 [0, 1] [1] \<and>
   (\<exists>s'. sp_steps demo_asleep s' \<and> patient demo_asleep s' \<and> quiet s')"
  using protocol_settles [OF demo_asleep_reachable] demo_asleep_reachable by (simp add: demo_asleep_eq)

end
