(* ===== verification/Lisp_Reader.thy ===== *)
theory Lisp_Reader
  imports GC_Prelude
begin

text \<open>
  The reader of the test Lisp (\<^verbatim>\<open>newgc-test-lisp/src/reader.rs\<close>): source bytes to S-expressions.
  A \<open>reader\<close> is what is left of the source and the offset reached, so \<open>peek\<close> and \<open>advance\<close> look at
  the first byte; a Rust \<^verbatim>\<open>String\<close> is its bytes. An error ends the reading. Recursion terminates
  because every expression read consumes at least one byte.
\<close>

section \<open>Data\<close>

datatype sexp =
  S_Number i64
| S_Bool bool
| S_Nil
| S_String "u8 list"
| S_Symbol "u8 list"
| S_List "sexp list"

datatype read_error =
  Unexpected_EOF | Unexpected_Close nat | Unterminated_List | Unterminated_String
| Unterminated_Escape | Unknown_Hash u8 | Unterminated_Hash | Empty_Token nat | Bad_Utf8

datatype reader = Reader (rest: "u8 list") (pos: nat)

text \<open>The bytes with a meaning: newline, space, the brackets, the quotes and so on.\<close>

abbreviation B_NL :: u8 where "B_NL \<equiv> 10"
abbreviation B_TAB :: u8 where "B_TAB \<equiv> 9"
abbreviation B_SPACE :: u8 where "B_SPACE \<equiv> 32"
abbreviation B_DQUOTE :: u8 where "B_DQUOTE \<equiv> 34"
abbreviation B_HASH :: u8 where "B_HASH \<equiv> 35"
abbreviation B_QUOTE :: u8 where "B_QUOTE \<equiv> 39"
abbreviation B_OPEN :: u8 where "B_OPEN \<equiv> 40"
abbreviation B_CLOSE :: u8 where "B_CLOSE \<equiv> 41"
abbreviation B_PLUS :: u8 where "B_PLUS \<equiv> 43"
abbreviation B_MINUS :: u8 where "B_MINUS \<equiv> 45"
abbreviation B_SEMI :: u8 where "B_SEMI \<equiv> 59"
abbreviation B_BACKSLASH :: u8 where "B_BACKSLASH \<equiv> 92"
abbreviation B_f :: u8 where "B_f \<equiv> 102"
abbreviation B_n :: u8 where "B_n \<equiv> 110"
abbreviation B_t :: u8 where "B_t \<equiv> 116"

definition name_nil :: "u8 list" where "name_nil = [110, 105, 108]"
definition name_quote :: "u8 list" where "name_quote = [113, 117, 111, 116, 101]"

section \<open>Standard library\<close>

definition is_ascii_whitespace :: "u8 \<Rightarrow> bool" where
  "is_ascii_whitespace b \<longleftrightarrow> b = B_SPACE \<or> b = B_TAB \<or> b = B_NL \<or> b = 12 \<or> b = 13"

definition is_ascii_digit :: "u8 \<Rightarrow> bool" where
  "is_ascii_digit b \<longleftrightarrow> 48 \<le> b \<and> b \<le> 57"

text \<open>\<open>str::from_utf8\<close> checks the well-formed sequences of the Unicode standard.\<close>

definition utf8_cont :: "u8 \<Rightarrow> bool" where
  "utf8_cont b \<longleftrightarrow> 0x80 \<le> b \<and> b \<le> 0xBF"

definition utf8_lead3 :: "u8 \<Rightarrow> u8 \<Rightarrow> bool" where
  "utf8_lead3 b c \<longleftrightarrow> (b = 0xE0 \<and> 0xA0 \<le> c \<and> c \<le> 0xBF) \<or> (0xE1 \<le> b \<and> b \<le> 0xEC \<and> utf8_cont c) \<or>
     (b = 0xED \<and> 0x80 \<le> c \<and> c \<le> 0x9F) \<or> (0xEE \<le> b \<and> b \<le> 0xEF \<and> utf8_cont c)"

definition utf8_lead4 :: "u8 \<Rightarrow> u8 \<Rightarrow> bool" where
  "utf8_lead4 b c \<longleftrightarrow> (b = 0xF0 \<and> 0x90 \<le> c \<and> c \<le> 0xBF) \<or> (0xF1 \<le> b \<and> b \<le> 0xF3 \<and> utf8_cont c) \<or>
     (b = 0xF4 \<and> 0x80 \<le> c \<and> c \<le> 0x8F)"

fun valid_utf8 :: "u8 list \<Rightarrow> bool" where
  "valid_utf8 [] = True"
| "valid_utf8 (b # bs) =
     (if b < 0x80 then valid_utf8 bs
      else (case bs of
              [] \<Rightarrow> False
            | c1 # bs1 \<Rightarrow>
                if 0xC2 \<le> b \<and> b \<le> 0xDF then utf8_cont c1 \<and> valid_utf8 bs1
                else (case bs1 of
                        [] \<Rightarrow> False
                      | c2 # bs2 \<Rightarrow>
                          if utf8_lead3 b c1 then utf8_cont c2 \<and> valid_utf8 bs2
                          else (case bs2 of
                                  [] \<Rightarrow> False
                                | c3 # bs3 \<Rightarrow> utf8_lead4 b c1 \<and> utf8_cont c2 \<and> utf8_cont c3 \<and> valid_utf8 bs3))))"

definition from_utf8 :: "u8 list \<Rightarrow> read_error + u8 list" where
  "from_utf8 buf = (if valid_utf8 buf then Inr buf else Inl Bad_Utf8)"

text \<open>\<open>parse::<i64>\<close>: an optional sign, at least one digit, no overflow.\<close>

fun digits_value :: "nat \<Rightarrow> u8 list \<Rightarrow> nat option" where
  "digits_value n [] = Some n"
| "digits_value n (b # bs) =
     (if is_ascii_digit b then digits_value (10 * n + unat (b - 48)) bs else None)"

definition parse_i64 :: "u8 list \<Rightarrow> i64 option" where
  "parse_i64 text =
     (let (negative, digits) =
            (case text of
               [] \<Rightarrow> (False, [])
             | b # bs \<Rightarrow> if b = B_MINUS then (True, bs) else if b = B_PLUS then (False, bs) else (False, b # bs))
      in if digits = [] then None
         else (case digits_value 0 digits of
                 None \<Rightarrow> None
               | Some n \<Rightarrow>
                   if negative then (if n \<le> 2 ^ 63 then Some (- of_nat n) else None)
                   else (if n < 2 ^ 63 then Some (of_nat n) else None)))"

section \<open>Tokens\<close>

fun peek :: "reader \<Rightarrow> u8 option" where
  "peek (Reader [] p) = None"
| "peek (Reader (b # bs) p) = Some b"

fun advance :: "reader \<Rightarrow> reader" where
  "advance (Reader [] p) = Reader [] p"
| "advance (Reader (b # bs) p) = Reader bs (p + 1)"

function skip_line :: "reader \<Rightarrow> reader" where
  "skip_line (Reader [] p) = Reader [] p"
| "skip_line (Reader (b # bs) p) = (if b = B_NL then Reader bs (p + 1) else skip_line (Reader bs (p + 1)))"
  by (metis reader.exhaust list.exhaust) auto
termination
  by (relation "measure (\<lambda>r. length (rest r))") auto

lemma skip_line_shorter: "length (rest (skip_line r)) \<le> length (rest r)"
  by (induction r rule: skip_line.induct) auto

lemmas skip_line_le = skip_line_shorter [of "Reader bs p" for bs p, simplified]

function skip_ws_and_comments :: "reader \<Rightarrow> reader" where
  "skip_ws_and_comments (Reader [] p) = Reader [] p"
| "skip_ws_and_comments (Reader (b # bs) p) =
     (if is_ascii_whitespace b then skip_ws_and_comments (Reader bs (p + 1))
      else if b = B_SEMI then skip_ws_and_comments (skip_line (Reader (b # bs) p))
      else Reader (b # bs) p)"
  by (metis reader.exhaust list.exhaust) auto
termination
  by (relation "measure (\<lambda>r. length (rest r))") (auto simp: le_imp_less_Suc skip_line_le)

definition is_delimiter :: "u8 \<Rightarrow> bool" where
  "is_delimiter b \<longleftrightarrow> is_ascii_whitespace b \<or> b = B_OPEN \<or> b = B_CLOSE \<or> b = B_SEMI"

function read_atom_bytes :: "reader \<Rightarrow> u8 list \<times> reader" where
  "read_atom_bytes (Reader [] p) = ([], Reader [] p)"
| "read_atom_bytes (Reader (b # bs) p) =
     (if is_delimiter b then ([], Reader (b # bs) p)
      else (let (buf, r) = read_atom_bytes (Reader bs (p + 1)) in (b # buf, r)))"
  by (metis reader.exhaust list.exhaust) auto
termination
  by (relation "measure (\<lambda>r. length (rest r))") auto

definition read_number_or_symbol :: "reader \<Rightarrow> read_error + sexp \<times> reader" where
  "read_number_or_symbol r =
     (let (bytes, r) = read_atom_bytes r in
      bind_res (from_utf8 bytes)
        (\<lambda>text. Inr (case parse_i64 text of Some n \<Rightarrow> S_Number n | None \<Rightarrow> S_Symbol text, r)))"

definition read_symbol :: "reader \<Rightarrow> read_error + sexp \<times> reader" where
  "read_symbol r =
     (let (bytes, r) = read_atom_bytes r in
      if bytes = [] then Inl (Empty_Token (pos r))
      else bind_res (from_utf8 bytes)
             (\<lambda>text. Inr (if text = name_nil then S_Nil else S_Symbol text, r)))"

text \<open>The loop of \<open>read_string\<close>, after the opening quote.\<close>

function string_loop :: "u8 list \<Rightarrow> reader \<Rightarrow> read_error + sexp \<times> reader" where
  "string_loop buf (Reader [] p) = Inl Unterminated_String"
| "string_loop buf (Reader (b # bs) p) =
     (if b = B_DQUOTE then bind_res (from_utf8 buf) (\<lambda>text. Inr (S_String text, Reader bs (p + 1)))
      else if b = B_BACKSLASH
      then (case bs of
              [] \<Rightarrow> Inl Unterminated_Escape
            | c # cs \<Rightarrow>
                string_loop (buf @ [if c = B_n then B_NL else if c = B_t then B_TAB else c]) (Reader cs (p + 2)))
      else string_loop (buf @ [b]) (Reader bs (p + 1)))"
  by (metis reader.exhaust list.exhaust surj_pair) auto
termination
  by (relation "measure (\<lambda>(buf, r). length (rest r))") auto

definition read_string :: "reader \<Rightarrow> read_error + sexp \<times> reader" where
  "read_string r = string_loop [] (advance r)"

definition read_hash :: "reader \<Rightarrow> read_error + sexp \<times> reader" where
  "read_hash r =
     (let r = advance r in
      case peek r of
        None \<Rightarrow> Inl Unterminated_Hash
      | Some c \<Rightarrow>
          if c = B_t then Inr (S_Bool True, advance r)
          else if c = B_f then Inr (S_Bool False, advance r)
          else Inl (Unknown_Hash c))"

text \<open>What each token leaves is shorter than what it was given.\<close>

lemma skip_shorter: "length (rest (skip_ws_and_comments r)) \<le> length (rest r)"
  by (induction r rule: skip_ws_and_comments.induct)
    (auto intro: le_SucI le_trans [OF _ skip_line_le])

lemma peek_advance: "peek r = Some b \<Longrightarrow> length (rest r) = Suc (length (rest (advance r)))"
  by (cases r rule: peek.cases) auto

lemma read_atom_rest:
  "read_atom_bytes r = (buf, r') \<Longrightarrow> length (rest r) = length buf + length (rest r')"
  by (induction r arbitrary: buf r' rule: read_atom_bytes.induct) (auto split: if_splits prod.splits)

lemma read_atom_shorter:
  assumes "read_atom_bytes r = (buf, r')" "peek r = Some b" "\<not> is_delimiter b"
  shows "length (rest r') < length (rest r)"
  using assms by (cases r rule: peek.cases) (auto split: prod.splits dest: read_atom_rest)

lemma string_loop_shorter:
  "string_loop buf r = Inr (x, r') \<Longrightarrow> length (rest r') < length (rest r)"
  by (induction buf r rule: string_loop.induct)
    (auto simp: bind_res_Inr intro: less_SucI split: if_splits list.splits)

lemma read_hash_shorter: "read_hash r = Inr (x, r') \<Longrightarrow> peek r = Some b \<Longrightarrow> length (rest r') < length (rest r)"
  by (auto simp: read_hash_def Let_def peek_advance split: option.splits if_splits)

section \<open>Expressions\<close>

function read_expr :: "reader \<Rightarrow> read_error + sexp \<times> reader"
  and read_items :: "reader \<Rightarrow> sexp list \<Rightarrow> read_error + sexp \<times> reader" where
  "read_expr r0 =
     (let r = skip_ws_and_comments r0 in
      case peek r of
        None \<Rightarrow> Inl Unexpected_EOF
      | Some b \<Rightarrow>
          if b = B_OPEN then read_items (advance r) []
          else if b = B_CLOSE then Inl (Unexpected_Close (pos r))
          else if b = B_DQUOTE then read_string r
          else if b = B_QUOTE
          then bind_res (read_expr (advance r)) (\<lambda>(inner, r). Inr (S_List [S_Symbol name_quote, inner], r))
          else if b = B_HASH then read_hash r
          else if b = B_MINUS \<or> is_ascii_digit b then read_number_or_symbol r
          else read_symbol r)"
| "read_items r0 items =
     (let r = skip_ws_and_comments r0 in
      case peek r of
        None \<Rightarrow> Inl Unterminated_List
      | Some b \<Rightarrow>
          if b = B_CLOSE then Inr (if items = [] then S_Nil else S_List items, advance r)
          else bind_res (read_expr r) (\<lambda>(x, r). read_items r (items @ [x])))"
  by pat_completeness auto

lemma skip_stops: "peek (skip_ws_and_comments r) = Some b \<Longrightarrow> \<not> is_ascii_whitespace b \<and> b \<noteq> B_SEMI"
  by (induction r rule: skip_ws_and_comments.induct) (auto split: if_splits)

text \<open>One step of each, whatever the recursive calls return, as long as that is shorter.\<close>

lemma expr_step:
  assumes r: "r = skip_ws_and_comments r0" and b: "peek r = Some b"
    and eq: "(if b = B_OPEN then items_result
          else if b = B_CLOSE then Inl (Unexpected_Close (pos r))
          else if b = B_DQUOTE then read_string r
          else if b = B_QUOTE
          then bind_res quoted (\<lambda>(inner, r). Inr (S_List [S_Symbol name_quote, inner], r))
          else if b = B_HASH then read_hash r
          else if b = B_MINUS \<or> is_ascii_digit b then read_number_or_symbol r
          else read_symbol r) = Inr (x, r')"
    and i: "\<And>x r'. b = B_OPEN \<Longrightarrow> items_result = Inr (x, r') \<Longrightarrow> length (rest r') < length (rest (advance r))"
    and e: "\<And>x r'. b = B_QUOTE \<Longrightarrow> quoted = Inr (x, r') \<Longrightarrow> length (rest r') < length (rest (advance r))"
  shows "length (rest r') < length (rest r0)"
proof -
  have le: "length (rest r) \<le> length (rest r0)" by (simp add: r skip_shorter)
  have nd: "\<not> is_ascii_whitespace b" "b \<noteq> B_SEMI" using skip_stops [of r0 b] b by (simp_all add: r)
  note adv = peek_advance [OF b]
  have atom: "length (rest r1) < length (rest r)" if "read_atom_bytes r = (buf, r1)" "b \<noteq> B_OPEN" "b \<noteq> B_CLOSE" for buf r1
    by (rule read_atom_shorter [OF that(1) b]) (use that nd in \<open>simp add: is_delimiter_def\<close>)
  consider (op) "b = B_OPEN" | (str) "b = B_DQUOTE" | (quote) "b = B_QUOTE" | (hash) "b = B_HASH"
    | (num) "b \<noteq> B_OPEN" "b \<noteq> B_CLOSE" "read_number_or_symbol r = Inr (x, r')"
    | (sym) "b \<noteq> B_OPEN" "b \<noteq> B_CLOSE" "read_symbol r = Inr (x, r')"
    using eq by (auto split: if_splits)
  then have "length (rest r') < length (rest r)"
  proof cases
    case op
    then show ?thesis using eq i adv by fastforce
  next
    case str
    then have "string_loop [] (advance r) = Inr (x, r')" using eq by (simp add: read_string_def)
    from string_loop_shorter [OF this] show ?thesis using adv by simp
  next
    case quote
    then obtain y where "quoted = Inr (y, r')" using eq by (auto simp: bind_res_Inr)
    from e [OF quote this] show ?thesis using adv by simp
  next
    case hash
    then show ?thesis using eq read_hash_shorter [OF _ b] by simp
  next
    case num
    obtain buf r1 where r1: "read_atom_bytes r = (buf, r1)" by fastforce
    show ?thesis using num atom [OF r1] by (auto simp: read_number_or_symbol_def r1 bind_res_Inr)
  next
    case sym
    obtain buf r1 where r1: "read_atom_bytes r = (buf, r1)" by fastforce
    show ?thesis using sym atom [OF r1] by (auto simp: read_symbol_def r1 bind_res_Inr split: if_splits)
  qed
  then show ?thesis using le by simp
qed

lemma items_step:
  assumes r: "r = skip_ws_and_comments r0" and b: "peek r = Some b"
    and eq: "(if b = B_CLOSE then Inr (if items = [] then S_Nil else S_List items, advance r)
          else bind_res expr_result (\<lambda>(x, r). next_items x r)) = Inr (x, r')"
    and e: "\<And>y r1. b \<noteq> B_CLOSE \<Longrightarrow> expr_result = Inr (y, r1) \<Longrightarrow>
        length (rest r1) < length (rest r) \<and> (next_items y r1 = Inr (x, r') \<longrightarrow> length (rest r') < length (rest r1))"
  shows "length (rest r') < length (rest r0)"
  using eq e peek_advance [OF b] skip_shorter [of r0]
  by (fastforce simp: r bind_res_Inr split: if_splits)

lemma read_shorter:
  shows "read_expr_read_items_dom (Inl r) \<Longrightarrow> read_expr r = Inr (x, r') \<Longrightarrow> length (rest r') < length (rest r)"
    and "read_expr_read_items_dom (Inr (r, items)) \<Longrightarrow> read_items r items = Inr (x, r') \<Longrightarrow> length (rest r') < length (rest r)"
proof (induction r and r items arbitrary: x r' and x r' rule: read_expr_read_items.pinduct)
  case (1 r0)
  note eq = "1.prems" [unfolded read_expr.psimps [OF "1.hyps"] Let_def]
  obtain b where b: "peek (skip_ws_and_comments r0) = Some b" using eq by (auto split: option.splits)
  show ?case
    by (rule expr_step [OF refl b eq [unfolded b option.case]]) (use "1.IH" [OF refl b] in \<open>simp_all\<close>)
next
  case (2 r0 items)
  note eq = "2.prems" [unfolded read_items.psimps [OF "2.hyps"] Let_def]
  obtain b where b: "peek (skip_ws_and_comments r0) = Some b" using eq by (auto split: option.splits)
  show ?case
    by (rule items_step [OF refl b eq [unfolded b option.case]]) (use "2.IH" [OF refl b] in \<open>simp_all\<close>)
qed

termination read_expr
proof (relation "measure (case_sum (\<lambda>r. 2 * length (rest r)) (\<lambda>(r, items). 2 * length (rest r) + 1))", goal_cases)
  case (2 r0 r b)
  then show ?case using peek_advance [of r b] skip_shorter [of r0] by simp
next
  case (3 r0 r b)
  then show ?case using peek_advance [of r b] skip_shorter [of r0] by simp
next
  case (4 r0 items r b)
  then show ?case using skip_shorter [of r0] by simp
next
  case (5 r0 items r b y x r1)
  then show ?case using skip_shorter [of r0] read_shorter(1) [of r x r1] by auto
qed simp

declare read_expr.simps [simp del] read_items.simps [simp del]

lemma read_expr_shorter:
  shows "read_expr r = Inr (x, r') \<Longrightarrow> length (rest r') < length (rest r)"
    and "read_items r items = Inr (x, r') \<Longrightarrow> length (rest r') < length (rest r)"
proof (induction r and r items arbitrary: x r' and x r' rule: read_expr_read_items.induct)
  case (1 r0)
  note eq = "1.prems" [unfolded read_expr.simps [of r0] Let_def]
  obtain b where b: "peek (skip_ws_and_comments r0) = Some b" using eq by (auto split: option.splits)
  show ?case
    by (rule expr_step [OF refl b eq [unfolded b option.case]]) (use "1.IH" [OF refl b] in \<open>simp_all\<close>)
next
  case (2 r0 items)
  note eq = "2.prems" [unfolded read_items.simps [of r0] Let_def]
  obtain b where b: "peek (skip_ws_and_comments r0) = Some b" using eq by (auto split: option.splits)
  show ?case
    by (rule items_step [OF refl b eq [unfolded b option.case]]) (use "2.IH" [OF refl b] in \<open>simp_all\<close>)
qed

definition read_one :: "reader \<Rightarrow> read_error + sexp option \<times> reader" where
  "read_one r =
     (let r = skip_ws_and_comments r in
      if peek r = None then Inr (None, r)
      else bind_res (read_expr r) (\<lambda>(x, r). Inr (Some x, r)))"

lemma read_one_shorter: "read_one r = Inr (Some x, r') \<Longrightarrow> length (rest r') < length (rest r)"
  using skip_shorter [of r] read_expr_shorter(1) [of "skip_ws_and_comments r"]
  by (auto simp: read_one_def Let_def bind_res_Inr split: if_splits intro: less_le_trans)

function read_forms :: "sexp list \<Rightarrow> reader \<Rightarrow> read_error + sexp list" where
  "read_forms out r =
     (case read_one r of
        Inl e \<Rightarrow> Inl e
      | Inr (None, r) \<Rightarrow> Inr out
      | Inr (Some s, r) \<Rightarrow> read_forms (out @ [s]) r)"
  by pat_completeness auto
termination
  by (relation "measure (\<lambda>(out, r). length (rest r))") (auto simp: read_one_shorter)

declare read_forms.simps [simp del]

definition read_all :: "u8 list \<Rightarrow> read_error + sexp list" where
  "read_all src = read_forms [] (Reader src 0)"

section \<open>Printing\<close>

text \<open>A printer, as the reference the reader is compared with.\<close>

fun decimal :: "nat \<Rightarrow> u8 list" where
  "decimal n = (if n < 10 then [48 + of_nat n] else decimal (n div 10) @ [48 + of_nat (n mod 10)])"

declare decimal.simps [simp del]

definition print_i64 :: "i64 \<Rightarrow> u8 list" where
  "print_i64 w = (if sint w < 0 then B_MINUS # decimal (nat (- sint w)) else decimal (nat (sint w)))"

definition escape :: "u8 \<Rightarrow> u8 list" where
  "escape b = (if b = B_DQUOTE \<or> b = B_BACKSLASH then [B_BACKSLASH, b] else [b])"

fun print_sexp :: "sexp \<Rightarrow> u8 list" and print_items :: "sexp list \<Rightarrow> u8 list" where
  "print_sexp (S_Number n) = print_i64 n"
| "print_sexp (S_Bool b) = [B_HASH, if b then B_t else B_f]"
| "print_sexp S_Nil = name_nil"
| "print_sexp (S_String s) = B_DQUOTE # concat (map escape s) @ [B_DQUOTE]"
| "print_sexp (S_Symbol s) = s"
| "print_sexp (S_List xs) = B_OPEN # print_items xs"
| "print_items [] = [B_CLOSE]"
| "print_items (x # xs) = print_sexp x @ (if xs = [] then [] else [B_SPACE]) @ print_items xs"

definition print_all :: "sexp list \<Rightarrow> u8 list" where
  "print_all xs = concat (map (\<lambda>x. print_sexp x @ [B_NL]) xs)"

text \<open>The trees with a notation: symbols that read as themselves, no empty list node.\<close>

definition symbol_ok :: "u8 list \<Rightarrow> bool" where
  "symbol_ok s \<longleftrightarrow> s \<noteq> [] \<and> s \<noteq> name_nil \<and> valid_utf8 s \<and> (\<forall>b \<in> set s. \<not> is_delimiter b) \<and>
     hd s \<notin> {B_DQUOTE, B_QUOTE, B_HASH} \<and>
     (hd s = B_MINUS \<or> is_ascii_digit (hd s) \<longrightarrow> parse_i64 s = None)"

fun readable :: "sexp \<Rightarrow> bool" where
  "readable (S_String s) = valid_utf8 s"
| "readable (S_Symbol s) = symbol_ok s"
| "readable (S_List xs) = (xs \<noteq> [] \<and> (\<forall>x \<in> set xs. readable x))"
| "readable _ = True"

section \<open>Reading what was printed\<close>

definition at_end :: "u8 list \<Rightarrow> bool" where
  "at_end bs \<longleftrightarrow> bs = [] \<or> is_delimiter (hd bs)"

lemma read_atom_append:
  "\<forall>b \<in> set a. \<not> is_delimiter b \<Longrightarrow> at_end bs \<Longrightarrow>
     read_atom_bytes (Reader (a @ bs) p) = (a, Reader bs (p + length a))"
  by (induction a arbitrary: p) (cases bs; auto simp: at_end_def)+

lemma digit_at [simp]:
  assumes "n < 10"
  shows "unat (of_nat n :: u8) = n" "is_ascii_digit (48 + of_nat n)"
proof -
  have "unat (of_nat (48 + n) :: u8) = 48 + n" unfolding unat_of_nat using assms by simp
  then show "is_ascii_digit (48 + of_nat n)"
    using assms by (simp add: is_ascii_digit_def word_le_nat_alt)
  show "unat (of_nat n :: u8) = n" using assms by (simp add: unat_of_nat)
qed

lemma digits_value_append: "digits_value n (a @ b) = Option.bind (digits_value n a) (\<lambda>m. digits_value m b)"
  by (induction n a rule: digits_value.induct) simp_all

lemma digits_value_decimal: "digits_value 0 (decimal n) = Some n"
proof (induction n rule: decimal.induct)
  case (1 n)
  show ?case
  proof (cases "n < 10")
    case True
    then show ?thesis by (simp add: decimal.simps [of n])
  next
    case False
    then show ?thesis using 1 by (simp add: decimal.simps [of n] digits_value_append)
  qed
qed

lemma decimal_digits: "b \<in> set (decimal n) \<Longrightarrow> is_ascii_digit b"
proof (induction n rule: decimal.induct)
  case (1 n)
  then show ?case by (cases "n < 10") (auto simp: decimal.simps [of n])
qed

lemma decimal_nonempty [simp]: "decimal n \<noteq> []"
  by (simp add: decimal.simps [of n])


lemma digit_facts: "is_ascii_digit b \<Longrightarrow> \<not> is_delimiter b \<and> b \<noteq> B_DQUOTE \<and> b \<noteq> B_QUOTE \<and> b \<noteq> B_HASH \<and>
    b \<noteq> B_OPEN \<and> b \<noteq> B_CLOSE \<and> b \<noteq> B_SEMI \<and> b \<noteq> B_MINUS \<and> b \<noteq> B_PLUS \<and> \<not> is_ascii_whitespace b \<and> b < 0x80"
  by (auto simp: is_ascii_digit_def is_delimiter_def is_ascii_whitespace_def intro: le_less_trans)

lemma print_i64_bytes: "b \<in> set (print_i64 n) \<Longrightarrow> is_ascii_digit b \<or> b = B_MINUS"
  by (auto simp: print_i64_def dest: decimal_digits split: if_splits)

lemma valid_utf8_ascii: "\<forall>b \<in> set bs. b < 0x80 \<Longrightarrow> valid_utf8 bs"
  by (induction bs) simp_all

lemma parse_print: "parse_i64 (print_i64 n) = Some n"
proof (cases "sint n < 0")
  case True
  have "- (2 ^ 63) \<le> sint n" using sint_ge [of n] by simp
  then have le: "nat (- sint n) \<le> 2 ^ 63" by (simp add: nat_le_iff)
  have "of_nat (nat (- sint n)) = (- n :: i64)" using True by (subst of_nat_nat) simp_all
  then show ?thesis using True le by (simp add: parse_i64_def print_i64_def digits_value_decimal)
next
  case False
  have lt: "nat (sint n) < 2 ^ 63" using sint_lt [of n] by simp
  obtain d ds where d: "decimal (nat (sint n)) = d # ds" by (cases "decimal (nat (sint n))") simp_all
  have "d \<noteq> B_MINUS" "d \<noteq> B_PLUS" using decimal_digits [of d "nat (sint n)"] digit_facts [of d] by (auto simp: d)
  moreover have "of_nat (nat (sint n)) = (n :: i64)" using False by (subst of_nat_nat) simp_all
  ultimately show ?thesis
    using False lt digits_value_decimal [of "nat (sint n)"] by (simp add: parse_i64_def print_i64_def d)
qed

lemma string_loop_print:
  "string_loop buf (Reader (concat (map escape s) @ B_DQUOTE # bs) p) =
     bind_res (from_utf8 (buf @ s)) (\<lambda>text. Inr (S_String text, Reader bs (p + length (concat (map escape s)) + 1)))"
proof (induction s arbitrary: buf p)
  case (Cons b s)
  then show ?case by (cases "b = B_DQUOTE \<or> b = B_BACKSLASH") (auto simp: escape_def)
qed simp

lemma print_head:
  "readable x \<Longrightarrow> \<exists>b bs. print_sexp x = b # bs \<and> \<not> is_ascii_whitespace b \<and> b \<noteq> B_SEMI \<and> b \<noteq> B_CLOSE"
proof (cases x)
  case (S_Number n)
  obtain b bs where b: "print_i64 n = b # bs" by (cases "print_i64 n") (auto simp: print_i64_def split: if_splits)
  then have "is_ascii_digit b \<or> b = B_MINUS" using print_i64_bytes [of b n] by simp
  then show ?thesis using digit_facts [of b] by (auto simp: S_Number b is_ascii_whitespace_def)
next
  case (S_Symbol s)
  assume "readable x"
  then show ?thesis by (cases s) (auto simp: S_Symbol symbol_ok_def is_delimiter_def)
qed (auto simp: is_ascii_whitespace_def name_nil_def)

lemma skip_none [simp]: "\<not> is_ascii_whitespace b \<Longrightarrow> b \<noteq> B_SEMI \<Longrightarrow>
    skip_ws_and_comments (Reader (b # bs) p) = Reader (b # bs) p"
  by simp

lemma read_atom_token:
  assumes "a = b # a'" "\<forall>c \<in> set a. \<not> is_delimiter c" "at_end bs" "valid_utf8 a" "b \<notin> {B_DQUOTE, B_QUOTE, B_HASH}"
  shows "read_expr (Reader (a @ bs) p) =
    Inr (if b = B_MINUS \<or> is_ascii_digit b then case parse_i64 a of Some n \<Rightarrow> S_Number n | None \<Rightarrow> S_Symbol a
         else if a = name_nil then S_Nil else S_Symbol a, Reader bs (p + length a))"
proof -
  have b: "\<not> is_ascii_whitespace b" "b \<noteq> B_SEMI" "b \<noteq> B_OPEN" "b \<noteq> B_CLOSE"
    using assms(1,2) by (auto simp: is_delimiter_def)
  have r: "read_atom_bytes (Reader (a @ bs) p) = (a, Reader bs (p + length a))"
    by (rule read_atom_append [OF assms(2,3)])
  have e: "read_expr (Reader (a @ bs) p) =
      (if b = B_MINUS \<or> is_ascii_digit b then read_number_or_symbol (Reader (a @ bs) p) else read_symbol (Reader (a @ bs) p))"
    using b assms(5) by (subst read_expr.simps) (simp add: assms(1))
  have ne: "a \<noteq> []" by (simp add: assms(1))
  have utf8: "from_utf8 a = Inr a" using assms(4) by (simp only: from_utf8_def if_True)
  show ?thesis
    unfolding e read_number_or_symbol_def read_symbol_def r Let_def prod.case utf8 using ne by simp
qed

lemma at_end_space [simp]: "at_end (B_SPACE # bs)" "at_end (B_CLOSE # bs)" "at_end (B_NL # bs)" "at_end []"
  by (simp_all add: at_end_def is_delimiter_def is_ascii_whitespace_def)

lemma skip_space [simp]:
  "skip_ws_and_comments (Reader (B_SPACE # bs) p) = skip_ws_and_comments (Reader bs (p + 1))"
  "skip_ws_and_comments (Reader (B_NL # bs) p) = skip_ws_and_comments (Reader bs (p + 1))"
  by (simp_all add: is_ascii_whitespace_def)

lemma read_items_space: "read_items (Reader (B_SPACE # bs) p) items = read_items (Reader bs (p + 1)) items"
  by (subst (1 2) read_items.simps) (simp only: skip_space)

lemma read_print:
  shows "readable x \<Longrightarrow> at_end bs \<Longrightarrow>
      read_expr (Reader (print_sexp x @ bs) p) = Inr (x, Reader bs (p + length (print_sexp x)))"
    and "\<forall>x \<in> set xs. readable x \<Longrightarrow> items @ xs \<noteq> [] \<Longrightarrow>
      read_items (Reader (print_items xs @ bs) p) items = Inr (S_List (items @ xs), Reader bs (p + length (print_items xs)))"
proof (induction x and xs arbitrary: bs p and bs p items rule: print_sexp_print_items.induct)
  case (1 n)
  obtain b a where b: "print_i64 n = b # a" by (cases "print_i64 n") (auto simp: print_i64_def split: if_splits)
  have all: "c \<in> set (print_i64 n) \<Longrightarrow> \<not> is_delimiter c \<and> c < 0x80 \<and> c \<notin> {B_DQUOTE, B_QUOTE, B_HASH}" for c
    using print_i64_bytes [of c n] digit_facts [of c] by (auto simp: is_delimiter_def is_ascii_whitespace_def)
  have "b = B_MINUS \<or> is_ascii_digit b" using print_i64_bytes [of b n] by (auto simp: b)
  moreover have "read_expr (Reader (print_i64 n @ bs) p) =
    Inr (if b = B_MINUS \<or> is_ascii_digit b then case parse_i64 (print_i64 n) of Some n \<Rightarrow> S_Number n | None \<Rightarrow> S_Symbol (print_i64 n)
         else if print_i64 n = name_nil then S_Nil else S_Symbol (print_i64 n), Reader bs (p + length (print_i64 n)))"
    by (rule read_atom_token [OF b _ 1(2)]) (use all b in \<open>auto intro: valid_utf8_ascii\<close>)
  ultimately show ?case by (simp add: parse_print)
next
  case (2 b)
  show ?case by (subst read_expr.simps) (simp add: is_ascii_whitespace_def read_hash_def)
next
  case 3
  have "read_expr (Reader (name_nil @ bs) p) =
    Inr (if 110 = B_MINUS \<or> is_ascii_digit 110 then case parse_i64 name_nil of Some n \<Rightarrow> S_Number n | None \<Rightarrow> S_Symbol name_nil
         else if name_nil = name_nil then S_Nil else S_Symbol name_nil, Reader bs (p + length name_nil))"
    by (rule read_atom_token [OF name_nil_def _ 3(2)]) (simp_all add: name_nil_def is_delimiter_def is_ascii_whitespace_def)
  then show ?case by (simp add: is_ascii_digit_def)
next
  case (4 s)
  show ?case
    using 4 string_loop_print [of "[]" s bs "p + 1"]
    by (subst read_expr.simps) (simp add: is_ascii_whitespace_def read_string_def from_utf8_def)
next
  case (5 s)
  then have ok: "symbol_ok s" by simp
  then obtain b a where b: "s = b # a" by (cases s) (auto simp: symbol_ok_def)
  have "read_expr (Reader (s @ bs) p) =
    Inr (if b = B_MINUS \<or> is_ascii_digit b then case parse_i64 s of Some n \<Rightarrow> S_Number n | None \<Rightarrow> S_Symbol s
         else if s = name_nil then S_Nil else S_Symbol s, Reader bs (p + length s))"
    by (rule read_atom_token [OF b _ 5(2)]) (use ok b in \<open>auto simp: symbol_ok_def\<close>)
  then show ?case using ok by (auto simp: symbol_ok_def b)
next
  case (6 xs)
  then show ?case by (subst read_expr.simps) (simp add: is_ascii_whitespace_def)
next
  case 7
  then show ?case by (subst read_items.simps) (simp add: is_ascii_whitespace_def)
next
  case (8 x xs)
  define tail where "tail = (if xs = [] then [] else [B_SPACE]) @ print_items xs @ bs"
  have x: "readable x" and xs: "\<forall>x \<in> set xs. readable x" using 8(3) by simp_all
  obtain b a where b: "print_sexp x = b # a" "\<not> is_ascii_whitespace b" "b \<noteq> B_SEMI" "b \<noteq> B_CLOSE"
    using print_head [OF x] by blast
  have "at_end tail" by (cases xs) (simp_all add: tail_def)
  from 8(1) [OF x this, of p]
  have 1: "read_expr (Reader (print_sexp x @ tail) p) = Inr (x, Reader tail (p + length (print_sexp x)))" .
  have "read_items (Reader (print_sexp x @ tail) p) items = read_items (Reader tail (p + length (print_sexp x))) (items @ [x])"
    using b 1 by (subst read_items.simps) simp
  also have "\<dots> = Inr (S_List (items @ x # xs), Reader bs (p + length (print_items (x # xs))))"
    using 8(2) [OF xs, of "items @ [x]"] by (cases xs) (simp_all add: tail_def read_items_space)
  finally show ?case by (simp add: tail_def)
qed

lemma read_forms_print:
  "\<forall>x \<in> set xs. readable x \<Longrightarrow> read_forms out (Reader (print_all xs) p) = Inr (out @ xs)"
proof (induction xs arbitrary: out p)
  case Nil
  then show ?case by (subst read_forms.simps) (simp add: read_one_def print_all_def)
next
  case (Cons x xs)
  have x: "readable x" using Cons.prems by simp
  obtain b a where b: "print_sexp x = b # a" "\<not> is_ascii_whitespace b" "b \<noteq> B_SEMI" using print_head [OF x] by blast
  have all: "print_all (x # xs) = print_sexp x @ B_NL # print_all xs" by (simp add: print_all_def)
  have "read_one (Reader (print_all (x # xs)) p) = Inr (Some x, Reader (B_NL # print_all xs) (p + length (print_sexp x)))"
    using read_print(1) [OF x at_end_space(3), of "print_all xs" p] b by (simp add: read_one_def all)
  then have "read_forms out (Reader (print_all (x # xs)) p) =
      read_forms (out @ [x]) (Reader (B_NL # print_all xs) (p + length (print_sexp x)))"
    by (subst read_forms.simps) simp
  also have "\<dots> = read_forms (out @ [x]) (Reader (print_all xs) (p + length (print_sexp x) + 1))"
    by (subst (1 2) read_forms.simps) (simp only: read_one_def skip_space)
  finally show ?case using Cons.IH Cons.prems by simp
qed

section \<open>What the reader returns\<close>

lemma read_atom_clean: "read_atom_bytes r = (buf, r') \<Longrightarrow> \<forall>b \<in> set buf. \<not> is_delimiter b"
  by (induction r arbitrary: buf r' rule: read_atom_bytes.induct) (auto split: if_splits prod.splits)

lemma read_atom_first: "read_atom_bytes r = (buf, r') \<Longrightarrow> peek r = Some b \<Longrightarrow> buf \<noteq> [] \<Longrightarrow> hd buf = b"
  by (cases r rule: peek.cases) (auto split: if_splits prod.splits)

lemma from_utf8_Inr: "from_utf8 buf = Inr text \<longleftrightarrow> text = buf \<and> valid_utf8 buf"
  by (auto simp: from_utf8_def)

lemma symbol_readable:
  assumes r: "read_symbol r = Inr (x, r')" and b: "peek r = Some b"
    and n: "b \<notin> {B_DQUOTE, B_QUOTE, B_HASH, B_MINUS}" "\<not> is_ascii_digit b"
  shows "readable x"
proof -
  obtain buf r1 where 1: "read_atom_bytes r = (buf, r1)" by fastforce
  have buf: "buf \<noteq> []" "valid_utf8 buf" "x = (if buf = name_nil then S_Nil else S_Symbol buf)"
    using r by (auto simp: read_symbol_def 1 bind_res_Inr from_utf8_Inr split: if_splits)
  show ?thesis
    using buf n read_atom_first [OF 1 b buf(1)] read_atom_clean [OF 1] by (simp add: symbol_ok_def)
qed

lemma number_readable:
  assumes r: "read_number_or_symbol r = Inr (x, r')" and b: "peek r = Some b" "\<not> is_delimiter b"
    and n: "b = B_MINUS \<or> is_ascii_digit b"
  shows "readable x"
proof -
  obtain buf r1 where 1: "read_atom_bytes r = (buf, r1)" by fastforce
  have buf: "valid_utf8 buf" "x = (case parse_i64 buf of Some n \<Rightarrow> S_Number n | None \<Rightarrow> S_Symbol buf)"
    using r by (auto simp: read_number_or_symbol_def 1 bind_res_Inr from_utf8_Inr)
  have ne: "buf \<noteq> []" using 1 b by (cases r rule: peek.cases) (auto split: prod.splits)
  have hd: "hd buf = b" by (rule read_atom_first [OF 1 b(1) ne])
  have "b \<notin> {B_DQUOTE, B_QUOTE, B_HASH}" "b \<noteq> hd name_nil"
    using n digit_facts [of b] by (auto simp: name_nil_def is_ascii_digit_def)
  then show ?thesis
    using buf hd ne read_atom_clean [OF 1] by (cases "parse_i64 buf") (auto simp: symbol_ok_def)
qed

lemma string_readable: "string_loop buf r = Inr (x, r') \<Longrightarrow> readable x"
proof (induction buf r rule: string_loop.induct)
  case (2 buf b bs p)
  show ?case
  proof (cases "b = B_DQUOTE")
    case True
    then show ?thesis using "2.prems" by (auto simp: bind_res_Inr from_utf8_Inr)
  next
    case q: False
    show ?thesis
    proof (cases "b = B_BACKSLASH")
      case True
      then show ?thesis using "2.prems" "2.IH"(1) q by (cases bs) auto
    next
      case False
      then show ?thesis using "2.prems" "2.IH"(2) q by simp
    qed
  qed
qed simp

lemma read_readable:
  shows "read_expr r = Inr (x, r') \<Longrightarrow> readable x"
    and "read_items r items = Inr (x, r') \<Longrightarrow> \<forall>y \<in> set items. readable y \<Longrightarrow> readable x"
proof (induction r and r items arbitrary: x r' and x r' rule: read_expr_read_items.induct)
  case (1 r0)
  define r where "r = skip_ws_and_comments r0"
  note eq = "1.prems" [unfolded read_expr.simps [of r0] Let_def, folded r_def]
  obtain b where b: "peek r = Some b" using eq by (auto split: option.splits)
  have nd: "\<not> is_ascii_whitespace b" "b \<noteq> B_SEMI" using skip_stops [of r0 b] b by (simp_all add: r_def)
  note eq' = eq [unfolded b option.case]
  consider (op) "b = B_OPEN" | (str) "b = B_DQUOTE" | (quote) "b = B_QUOTE" | (hash) "b = B_HASH"
    | (num) "b = B_MINUS \<or> is_ascii_digit b" "b \<noteq> B_OPEN" "b \<noteq> B_CLOSE" "read_number_or_symbol r = Inr (x, r')"
    | (sym) "b \<notin> {B_DQUOTE, B_QUOTE, B_HASH, B_MINUS}" "\<not> is_ascii_digit b" "read_symbol r = Inr (x, r')"
    using eq' by (auto split: if_splits)
  then show ?case
  proof cases
    case op
    then have "read_items (advance r) [] = Inr (x, r')" using eq' by simp
    from "1.IH"(1) [OF r_def b op this] show ?thesis by simp
  next
    case str
    then show ?thesis using eq' string_readable by (auto simp: read_string_def)
  next
    case quote
    then obtain y where y: "read_expr (advance r) = Inr (y, r')" and x: "x = S_List [S_Symbol name_quote, y]"
      using eq' by (auto simp: bind_res_Inr)
    have "symbol_ok name_quote"
      by (simp add: symbol_ok_def name_quote_def name_nil_def is_delimiter_def is_ascii_whitespace_def is_ascii_digit_def)
    then show ?thesis using "1.IH"(2) [OF r_def b _ _ _ quote y] quote by (simp add: x)
  next
    case hash
    then show ?thesis using eq' by (auto simp: read_hash_def Let_def split: option.splits if_splits)
  next
    case num
    have "\<not> is_delimiter b" using num(2,3) nd by (simp add: is_delimiter_def)
    then show ?thesis by (rule number_readable [OF num(4) b _ num(1)])
  next
    case sym
    then show ?thesis by (intro symbol_readable [OF sym(3) b])
  qed
next
  case (2 r0 items)
  define r where "r = skip_ws_and_comments r0"
  note eq = "2.prems"(1) [unfolded read_items.simps [of r0] Let_def, folded r_def]
  obtain b where b: "peek r = Some b" using eq by (auto split: option.splits)
  show ?case
  proof (cases "b = B_CLOSE")
    case True
    then show ?thesis using eq "2.prems"(2) by (auto simp: b split: if_splits)
  next
    case False
    obtain y r1 where y: "read_expr r = Inr (y, r1)" and more: "read_items r1 (items @ [y]) = Inr (x, r')"
      using eq False by (auto simp: b bind_res_Inr)
    have "readable y" by (rule "2.IH"(1) [OF r_def b False y])
    then show ?thesis using "2.IH"(2) [OF r_def b False y refl more] "2.prems"(2) by auto
  qed
qed

lemma read_forms_readable:
  "read_forms out r = Inr xs \<Longrightarrow> \<forall>x \<in> set out. readable x \<Longrightarrow> \<forall>x \<in> set xs. readable x"
proof (induction out r arbitrary: xs rule: read_forms.induct)
  case (1 out r)
  obtain o' r' where 2: "read_one r = Inr (o', r')"
    using "1.prems"(1) by (subst (asm) read_forms.simps) (auto split: sum.splits)
  show ?case
  proof (cases o')
    case None
    then show ?thesis using 1(2,3) 2 by (subst (asm) read_forms.simps) simp
  next
    case (Some x)
    have x: "readable x"
      using 2 read_readable(1) by (auto simp: Some read_one_def Let_def bind_res_Inr split: if_splits)
    have "read_forms (out @ [x]) r' = Inr xs"
      using 1(2) 2 Some by (subst (asm) read_forms.simps) simp
    then show ?thesis using "1.IH" [of "(o', r')" o' r' x] x "1.prems"(2) 2 Some by auto
  qed
qed

section \<open>Properties\<close>

text \<open>
  C30. The reader inverts a printer. A list of trees is what some source text reads as exactly when
  every tree has a notation (no empty list node, symbols that are no number, not \<open>nil\<close> and free of
  delimiters, text in UTF-8), and then the printed trees read back as themselves: reading what was
  printed of any text that reads at all changes nothing.
\<close>

theorem reader_inverts_printer:
  "(read_all (print_all xs) = Inr xs) = list_all readable xs \<and>
   ((\<exists>src. read_all src = Inr xs) = list_all readable xs)"
  using read_forms_print [of xs "[]" 0] read_forms_readable [of "[]" _ xs]
  by (auto simp: read_all_def list_all_iff)

end
