(* ===== verification/Lisp_Value.thy ===== *)
theory Lisp_Value
  imports Cycle Lisp_Reader
begin

text \<open>
  The values of the test Lisp and their place in the heap (\<^verbatim>\<open>newgc-test-lisp/src/value.rs\<close>), for an
  interpreter that owns its heap (\<^verbatim>\<open>Heap::Direct\<close>). A raw pointer \<open>p\<close> into the reservation is read
  through its cell index; \<open>None\<close> is a panic. Cells are stored little-endian, as on the supported
  targets.
\<close>

section \<open>Values\<close>

datatype lisp_value =
  V_Number i64
| V_Bool bool
| V_Nil
| V_Symbol "u8 list"
| V_Pair u64
| V_Vector u64
| V_Str u64

fun heap_word :: "lisp_value \<Rightarrow> u64 option" where
  "heap_word (V_Pair w) = Some w"
| "heap_word (V_Vector w) = Some w"
| "heap_word (V_Str w) = Some w"
| "heap_word _ = None"

fun is_truthy :: "lisp_value \<Rightarrow> bool" where
  "is_truthy (V_Bool False) = False"
| "is_truthy V_Nil = False"
| "is_truthy _ = True"

text \<open>An immediate, or the tagged pointer the value carries; a symbol has no heap encoding.\<close>

fun value_to_word :: "lisp_value \<Rightarrow> u64 option" where
  "value_to_word (V_Number n) = Some (fixnum n)"
| "value_to_word (V_Bool b) = Some (if b then word_T else word_NIL)"
| "value_to_word V_Nil = Some word_NIL"
| "value_to_word (V_Symbol _) = None"
| "value_to_word (V_Pair w) = Some w"
| "value_to_word (V_Vector w) = Some w"
| "value_to_word (V_Str w) = Some w"

definition word_to_value :: "u64 \<Rightarrow> lisp_value option" where
  "word_to_value w =
     (case word_tag w of
        Tag_Fixnum \<Rightarrow> map_option V_Number (as_fixnum w)
      | Tag_Cons \<Rightarrow> Some (V_Pair w)
      | Tag_Vector \<Rightarrow> Some (V_Vector w)
      | Tag_String \<Rightarrow> Some (V_Str w)
      | Tag_Immediate \<Rightarrow> Some (if is_t w then V_Bool True else V_Nil)
      | Tag_Symbol \<Rightarrow> Some V_Nil
      | Tag_Function \<Rightarrow> Some V_Nil
      | Tag_Forward \<Rightarrow> None)"

section \<open>Memory\<close>

definition ptr_read :: "page_heap \<Rightarrow> u64 \<Rightarrow> nat \<Rightarrow> u64" where
  "ptr_read h p i = cells h (cell_index h p + i)"

definition ptr_write :: "page_heap \<Rightarrow> u64 \<Rightarrow> nat \<Rightarrow> u64 \<Rightarrow> page_heap" where
  "ptr_write h p i w = h\<lparr>cells := (cells h)(cell_index h p + i := w)\<rparr>"

definition payload_ptr :: "u64 \<Rightarrow> u64" where
  "payload_ptr w = w AND PAYLOAD_MASK"

section \<open>Allocation\<close>

definition alloc_pair :: "page_heap \<Rightarrow> lisp_value \<Rightarrow> lisp_value \<Rightarrow> (u64 \<times> page_heap) option" where
  "alloc_pair h car cdr =
     (case try_alloc_cons_in h G0 of
        Some (Some p, h) \<Rightarrow>
          (case (value_to_word car, value_to_word cdr) of
             (Some car_word, Some cdr_word) \<Rightarrow>
               (let h = mark_card_at (ptr_write (ptr_write h p 0 car_word) p 1 cdr_word) p
                in Some (word_from_ptr p Tag_Cons, h))
           | _ \<Rightarrow> None)
      | _ \<Rightarrow> None)"

definition alloc_vector :: "page_heap \<Rightarrow> u32 \<Rightarrow> lisp_value \<Rightarrow> (u64 \<times> page_heap) option" where
  "alloc_vector h n_payload init =
     (let total = unat (1 + n_payload) in
      case try_alloc_boxed_in h G0 total of
        Some (Some p, h) \<Rightarrow>
          (case value_to_word init of
             Some init_word \<Rightarrow>
               (let h = ptr_write h p 0 (header_new HT_Vector n_payload);
                    h = fold (\<lambda>i h. ptr_write h p i init_word) [1..<unat n_payload + 1] h
                in Some (word_from_ptr p Tag_Vector, h))
           | None \<Rightarrow> None)
      | _ \<Rightarrow> None)"

fun le_word :: "u8 list \<Rightarrow> u64" where
  "le_word [] = 0"
| "le_word (b # bs) = ucast b OR push_bit 8 (le_word bs)"

definition alloc_string :: "page_heap \<Rightarrow> u8 list \<Rightarrow> (u64 \<times> page_heap) option" where
  "alloc_string h bytes =
     (let payload_cells = div_ceil (length bytes) 8; total = 1 + payload_cells in
      case try_alloc_boxed_in h G0 total of
        Some (Some p, h) \<Rightarrow>
          (let h = ptr_write h p 0 (header_new HT_String (of_nat payload_cells));
               h = fold (\<lambda>i h. ptr_write h p i (le_word (take 8 (drop (8 * (i - 1)) bytes)))) [1..<payload_cells + 1] h
           in Some (word_from_ptr p Tag_String, h))
      | _ \<Rightarrow> None)"

section \<open>Access\<close>

definition pair_car :: "page_heap \<Rightarrow> u64 \<Rightarrow> lisp_value option" where
  "pair_car h w = word_to_value (ptr_read h (payload_ptr w) 0)"

definition pair_cdr :: "page_heap \<Rightarrow> u64 \<Rightarrow> lisp_value option" where
  "pair_cdr h w = word_to_value (ptr_read h (payload_ptr w) 1)"

definition vector_len :: "page_heap \<Rightarrow> u64 \<Rightarrow> nat" where
  "vector_len h w = unat (header_length_cells (ptr_read h (payload_ptr w) 0))"

definition vector_ref :: "page_heap \<Rightarrow> u64 \<Rightarrow> nat \<Rightarrow> lisp_value option" where
  "vector_ref h w idx =
     (if idx \<ge> vector_len h w then None else word_to_value (ptr_read h (payload_ptr w) (1 + idx)))"

definition vector_set :: "page_heap \<Rightarrow> u64 \<Rightarrow> nat \<Rightarrow> lisp_value \<Rightarrow> page_heap option" where
  "vector_set h w idx v =
     (if idx \<ge> vector_len h w then None
      else map_option
             (\<lambda>raw. let p = payload_ptr w in mark_card_at (ptr_write h p (1 + idx) raw) (p + of_nat (8 * (1 + idx))))
             (value_to_word v))"

definition cell_bytes :: "u64 \<Rightarrow> u8 list" where
  "cell_bytes w = map (\<lambda>i. ucast (drop_bit (8 * i) w)) [0..<8]"

definition string_bytes :: "page_heap \<Rightarrow> u64 \<Rightarrow> u8 list" where
  "string_bytes h w =
     (let p = payload_ptr w;
          payload_cells = unat (header_length_cells (ptr_read h p 0));
          bytes = concat (map (\<lambda>i. cell_bytes (ptr_read h p (1 + i))) [0..<payload_cells])
      in rev (dropWhile (\<lambda>b. b = 0) (rev bytes)))"

definition string_len :: "page_heap \<Rightarrow> u64 \<Rightarrow> nat" where
  "string_len h w = length (string_bytes h w)"

text \<open>The walk of \<open>list_length\<close>: the outer \<open>None\<close> is a panic or a walk that does not end.\<close>

partial_function (option) list_length :: "page_heap \<Rightarrow> nat \<Rightarrow> lisp_value \<Rightarrow> nat option option" where
  "list_length h n cur =
     (case cur of
        V_Pair p \<Rightarrow> Option.bind (pair_cdr h p) (list_length h (n + 1))
      | V_Nil \<Rightarrow> Some (Some n)
      | _ \<Rightarrow> Some None)"

section \<open>What a stored value reads back as\<close>

text \<open>
  A value of the interpreter: the tag of a heap value is that of its pointer, a number fits a
  fixnum, and it is no symbol.
\<close>

fun storable :: "lisp_value \<Rightarrow> bool" where
  "storable (V_Number n) = (FIXNUM_MIN \<le> sint n \<and> sint n \<le> FIXNUM_MAX)"
| "storable (V_Symbol _) = False"
| "storable (V_Pair w) = (word_tag w = Tag_Cons)"
| "storable (V_Vector w) = (word_tag w = Tag_Vector)"
| "storable (V_Str w) = (word_tag w = Tag_String)"
| "storable _ = True"

text \<open>False and nil share one word.\<close>

fun reads_as :: "lisp_value \<Rightarrow> lisp_value" where
  "reads_as (V_Bool False) = V_Nil"
| "reads_as v = v"

lemma word_to_value_of:
  assumes "storable v"
  shows "\<exists>w. value_to_word v = Some w \<and> word_to_value w = Some (reads_as v)"
proof (cases v)
  case (V_Number n)
  then have "try_fixnum n = Some (fixnum n)" using assms by (simp add: try_fixnum_def fixnum_def)
  moreover have "as_fixnum (fixnum n) = Some n" using assms V_Number by (simp add: fixnum_def as_fixnum_push)
  ultimately show ?thesis by (simp add: V_Number word_to_value_def fixnum_def)
next
  case (V_Bool b)
  have "word_tag word_T = Tag_Immediate" "word_tag word_NIL = Tag_Immediate" "is_t word_T" "\<not> is_t word_NIL"
    by (simp_all add: word_T_code word_NIL_code word_tag_def tag_from_bits_def is_t_def TAG_MASK_def)
  then show ?thesis by (cases b) (simp_all add: V_Bool word_to_value_def)
next
  case V_Nil
  have "word_tag word_NIL = Tag_Immediate" "\<not> is_t word_NIL"
    by (simp_all add: word_T_code word_NIL_code word_tag_def tag_from_bits_def is_t_def TAG_MASK_def)
  then show ?thesis by (simp add: V_Nil word_to_value_def)
qed (use assms in \<open>simp_all add: word_to_value_def\<close>)

section \<open>A fresh object\<close>

lemma mark_card_cell:
  assumes "reservation_ok h" "c < total_cells_of h"
  shows "mark_card_at h (cell_addr h c) = h\<lparr>cards := mark_offset (cards h) (8 * c)\<rparr>"
proof -
  note lt = cell_in_reservation [OF assms(2)]
  have "unat (cell_addr h c) = unat (base_ptr h) + 8 * c"
    unfolding cell_addr_def by (rule unat_base_offset [OF assms(1) lt])
  then show ?thesis using lt by (simp add: mark_card_at_def)
qed

lemma card_marked:
  assumes "reservation_ok h" "c < total_cells_of h" "n_cards ct = n_cards (cards h)"
  shows "is_dirty (mark_offset ct (8 * c)) (c div CARD_SIZE_CELLS)"
proof -
  have "c < n_pages h * 8192" using assms(2) by (simp add: total_cells_of_def PAGE_SIZE_CELLS_num)
  then have "c < (n_pages h * 128) * 64" by simp
  then have "c div 64 < n_pages h * 128" by (simp only: div_less_iff_less_mult)
  moreover have "8 * c div CARD_SIZE_BYTES = c div CARD_SIZE_CELLS"
    by (simp add: CARD_SIZE_BYTES_def CARD_SIZE_CELLS_def)
  ultimately show ?thesis
    using assms(1,3)
    by (simp add: is_dirty_mark_offset reservation_ok_def cards_per_page_def PAGE_SIZE_CELLS_num CARD_SIZE_BYTES_def
        CARD_SIZE_CELLS_def)
qed

text \<open>Filling the cells of a granted block keeps the allocator's invariant and every older cell.\<close>

lemma block_written:
  assumes g: "grants h h1 c n" and ok: "alloc_ok h1" and ct: "n_cards ct = n_cards (cards h1)"
    and m: "\<And>x. x < c \<or> c + n \<le> x \<Longrightarrow> m x = cells h1 x"
  shows "alloc_ok (h1\<lparr>cells := m, cards := ct\<rparr>)" "cell_used h x \<Longrightarrow> m x = cells h x"
    "cell_used (h1\<lparr>cells := m, cards := ct\<rparr>) x \<longleftrightarrow> cell_used h x \<or> c \<le> x \<and> x < c + n"
proof -
  have u: "cell_used h1 x \<longleftrightarrow> cell_used h x \<or> c \<le> x \<and> x < c + n" for x using g by (simp add: grants_def)
  show "alloc_ok (h1\<lparr>cells := m, cards := ct\<rparr>)"
  proof (rule alloc_ok_cells [OF ok _ ct])
    show "m x = cells h1 x" if "\<not> cell_used h1 x" for x using m [of x] that u [of x] by (simp add: not_le not_less)
  qed
  show "m x = cells h x" if "cell_used h x"
  proof -
    have "\<not> (c \<le> x \<and> x < c + n)" "cells h1 x = cells h x" using g that by (auto simp: grants_def)
    then show ?thesis using m [of x] by simp linarith
  qed
  show "cell_used (h1\<lparr>cells := m, cards := ct\<rparr>) x \<longleftrightarrow> cell_used h x \<or> c \<le> x \<and> x < c + n"
    using u [of x] by (simp add: cell_used_def)
qed

lemma tagged_address:
  assumes "reservation_ok h"
  shows "payload_ptr (word_from_ptr (cell_addr h c) t) = cell_addr h c" "word_tag (word_from_ptr (cell_addr h c) t) = t"
proof -
  have a: "cell_addr h c AND TAG_MASK = 0" using cell_addr_aligned [OF assms] by (simp add: TAG_MASK_def)
  show "payload_ptr (word_from_ptr (cell_addr h c) t) = cell_addr h c"
    by (simp add: payload_ptr_def word_from_ptr_def payload_or_tag [OF a])
  show "word_tag (word_from_ptr (cell_addr h c) t) = t"
    by (simp add: word_tag_def word_from_ptr_def tag_from_bits_or [OF a])
qed

lemma alloc_pair_eval:
  assumes ok: "alloc_ok h" and s: "storable car" "storable cdr" and a: "alloc_pair h car cdr = Some (w, h')"
  obtains c h1 x y where "grants h h1 c 2" "alloc_ok h1" "value_to_word car = Some x" "value_to_word cdr = Some y"
    "h' = h1\<lparr>cells := (cells h1)(c := x, c + 1 := y), cards := mark_offset (cards h1) (8 * c)\<rparr>"
    "w = word_from_ptr (cell_addr h1 c) Tag_Cons"
proof -
  obtain x y where v: "value_to_word car = Some x" "value_to_word cdr = Some y"
    using word_to_value_of [OF s(1)] word_to_value_of [OF s(2)] by blast
  obtain p h1 where t: "try_alloc_in_region h G0 Kind_Cons 2 True = Some (Some p, h1)"
    and w: "w = word_from_ptr p Tag_Cons" and h': "h' = mark_card_at (ptr_write (ptr_write h1 p 0 x) p 1 y) p"
    using a v by (auto simp: alloc_pair_def try_alloc_cons_in_def Let_def split: option.splits prod.splits)
  note o = try_alloc_in_region_ok [OF ok _ t, simplified]
  obtain c where c: "p = cell_addr h c" "grants h h1 c 2" using o by blast
  have ok1: "alloc_ok h1" using o by blast
  have b: "cell_addr h c = cell_addr h1 c" "c + 2 \<le> total_cells_of h1"
    using c(2) by (simp_all add: grants_def cell_addr_def total_cells_of_def)
  note r1 = alloc_okD(1) [OF ok1]
  have i: "cell_index h1 p = c" using cell_index_addr [OF r1, of c] b by (simp add: c(1))
  define m where "m = (cells h1)(c := x, c + 1 := y)"
  have w2: "ptr_write (ptr_write h1 p 0 x) p 1 y = h1\<lparr>cells := m\<rparr>"
    using i by (simp add: ptr_write_def cell_index_def m_def)
  have r2: "reservation_ok (h1\<lparr>cells := m\<rparr>)"
  proof -
    have "alloc_ok (h1\<lparr>cells := m, cards := cards h1\<rparr>)"
      by (rule block_written(1) [OF c(2) ok1]) (auto simp: m_def)
    then show ?thesis using alloc_okD(1) by simp
  qed
  have "mark_card_at (h1\<lparr>cells := m\<rparr>) (cell_addr (h1\<lparr>cells := m\<rparr>) c) =
      h1\<lparr>cells := m, cards := mark_offset (cards h1) (8 * c)\<rparr>"
    using mark_card_cell [OF r2, of c] b(2) by (simp add: total_cells_of_def)
  moreover have "p = cell_addr (h1\<lparr>cells := m\<rparr>) c" by (simp add: c(1) b(1)) (simp add: cell_addr_def)
  ultimately have "h' = h1\<lparr>cells := m, cards := mark_offset (cards h1) (8 * c)\<rparr>" unfolding h' w2 by simp
  then show ?thesis using that [OF c(2) ok1 v] w c(1) b(1) by (simp add: m_def)
qed

section \<open>Properties\<close>

text \<open>
  C29. A pair reads back what was stored: on a heap that satisfies the allocator's invariant the
  pointer \<open>alloc_pair\<close> returns is a cons whose car and cdr are the values given, with false read as
  nil; the invariant is kept, no cell in use changes, and the card of the new pair is dirty, so
  a minor cycle that promoted its target in the meantime still finds it.
\<close>

theorem pair_reads_back:
  assumes "alloc_ok h" "storable car" "storable cdr" "alloc_pair h car cdr = Some (w, h')"
  shows "word_tag w = Tag_Cons \<and> pair_car h' w = Some (reads_as car) \<and> pair_cdr h' w = Some (reads_as cdr) \<and>
    alloc_ok h' \<and> (\<forall>x. cell_used h x \<longrightarrow> cell_used h' x \<and> cells h' x = cells h x) \<and>
    is_dirty (cards h') (cell_index h' (payload_ptr w) div CARD_SIZE_CELLS)"
proof -
  obtain c h1 x y where g: "grants h h1 c 2" "alloc_ok h1" and v: "value_to_word car = Some x" "value_to_word cdr = Some y"
    and h': "h' = h1\<lparr>cells := (cells h1)(c := x, c + 1 := y), cards := mark_offset (cards h1) (8 * c)\<rparr>"
    and w: "w = word_from_ptr (cell_addr h1 c) Tag_Cons"
    by (rule alloc_pair_eval [OF assms])
  note r = alloc_okD(1) [OF g(2)]
  have c: "c < total_cells_of h1" using g(1) by (simp add: grants_def total_cells_of_def)
  have p: "payload_ptr w = cell_addr h1 c" "word_tag w = Tag_Cons" unfolding w by (rule tagged_address [OF r])+
  have i: "cell_index h' (payload_ptr w) = c"
    using cell_index_addr [OF r c] by (simp add: p h' cell_index_def)
  define m where "m = (cells h1)(c := x, c + 1 := y)"
  have n: "n_cards (mark_offset (cards h1) (8 * c)) = n_cards (cards h1)"
    and out: "z < c \<or> c + 2 \<le> z \<Longrightarrow> m z = cells h1 z" for z
    by (auto simp: m_def)
  have hm: "h' = h1\<lparr>cells := m, cards := mark_offset (cards h1) (8 * c)\<rparr>" by (simp add: h' m_def)
  have cells: "cells h' = (cells h1)(c := x, c + 1 := y)" by (simp add: h')
  have "pair_car h' w = word_to_value x" "pair_cdr h' w = word_to_value y"
    by (simp_all add: pair_car_def pair_cdr_def ptr_read_def i cells)
  then have "pair_car h' w = Some (reads_as car)" "pair_cdr h' w = Some (reads_as cdr)"
    using word_to_value_of [OF assms(2)] word_to_value_of [OF assms(3)] v by simp_all
  moreover have "alloc_ok h'" "cell_used h z \<Longrightarrow> cell_used h' z \<and> cells h' z = cells h z" for z
    unfolding hm using block_written [of h h1 c 2 _ m, OF g n out] by simp_all
  moreover have "is_dirty (cards h') (c div CARD_SIZE_CELLS)"
    using card_marked [OF r c, of "cards h1"] by (simp add: h')
  ultimately show ?thesis using p i by simp
qed

theorem pair_reads_back_witness:
  "\<exists>w h'. alloc_pair (with_reservation 65536 (\<lambda>_. True) 131072) (V_Number 5) (V_Bool False) = Some (w, h') \<and>
     pair_car h' w = Some (V_Number 5) \<and> pair_cdr h' w = Some V_Nil"
proof -
  let ?h = "with_reservation 65536 (\<lambda>_. True) 131072"
  have ok: "alloc_ok ?h" by (rule initial_alloc_ok) (simp_all add: div_ceil_def PAGE_SIZE_BYTES_def)
  have "alloc_region ?h G0 Kind_Cons \<noteq> None" by (simp add: alloc_region_def)
  moreover have "\<not> poisoned ?h" "\<not> young_cap_reached ?h G0" "os_answers ?h (os_calls ?h)"
    "pgen (descs ?h ! 0) = Gen_Free" "0 < n_pages ?h"
    by (simp_all add: young_cap_reached_def count_pages_in_gen_def desc_FREE_def with_reservation_def Let_def div_ceil_def PAGE_SIZE_BYTES_def)
  ultimately obtain a h1 where t: "try_alloc_in_region ?h G0 Kind_Cons 2 True = Some (Some a, h1)"
    using small_alloc_succeeds [OF ok, of G0 Kind_Cons 0 2 True] by (auto simp: PAGE_SIZE_CELLS_num)
  obtain w h' where a: "alloc_pair ?h (V_Number 5) (V_Bool False) = Some (w, h')"
    using t by (auto simp: alloc_pair_def try_alloc_cons_in_def Let_def)
  have "storable (V_Number 5)" by (simp add: FIXNUM_MIN_def FIXNUM_MAX_def)
  from pair_reads_back [OF ok this _ a] a show ?thesis by auto
qed

end
