(* ===== verification/Lisp_State.thy ===== *)
theory Lisp_State
  imports Lisp_Value "HOL-Library.AList"
begin

text \<open>
  The state of the interpreter (\<^verbatim>\<open>newgc-test-lisp/src/eval.rs\<close>) and its garbage collections. The
  collector is given a flat vector of the words the state holds, and the forwarded words are
  written back through the recorded slots. A \<open>HashMap\<close> is an association list in the order its
  iteration takes; the value stack is in the order of the \<open>Vec\<close>, so a push appends. The
  interpreter owns its heap (\<^verbatim>\<open>Heap::Direct\<close>); \<open>Crash\<close> is a panic.
\<close>

section \<open>State\<close>

record function_def =
  params :: "u8 list list"
  body :: sexp

type_synonym frame = "(u8 list \<times> lisp_value) list"

record lisp_stats =
  top_level_forms :: nat
  function_calls :: nat
  minor_gcs :: nat
  major_gcs :: nat
  allocations :: nat
  max_frame_depth :: nat
  max_value_stack :: nat

record interp =
  heap :: page_heap
  globals :: "(u8 list \<times> lisp_value) list"
  function_table :: "u8 list \<Rightarrow> function_def option"
  frames :: "frame list"
  value_stack :: "lisp_value list"
  rng_state :: u64
  run_stats :: lisp_stats

definition interp_new :: "page_heap \<Rightarrow> interp" where
  "interp_new h =
     \<lparr>heap = h, globals = [], function_table = (\<lambda>_. None), frames = [], value_stack = [], rng_state = 0xc0ffee,
      run_stats = \<lparr>top_level_forms = 0, function_calls = 0, minor_gcs = 0, major_gcs = 0, allocations = 0,
                   max_frame_depth = 0, max_value_stack = 0\<rparr>\<rparr>"

text \<open>Errors; the numbers and renderings a message quotes are left out of it.\<close>

datatype run_error =
  Unbound "u8 list"
| BadArity "u8 list" nat nat
| TypeError "u8 list"
| Other "u8 list"

text \<open>How a step of the interpreter ends; \<open>No_Fuel\<close> stands for a recursion cut off by the model.\<close>

datatype 'a run = Ok 'a interp | Err run_error interp | Crash | No_Fuel

definition bind_run :: "'a run \<Rightarrow> ('a \<Rightarrow> interp \<Rightarrow> 'b run) \<Rightarrow> 'b run" where
  "bind_run r f =
     (case r of Ok x i \<Rightarrow> f x i | Err e i \<Rightarrow> Err e i | Crash \<Rightarrow> Crash | No_Fuel \<Rightarrow> No_Fuel)"

lemma bind_run_simps [simp]:
  "bind_run (Ok x i) f = f x i" "bind_run (Err e i) f = Err e i" "bind_run Crash f = Crash"
  "bind_run No_Fuel f = No_Fuel"
  by (simp_all add: bind_run_def)

lemma bind_run_Ok: "bind_run r f = Ok y i' \<longleftrightarrow> (\<exists>x i. r = Ok x i \<and> f x i = Ok y i')"
  by (cases r) auto

definition push :: "lisp_value \<Rightarrow> interp \<Rightarrow> unit run" where
  "push v i = Ok () (i\<lparr>value_stack := value_stack i @ [v]\<rparr>)"

text \<open>\<open>pop().unwrap()\<close>\<close>

definition pop :: "interp \<Rightarrow> lisp_value run" where
  "pop i =
     (if value_stack i = [] then Crash
      else Ok (last (value_stack i)) (i\<lparr>value_stack := butlast (value_stack i)\<rparr>))"

section \<open>Roots\<close>

datatype root_kind = Root_Stack nat | Root_Frame nat nat | Root_Global "u8 list"

fun collect_value_words :: "lisp_value \<Rightarrow> root_kind \<Rightarrow> (u64 \<times> root_kind) list" where
  "collect_value_words (V_Pair w) k = [(w, k)]"
| "collect_value_words (V_Vector w) k = [(w, k)]"
| "collect_value_words (V_Str w) k = [(w, k)]"
| "collect_value_words _ k = []"

definition gather_roots :: "interp \<Rightarrow> (u64 \<times> root_kind) list" where
  "gather_roots i =
     concat (map (\<lambda>(n, v). collect_value_words v (Root_Stack n)) (enumerate 0 (value_stack i))) @
     concat (map (\<lambda>(f, bs). concat (map (\<lambda>(b, _, v). collect_value_words v (Root_Frame f b)) (enumerate 0 bs)))
               (enumerate 0 (frames i))) @
     concat (map (\<lambda>(name, v). collect_value_words v (Root_Global name)) (globals i))"

fun set_word :: "u64 \<Rightarrow> lisp_value \<Rightarrow> lisp_value option" where
  "set_word w (V_Pair _) = Some (V_Pair w)"
| "set_word w (V_Vector _) = Some (V_Vector w)"
| "set_word w (V_Str _) = Some (V_Str w)"
| "set_word w _ = None"

fun apply_redistribute :: "root_kind \<Rightarrow> u64 \<Rightarrow> interp \<Rightarrow> interp option" where
  "apply_redistribute (Root_Stack n) w i =
     (if n < length (value_stack i)
      then map_option (\<lambda>v. i\<lparr>value_stack := (value_stack i)[n := v]\<rparr>) (set_word w (value_stack i ! n))
      else None)"
| "apply_redistribute (Root_Frame f b) w i =
     (if f < length (frames i) \<and> b < length (frames i ! f)
      then map_option
             (\<lambda>v. i\<lparr>frames := (frames i)[f := (frames i ! f)[b := (fst (frames i ! f ! b), v)]]\<rparr>)
             (set_word w (snd (frames i ! f ! b)))
      else None)"
| "apply_redistribute (Root_Global name) w i =
     (case map_of (globals i) name of
        None \<Rightarrow> None
      | Some old \<Rightarrow> map_option (\<lambda>v. i\<lparr>globals := AList.update name v (globals i)\<rparr>) (set_word w old))"

text \<open>\<open>roots[idx]\<close> is out of bounds, and a panic, when there are fewer words than slots.\<close>

fun scatter_roots :: "root_kind list \<Rightarrow> u64 list \<Rightarrow> interp \<Rightarrow> interp option" where
  "scatter_roots [] roots i = Some i"
| "scatter_roots (slot # layout) [] i = None"
| "scatter_roots (slot # layout) (w # roots) i =
     (case apply_redistribute slot w i of None \<Rightarrow> None | Some i \<Rightarrow> scatter_roots layout roots i)"

section \<open>Collections\<close>

datatype gc_kind = Gc_Minor | Gc_Major | Gc_Auto

definition run_collection ::
  "gc_kind \<Rightarrow> u64 list \<Rightarrow> page_heap \<Rightarrow> gc_abort + (u64 list \<times> page_heap \<times> bool)" where
  "run_collection which roots h =
     (case which of
        Gc_Minor \<Rightarrow>
          bind_res (collect_minor lisp_layout (word_roots_visitor lisp_layout) (roots, h))
            (\<lambda>(roots, h, _). Inr (roots, recompute_auto_trigger h, False))
      | Gc_Major \<Rightarrow>
          bind_res (collect_major lisp_layout (word_roots_visitor lisp_layout) (roots, h))
            (\<lambda>(roots, h, _). Inr (roots, recompute_auto_trigger h, True))
      | Gc_Auto \<Rightarrow>
          (let picked_major = should_collect_major h in
           bind_res (collect_auto lisp_layout (word_roots_visitor lisp_layout) (roots, h))
             (\<lambda>(roots, h, _). Inr (roots, h, picked_major))))"

definition count_gc :: "bool \<Rightarrow> lisp_stats \<Rightarrow> lisp_stats" where
  "count_gc major s =
     (if major then s\<lparr>major_gcs := major_gcs s + 1\<rparr> else s\<lparr>minor_gcs := minor_gcs s + 1\<rparr>)"

definition do_collect :: "gc_kind \<Rightarrow> interp \<Rightarrow> unit run" where
  "do_collect which i =
     (let roots = map fst (gather_roots i); layout = map snd (gather_roots i) in
      case run_collection which roots (heap i) of
        Inl _ \<Rightarrow> Crash
      | Inr (roots, h, major) \<Rightarrow>
          (case scatter_roots layout roots (i\<lparr>heap := h, run_stats := count_gc major (run_stats i)\<rparr>) of
             None \<Rightarrow> Crash
           | Some i \<Rightarrow> Ok () i))"

definition maybe_gc :: "interp \<Rightarrow> unit run" where
  "maybe_gc i = (if should_collect (heap i) then do_collect Gc_Auto i else Ok () i)"

section \<open>Writing through slots\<close>

text \<open>
  A container whose slots are listed by \<open>lay\<close>: writing a slot changes what is read there, nothing
  read at another slot, and nothing of its outline \<open>sk\<close>, which determines the slots.
\<close>

primrec write_slots :: "('k \<Rightarrow> 'w \<Rightarrow> 's \<Rightarrow> 's option) \<Rightarrow> ('k \<times> 'w) list \<Rightarrow> 's \<Rightarrow> 's option" where
  "write_slots put [] s = Some s"
| "write_slots put (kw # kws) s =
     (case put (fst kw) (snd kw) s of None \<Rightarrow> None | Some s \<Rightarrow> write_slots put kws s)"

locale slots =
  fixes lay :: "'s \<Rightarrow> 'k list" and get :: "'k \<Rightarrow> 's \<Rightarrow> 'w" and put :: "'k \<Rightarrow> 'w \<Rightarrow> 's \<Rightarrow> 's option"
    and sk :: "'s \<Rightarrow> 't" and wf :: "'s \<Rightarrow> bool"
  assumes put_defined: "wf s \<Longrightarrow> k \<in> set (lay s) \<Longrightarrow> \<exists>s'. put k w s = Some s'"
    and put_outline: "wf s \<Longrightarrow> put k w s = Some s' \<Longrightarrow> sk s' = sk s"
    and put_wf: "wf s \<Longrightarrow> put k w s = Some s' \<Longrightarrow> wf s'"
    and put_same: "wf s \<Longrightarrow> put k w s = Some s' \<Longrightarrow> k \<in> set (lay s) \<Longrightarrow> get k s' = w"
    and put_other: "wf s \<Longrightarrow> put k w s = Some s' \<Longrightarrow> k' \<in> set (lay s) \<Longrightarrow> k \<in> set (lay s) \<Longrightarrow> k' \<noteq> k \<Longrightarrow> get k' s' = get k' s"
    and lay_outline: "sk s' = sk s \<Longrightarrow> lay s' = lay s"
begin

lemma write_all:
  "wf s \<Longrightarrow> distinct (map fst kws) \<Longrightarrow> fst ` set kws \<subseteq> set (lay s) \<Longrightarrow>
     \<exists>s'. write_slots put kws s = Some s' \<and> sk s' = sk s \<and> (\<forall>(k, w) \<in> set kws. get k s' = w) \<and>
       (\<forall>k \<in> set (lay s). k \<notin> fst ` set kws \<longrightarrow> get k s' = get k s)"
proof (induction kws arbitrary: s)
  case (Cons kw kws)
  obtain k w where kw: "kw = (k, w)" by (cases kw)
  have k: "k \<in> set (lay s)" using Cons.prems(3) by (simp add: kw)
  obtain s1 where s1: "put k w s = Some s1" using put_defined [OF Cons.prems(1) k] by blast
  have l: "lay s1 = lay s" by (rule lay_outline [OF put_outline [OF Cons.prems(1) s1]])
  have wf: "wf s1" by (rule put_wf [OF Cons.prems(1) s1])
  obtain s' where s': "write_slots put kws s1 = Some s'" "sk s' = sk s1" "\<forall>(k, w) \<in> set kws. get k s' = w"
      "\<forall>k \<in> set (lay s1). k \<notin> fst ` set kws \<longrightarrow> get k s' = get k s1"
    using Cons.IH [OF wf] Cons.prems(2,3) by (auto simp: l)
  have "get k s' = w"
    using s'(4) put_same [OF Cons.prems(1) s1 k] k Cons.prems(2) by (auto simp: l kw)
  then show ?case
    using s' put_outline [OF Cons.prems(1) s1] put_other [OF Cons.prems(1) s1 _ k] s1 by (auto simp: l kw)
qed simp

lemma write_layout:
  assumes "wf s" "distinct (lay s)" "length ws = length (lay s)"
  shows "\<exists>s'. write_slots put (zip (lay s) ws) s = Some s' \<and> sk s' = sk s \<and> map (\<lambda>k. get k s') (lay s') = ws"
proof -
  have "\<exists>s'. write_slots put (zip (lay s) ws) s = Some s' \<and> sk s' = sk s \<and> (\<forall>(k, w) \<in> set (zip (lay s) ws). get k s' = w) \<and>
       (\<forall>k \<in> set (lay s). k \<notin> fst ` set (zip (lay s) ws) \<longrightarrow> get k s' = get k s)"
    by (rule write_all) (use assms in \<open>auto dest: set_zip_leftD\<close>)
  then obtain s' where s': "write_slots put (zip (lay s) ws) s = Some s'" "sk s' = sk s"
      "\<forall>(k, w) \<in> set (zip (lay s) ws). get k s' = w" by blast
  have "map (\<lambda>k. get k s') (lay s) = ws"
    using s'(3) assms(3) by (auto simp: list_eq_iff_nth_eq set_zip)
  then show ?thesis using s' lay_outline [OF s'(2)] by auto
qed

end

end
