(* ===== verification/Lisp_Roots.thy ===== *)
theory Lisp_Roots
  imports Lisp_State
begin

text \<open>
  The redistribution of forwarded roots: the interpreter is a container of slots, so writing the
  collected words back puts each where its original came from and changes nothing else.
\<close>

section \<open>Slots\<close>

definition holds_word :: "lisp_value \<Rightarrow> bool" where
  "holds_word v \<longleftrightarrow> heap_word v \<noteq> None"

fun slot_value :: "root_kind \<Rightarrow> interp \<Rightarrow> lisp_value option" where
  "slot_value (Root_Stack n) i = (if n < length (value_stack i) then Some (value_stack i ! n) else None)"
| "slot_value (Root_Frame f b) i =
     (if f < length (frames i) \<and> b < length (frames i ! f) then Some (snd (frames i ! f ! b)) else None)"
| "slot_value (Root_Global name) i = map_of (globals i) name"

definition slot_word :: "root_kind \<Rightarrow> interp \<Rightarrow> u64" where
  "slot_word k i = the (heap_word (the (slot_value k i)))"

text \<open>The outline of a state: every heap word forgotten.\<close>

fun forget :: "lisp_value \<Rightarrow> lisp_value" where
  "forget (V_Pair _) = V_Pair 0"
| "forget (V_Vector _) = V_Vector 0"
| "forget (V_Str _) = V_Str 0"
| "forget v = v"

definition outline :: "interp \<Rightarrow> interp" where
  "outline i = i\<lparr>value_stack := map forget (value_stack i), frames := map (map (apsnd forget)) (frames i),
                 globals := map (apsnd forget) (globals i)\<rparr>"

definition root_slots :: "interp \<Rightarrow> root_kind list" where
  "root_slots i = map snd (gather_roots i)"

definition names_distinct :: "interp \<Rightarrow> bool" where
  "names_distinct i \<longleftrightarrow> distinct (map fst (globals i))"

lemma enumerate_upt: "enumerate 0 xs = map (\<lambda>n. (n, xs ! n)) [0..<length xs]"
  by (rule nth_equalityI) (simp_all add: nth_enumerate_eq)

lemma collect_list:
  "concat (map (\<lambda>x. collect_value_words (f x) (K x)) xs) =
     map (\<lambda>x. (the (heap_word (f x)), K x)) (filter (\<lambda>x. holds_word (f x)) xs)"
proof (induction xs)
  case (Cons x xs)
  then show ?case by (cases "f x") (simp_all add: holds_word_def)
qed simp

lemma gather_eq:
  "gather_roots i =
     map (\<lambda>n. (the (heap_word (value_stack i ! n)), Root_Stack n))
       (filter (\<lambda>n. holds_word (value_stack i ! n)) [0..<length (value_stack i)]) @
     concat (map (\<lambda>f. map (\<lambda>b. (the (heap_word (snd (frames i ! f ! b))), Root_Frame f b))
                        (filter (\<lambda>b. holds_word (snd (frames i ! f ! b))) [0..<length (frames i ! f)]))
               [0..<length (frames i)]) @
     map (\<lambda>g. (the (heap_word (snd g)), Root_Global (fst g))) (filter (\<lambda>g. holds_word (snd g)) (globals i))"
  unfolding gather_roots_def enumerate_upt map_map comp_def prod.case collect_list
  by (simp add: case_prod_unfold collect_list)

lemma slot_in: "k \<in> set (root_slots i) \<longleftrightarrow> (\<exists>v. (case k of
     Root_Global name \<Rightarrow> (name, v) \<in> set (globals i) | _ \<Rightarrow> slot_value k i = Some v) \<and> holds_word v)"
  by (cases k) (auto simp: root_slots_def gather_eq image_iff)

lemma slot_in_wf:
  "names_distinct i \<Longrightarrow> k \<in> set (root_slots i) \<longleftrightarrow> (\<exists>v. slot_value k i = Some v \<and> holds_word v)"
  unfolding slot_in by (cases k) (auto simp: names_distinct_def map_of_eq_Some_iff)

lemma gather_words:
  assumes "names_distinct i"
  shows "gather_roots i = map (\<lambda>k. (slot_word k i, k)) (root_slots i)"
proof -
  have pairs: "xs = map (\<lambda>k. (f k, k)) (map snd xs)" if "\<forall>p \<in> set xs. fst p = f (snd p)"
    for xs :: "('a \<times> 'b) list" and f
    using that by (induction xs) auto
  have "\<forall>p \<in> set (gather_roots i). fst p = slot_word (snd p) i"
    using assms unfolding gather_eq
    by (auto simp: slot_word_def names_distinct_def map_of_is_SomeI)
  from pairs [OF this] show ?thesis by (simp only: root_slots_def)
qed

lemma root_slots_eq:
  "root_slots i =
     map Root_Stack (filter (\<lambda>n. holds_word (value_stack i ! n)) [0..<length (value_stack i)]) @
     concat (map (\<lambda>f. map (Root_Frame f) (filter (\<lambda>b. holds_word (snd (frames i ! f ! b))) [0..<length (frames i ! f)]))
               [0..<length (frames i)]) @
     map (\<lambda>g. Root_Global (fst g)) (filter (\<lambda>g. holds_word (snd g)) (globals i))"
  by (simp add: root_slots_def gather_eq map_concat comp_def)

lemma distinct_slots:
  assumes w: "names_distinct i"
  shows "distinct (root_slots i)"
proof -
  have frames: "distinct (concat (map (\<lambda>f. map (Root_Frame f) (bs f)) [0..<n]))" if "\<And>f. distinct (bs f)" for bs n
    using that by (induction n) (auto simp: distinct_map inj_on_def)
  have globals: "distinct (map (\<lambda>g. Root_Global (fst g)) (filter P gs))" if "distinct (map fst gs)" for P gs
    using that by (induction gs) auto
  show ?thesis
    unfolding root_slots_eq distinct_append
  proof (intro conjI)
    show "distinct (map Root_Stack (filter (\<lambda>n. holds_word (value_stack i ! n)) [0..<length (value_stack i)]))"
      by (simp add: distinct_map inj_on_def)
    show "distinct (concat (map (\<lambda>f. map (Root_Frame f)
        (filter (\<lambda>b. holds_word (snd (frames i ! f ! b))) [0..<length (frames i ! f)])) [0..<length (frames i)]))"
      by (rule frames) simp
    show "distinct (map (\<lambda>g. Root_Global (fst g)) (filter (\<lambda>g. holds_word (snd g)) (globals i)))"
      by (rule globals) (use w in \<open>simp add: names_distinct_def\<close>)
  qed auto
qed

lemma forget_holds [simp]: "holds_word (forget v) = holds_word v" "forget (forget v) = forget v"
  by (cases v; simp add: holds_word_def)+

lemma slots_of_outline: "root_slots (outline i) = root_slots i"
proof -
  have stack: "filter (\<lambda>n. holds_word (map forget xs ! n)) [0..<length (map forget xs)] =
      filter (\<lambda>n. holds_word (xs ! n)) [0..<length xs]" for xs
    by (auto intro!: filter_cong)
  have frame: "filter (\<lambda>b. holds_word (snd (map (apsnd forget) bs ! b))) [0..<length (map (apsnd forget) bs)] =
      filter (\<lambda>b. holds_word (snd (bs ! b))) [0..<length bs]" for bs :: frame
    by (auto intro!: filter_cong)
  have frames: "concat (map (\<lambda>f. map (Root_Frame f) (filter (\<lambda>b. holds_word (snd (map (map (apsnd forget)) fs ! f ! b)))
          [0..<length (map (map (apsnd forget)) fs ! f)])) [0..<length (map (map (apsnd forget)) fs)]) =
      concat (map (\<lambda>f. map (Root_Frame f) (filter (\<lambda>b. holds_word (snd (fs ! f ! b))) [0..<length (fs ! f)])) [0..<length fs])"
    for fs :: "frame list"
    by (rule arg_cong [of _ _ concat], rule map_cong) (simp_all add: frame [simplified])
  have globals: "map (\<lambda>g. Root_Global (fst g)) (filter (\<lambda>g. holds_word (snd g)) (map (apsnd forget) gs)) =
      map (\<lambda>g. Root_Global (fst g)) (filter (\<lambda>g. holds_word (snd g)) gs)" for gs :: frame
    by (simp add: filter_map comp_def)
  show ?thesis
    unfolding root_slots_eq using stack [of "value_stack i"] frames [of "frames i"] globals [of "globals i"]
    by (simp add: outline_def)
qed

section \<open>One slot\<close>

lemma set_word_facts:
  "set_word w v = Some v' \<Longrightarrow> heap_word v' = Some w \<and> forget v' = forget v \<and> holds_word v"
  "holds_word v \<Longrightarrow> \<exists>v'. set_word w v = Some v'"
  by (cases v; auto simp: holds_word_def)+

lemma map_update_same: "n < length xs \<Longrightarrow> f y = f (xs ! n) \<Longrightarrow> map f (xs[n := y]) = map f xs"
  by (simp add: map_update list_update_same_conv)

lemma update_outline:
  "map_of al k = Some old \<Longrightarrow> f v = f old \<Longrightarrow> map (apsnd f) (AList.update k v al) = map (apsnd f) al"
  by (induction al) (auto split: if_splits)

lemma redistribute_facts:
  assumes "apply_redistribute k w i = Some i'"
  shows "\<exists>v v'. slot_value k i = Some v \<and> set_word w v = Some v' \<and>
      (\<forall>k'. slot_value k' i' = (if k' = k then Some v' else slot_value k' i))" (is ?slots)
    and "outline i' = outline i" "map fst (globals i') = map fst (globals i)"
proof -
  have "?slots \<and> outline i' = outline i \<and> map fst (globals i') = map fst (globals i)"
  proof (cases k)
    case (Root_Stack n)
    then obtain v' where n: "n < length (value_stack i)" and v: "set_word w (value_stack i ! n) = Some v'"
      and i': "i' = i\<lparr>value_stack := (value_stack i)[n := v']\<rparr>"
      using assms by (auto split: if_splits)
    have "slot_value k' i' = (if k' = k then Some v' else slot_value k' i)" for k'
      using n by (cases k') (auto simp: Root_Stack i' nth_list_update)
    moreover have "outline i' = outline i"
      using n set_word_facts(1) [OF v] by (simp add: outline_def i' map_update_same)
    ultimately show ?thesis using n v by (simp add: Root_Stack i')
  next
    case (Root_Frame f b)
    then obtain v' where n: "f < length (frames i)" "b < length (frames i ! f)"
      and v: "set_word w (snd (frames i ! f ! b)) = Some v'"
      and i': "i' = i\<lparr>frames := (frames i)[f := (frames i ! f)[b := (fst (frames i ! f ! b), v')]]\<rparr>"
      using assms by (auto split: if_splits)
    have "slot_value k' i' = (if k' = k then Some v' else slot_value k' i)" for k'
      using n by (cases k') (auto simp: Root_Frame i' nth_list_update)
    moreover have "map (apsnd forget) ((frames i ! f)[b := (fst (frames i ! f ! b), v')]) = map (apsnd forget) (frames i ! f)"
      using set_word_facts(1) [OF v] by (intro map_update_same n(2)) (simp add: apsnd_def map_prod_def case_prod_unfold)
    then have "outline i' = outline i" by (simp add: outline_def i' map_update_same [OF n(1)])
    ultimately show ?thesis using n v by (simp add: Root_Frame i')
  next
    case (Root_Global name)
    then obtain v v' where n: "map_of (globals i) name = Some v" and v: "set_word w v = Some v'"
      and i': "i' = i\<lparr>globals := AList.update name v' (globals i)\<rparr>"
      using assms by (auto split: option.splits)
    have "slot_value k' i' = (if k' = k then Some v' else slot_value k' i)" for k'
      by (cases k') (simp_all add: Root_Global i' update_conv')
    moreover have "outline i' = outline i"
      using update_outline [OF n, of forget v'] set_word_facts(1) [OF v] by (simp add: outline_def i')
    moreover have "map fst (globals i') = map fst (globals i)"
      using map_of_SomeD [OF n] by (force simp: i' update_keys)
    ultimately show ?thesis using n v by (simp add: Root_Global)
  qed
  then show ?slots "outline i' = outline i" "map fst (globals i') = map fst (globals i)" by blast+
qed

lemma redistribute_defined:
  assumes "slot_value k i = Some v" "holds_word v"
  shows "\<exists>i'. apply_redistribute k w i = Some i'"
  using set_word_facts(2) [OF assms(2), of w] assms(1) by (cases k) (auto split: if_splits)

lemma redistribute_slot_word:
  assumes "apply_redistribute k w i = Some i'"
  shows "slot_word k i' = w" "k' \<noteq> k \<Longrightarrow> slot_word k' i' = slot_word k' i"
  using redistribute_facts(1) [OF assms] set_word_facts(1) by (fastforce simp: slot_word_def)+

interpretation roots: slots root_slots slot_word apply_redistribute outline names_distinct
proof
  show "\<exists>s'. apply_redistribute k w s = Some s'" if "names_distinct s" "k \<in> set (root_slots s)" for s k w
    using that redistribute_defined by (auto simp: slot_in_wf)
  show "outline s' = outline s" if "apply_redistribute k w s = Some s'" for k w s s'
    using that by (rule redistribute_facts(2))
  show "names_distinct s'" if "names_distinct s" "apply_redistribute k w s = Some s'" for k w s s'
    using that(1) redistribute_facts(3) [OF that(2)] by (simp add: names_distinct_def)
  show "slot_word k s' = w" if "apply_redistribute k w s = Some s'" for k w s s'
    using that by (rule redistribute_slot_word(1))
  show "slot_word k' s' = slot_word k' s" if "apply_redistribute k w s = Some s'" "k' \<noteq> k" for k k' w s s'
    using that by (rule redistribute_slot_word(2))
  show "root_slots s' = root_slots s" if "outline s' = outline s" for s s'
    using that by (metis slots_of_outline)
qed

lemma scatter_is_write: "length ks = length ws \<Longrightarrow> scatter_roots ks ws i = write_slots apply_redistribute (zip ks ws) i"
  by (induction ks ws arbitrary: i rule: list_induct2) (auto split: option.split)

lemma scatter_outline:
  "scatter_roots ks ws i = Some i' \<Longrightarrow> outline i' = outline i \<and> map fst (globals i') = map fst (globals i)"
proof (induction ks ws i rule: scatter_roots.induct)
  case (3 k ks w ws i)
  obtain i1 where 1: "apply_redistribute k w i = Some i1" using 3 by (auto split: option.splits)
  then show ?case using 3 redistribute_facts(2,3) [OF 1] by simp
qed simp_all

section \<open>Properties\<close>

text \<open>
  C28. Every forwarded root reaches its place. Whatever words a collection puts in the vector of
  collected roots, writing them back through the recorded slots succeeds, the state then
  holds exactly these words at exactly the slots the old ones came from, and nothing else of it
  has changed: not the shape of the stack, the frames or the globals, nor any other field.
\<close>

theorem roots_written_back:
  assumes "distinct (map fst (globals i))" "length ws = length (gather_roots i)"
  shows "\<exists>i'. scatter_roots (map snd (gather_roots i)) ws i = Some i' \<and>
    gather_roots i' = zip ws (map snd (gather_roots i)) \<and> outline i' = outline i"
proof -
  have w: "names_distinct i" using assms(1) by (simp add: names_distinct_def)
  have l: "length ws = length (root_slots i)" using assms(2) by (simp add: root_slots_def)
  obtain i' where i': "write_slots apply_redistribute (zip (root_slots i) ws) i = Some i'" "outline i' = outline i"
      "map (\<lambda>k. slot_word k i') (root_slots i') = ws"
    using roots.write_layout [OF w distinct_slots [OF w] l] by blast
  have s: "scatter_roots (root_slots i) ws i = Some i'" using i'(1) scatter_is_write l by simp
  have slots: "root_slots i' = root_slots i" by (rule roots.lay_outline [OF i'(2)])
  have "names_distinct i'" using scatter_outline [OF s] w by (simp add: names_distinct_def)
  then have "gather_roots i' = map (\<lambda>k. (slot_word k i', k)) (root_slots i)"
    using gather_words slots by metis
  also have "\<dots> = zip ws (root_slots i)"
    unfolding i'(3) [symmetric] slots by (simp add: zip_map1 zip_same_conv_map)
  finally show ?thesis using s i'(2) by (simp add: root_slots_def)
qed

theorem roots_written_back_witness:
  "let i = (interp_new (with_reservation 65536 (\<lambda>_. True) 65536))
     \<lparr>value_stack := [V_Number 1, V_Pair 9], frames := [[([120], V_Str 21)], [([121], V_Nil)]], globals := [([97], V_Vector 19)]\<rparr>
   in \<exists>i'. scatter_roots (map snd (gather_roots i)) [65, 69, 75] i = Some i' \<and> map fst (gather_roots i') = [65, 69, 75] \<and>
     value_stack i' = [V_Number 1, V_Pair 65]"
proof -
  let ?i = "(interp_new (with_reservation 65536 (\<lambda>_. True) 65536))
     \<lparr>value_stack := [V_Number 1, V_Pair 9], frames := [[([120], V_Str 21)], [([121], V_Nil)]], globals := [([97], V_Vector 19)]\<rparr>"
  have g: "gather_roots ?i = [(9, Root_Stack 1), (21, Root_Frame 0 0), (19, Root_Global [97])]"
    by (simp add: gather_roots_def)
  have "distinct (map fst (globals ?i))" "length [65, 69, 75 :: u64] = length (gather_roots ?i)" by (simp_all add: g)
  from roots_written_back [OF this] obtain i' where
    s: "scatter_roots (map snd (gather_roots ?i)) [65, 69, 75] ?i = Some i'" and
    r: "gather_roots i' = zip [65, 69, 75] (map snd (gather_roots ?i))" by blast
  have "value_stack i' = [V_Number 1, V_Pair 65]" using s by (auto simp: g)
  moreover have "map fst (gather_roots i') = [65, 69, 75]" by (simp add: r g)
  ultimately show ?thesis unfolding Let_def by (intro exI [of _ i'] conjI s)
qed

end
