(* ===== verification/Spec2Isabelle.thy ===== *)
theory Spec2Isabelle
  imports Cycle_Policy Mutator Safepoint_Live Lisp_Roots
begin

text \<open>
  A model of \<^verbatim>\<open>newgc-core\<close>, a page-based generational garbage collector (Rust, under
  \<^verbatim>\<open>src/crates/newgc-core/src\<close>): a reservation of 64 KB pages, each page in one generation
  (\<^verbatim>\<open>G0\<close>, \<^verbatim>\<open>G1\<close>, \<^verbatim>\<open>Tenured\<close>, or free) and of one kind (cons, boxed, large), bump allocation inside
  pages, a precise mark pass, conservative and explicit pins, and a remembered set of cards.

  Reading guide. The heap is one record, \<open>page_heap\<close>, whose fields are those of \<^verbatim>\<open>PageHeap\<close> and
  of the \<^verbatim>\<open>SharedHeap\<close> it points to; memory is the function \<open>cells\<close> from global cell indices to
  64-bit words. An operation that takes \<^verbatim>\<open>&mut self\<close> returns the updated record. A \<^verbatim>\<open>Result\<close> is a
  sum (\<open>Inl\<close> the error), a panic or failed assertion is \<open>None\<close>. The bitmaps are functions from
  word indices to \<open>u64\<close>; the atomics are read and written sequentially, which is what the
  collector relies on while the world is stopped. The answers of the operating system to
  \<^verbatim>\<open>mprotect\<close> and \<^verbatim>\<open>madvise\<close> are an input stream of the record.

  The theories, in the order of their imports:
  \<^item> \<open>GC_Prelude\<close>: machine integers, saturating arithmetic, ranges of a function updated at once.
  \<^item> \<open>Tagged_Word\<close> (\<^verbatim>\<open>word.rs\<close>): the tagged 64-bit word; round trips of fixnums, characters,
    pointers and forwarding markers.
  \<^item> \<open>Heap_Common\<close> (\<^verbatim>\<open>heap_common.rs\<close>): the card table, object headers, GC bits.
  \<^item> \<open>Layouts\<close> (\<^verbatim>\<open>traits.rs\<close>, \<^verbatim>\<open>lisp_layout.rs\<close>, \<^verbatim>\<open>tiny_layout.rs\<close>): a language binding is a record
    of functions; the locale \<open>layout_laws\<close> is what the collector asks of one, interpreted for
    both bindings.
  \<^item> \<open>Page_Desc\<close> (\<^verbatim>\<open>page_heap/page_desc.rs\<close>) and \<open>Bitmaps\<close> (\<^verbatim>\<open>alloc.rs\<close>, \<^verbatim>\<open>space.rs\<close>): the page table
    and the packed bitmaps, the latter through the locale \<open>cell_bitmap\<close>; the start bitmap refines
    a map from cells to \<open>start_kind\<close>, under the invariant \<open>tidy\<close>.
  \<^item> \<open>Page_Heap\<close> (\<^verbatim>\<open>space.rs\<close>): the reservation, commit and decommit, address arithmetic, marks.
  \<^item> \<open>Trigger\<close> (\<^verbatim>\<open>space.rs\<close>): when to collect, the statistics, the end-of-cycle card rebuild.
  \<^item> \<open>Alloc\<close> (\<^verbatim>\<open>alloc.rs\<close>) and \<open>Allocator\<close> (\<^verbatim>\<open>coordinator_api.rs\<close>): the free-page list, region bump,
    slabs and large runs; the invariant \<open>alloc_ok\<close>; what an allocation leaves alone (\<open>alloc_frame\<close>); the locale \<open>allocator\<close> (whatever the order of
    the requests, the blocks are disjoint), interpreted for all entry points.
  \<^item> \<open>Tracing\<close>: the tri-colour invariant of a work-list marker as the locale \<open>tracer\<close>.
  \<^item> \<open>Mark\<close> (\<^verbatim>\<open>mark.rs\<close>): the gate, the drain loop, the card scan, the extensions from pins;
    marked means reachable, and marking returns.
  \<^item> \<open>Pin\<close> and \<open>Pin_Marks\<close> (\<^verbatim>\<open>pin.rs\<close>, \<^verbatim>\<open>coordinator_api.rs\<close>): pins, their reconciliation with the
    marks, live counts, release of dead pages.
  \<^item> \<open>Evacuator\<close> and \<open>Evac_Mark\<close> (\<^verbatim>\<open>evac.rs\<close>): the scanner in its two modes and the evacuator's own
    mark pass; marked means reachable, and every Large run reached is pinned.
  \<^item> \<open>Evac_Phases\<close> (\<^verbatim>\<open>evac.rs\<close>): copy, rewrite, reclaim, the chunk loop and the driver, with the
    stall the code throws as a value of \<open>gc_abort\<close>.
  \<^item> \<open>Evac_Copy\<close>: what phase 1 leaves. \<open>relocated L g h0 h \<phi>\<close> says that \<open>h\<close> is \<open>h0\<close> with the objects
    of \<open>dom \<phi>\<close> moved: fresh disjoint copies, markers, everything else in use unchanged.
  \<^item> \<open>Evac_Reclaim\<close>: what phase 3 leaves of each page of the chunk.
  \<^item> \<open>Coordinator\<close> (\<^verbatim>\<open>coordinator_api.rs\<close>): dirty cards as roots of an evacuation and of a mark pass, the
    mark pass with a static segment, the clearing of consumed cards.
  \<^item> \<open>Cycle\<close> (\<^verbatim>\<open>cycle.rs\<close>, \<^verbatim>\<open>space.rs\<close>, \<^verbatim>\<open>coordinator_api.rs\<close>): minor, major and full cycles, the fallible
    entry points, the production minor cycle. \<open>Cycle_Frame\<close> states once what every pass of an
    evacuation leaves alone, \<open>Cycle_Pages\<close> follows the page table through the chunk loop (Large
    runs stay whole, the evacuated generation ends up empty), \<open>Cycle_Policy\<close> has the promotion
    schedule (which generation each minor cycle evacuates where), the emptied generations, the
    automatic choice between minor and major, and the poisoning of a stalled heap.
  \<^item> \<open>Mutator\<close> (\<^verbatim>\<open>mutator.rs\<close>): the mutators' allocation buffers over the shared heap; the locale
    \<open>block_source\<close>, interpreted for any number of mutators, makes their blocks disjoint.
  \<^item> \<open>Safepoint\<close> (\<^verbatim>\<open>mutator.rs\<close>, \<^verbatim>\<open>shared.rs\<close>): the stop-the-world protocol as a step relation of any
    number of threads, each at a place \<open>pc\<close> of the code; what runs under \<^verbatim>\<open>park_mutex\<close> is one step.
    \<open>Safepoint_Inv\<close> has its invariant, \<open>Safepoint_Live\<close> the run that settles every state.
  \<^item> \<open>Lisp_Reader\<close> (\<^verbatim>\<open>newgc-test-lisp/src/reader.rs\<close>): the reader of the test Lisp and a printer it inverts.
  \<^item> \<open>Lisp_Value\<close> (\<^verbatim>\<open>value.rs\<close>): its values, their encoding, allocation and access in the heap.
  \<^item> \<open>Lisp_State\<close> and \<open>Lisp_Roots\<close> (\<^verbatim>\<open>eval.rs\<close>): the interpreter's state and its collections; the locale
    \<open>slots\<close>, interpreted for the interpreter, makes every forwarded root reach its place.

  Loops. Every loop is structural recursion, a fold over the list the code iterates, or a
  \<open>function\<close> with a termination proof, or, for the refill loop of a mutator, a partial function
  into \<open>option\<close> that is shown to return; there is no fuel. The mark loop terminates because every
  push marks an unmarked cell of the finite reservation.

  Not modelled: the crash handler (signal handlers that print); the evaluation of forms by the test
  Lisp and its shared-heap mode; the Windows and Box backings of the reservation; debug formatting
  and diagnostics behind
  environment variables. Atomics have no weak-memory behaviour here, epochs are
  natural numbers, and the wait time-out of a driver is a spurious wake-up.
\<close>

end
